(* ===== verification/SU_Prelude.thy ===== *)
theory SU_Prelude
  imports "HOL-Library.Word" "HOL-Library.Multiset"
begin

text \<open>
  Shared vocabulary of the development: machine integers, C++ exceptions as values, the
  \<open>for\<close> loop whose body may throw, the bisection loop every binary search of the
  library runs, and the list lemmas the component theories share (segments of an array
  between offsets, sums, uniqueness of strictly sorted lists).
\<close>

unbundle bit_operations_syntax

section \<open>Machine integers\<close>

type_synonym u64 = "64 word"
type_synonym byte = "8 word"

text \<open>
  A \<open>std::size_t\<close> is a natural number. Where an arithmetic expression of the source can
  leave the 64-bit range its result is wrapped with \<open>size_t\<close>; the narrowing casts to the
  32-bit \<open>Slot\<close> and the 16-bit \<open>BucketId\<close> are written out in the same way.
\<close>

definition size_t :: "nat \<Rightarrow> nat" where
  "size_t n = n mod 2 ^ 64"

lemma size_t_id [simp]: "n < 2 ^ 64 \<Longrightarrow> size_t n = n"
  by (simp add: size_t_def)

lemma size_t_less: "size_t n < 2 ^ 64"
  by (simp add: size_t_def)

section \<open>Exceptions\<close>

datatype exn = Invalid_argument string | Out_of_range string | Length_error string

definition quoted :: "string \<Rightarrow> string" where
  "quoted s = CHR 0x27 # s @ [CHR 0x27]"

text \<open>
  A member function that changes its object and may throw returns the value or the
  exception together with the state it leaves behind.
\<close>

type_synonym ('s, 'v) run = "(exn + 'v) \<times> 's"

fun for_do :: "('i \<Rightarrow> 's \<Rightarrow> ('s, unit) run) \<Rightarrow> 'i list \<Rightarrow> 's \<Rightarrow> ('s, unit) run" where
  "for_do f [] s = (Inr (), s)"
| "for_do f (i # is) s =
     (case f i s of
        (Inl e, s') \<Rightarrow> (Inl e, s')
      | (Inr _, s') \<Rightarrow> for_do f is s')"

lemma for_do_append:
  "for_do f (xs @ ys) s =
     (case for_do f xs s of (Inl e, s') \<Rightarrow> (Inl e, s') | (Inr _, s') \<Rightarrow> for_do f ys s')"
  by (induction xs arbitrary: s) (auto split: prod.splits sum.splits)

text \<open>A loop whose body never throws under an invariant is a \<open>fold\<close>.\<close>

lemma for_do_fold:
  assumes "P s" and "\<And>i t. i \<in> set is \<Longrightarrow> P t \<Longrightarrow> f i t = (Inr (), g i t) \<and> P (g i t)"
  shows "for_do f is s = (Inr (), fold g is s) \<and> P (fold g is s)"
  using assms by (induction "is" arbitrary: s) auto

text \<open>Running a possibly throwing update over every element of a vector, in order.\<close>

fun each_do :: "('s \<Rightarrow> ('s, unit) run) \<Rightarrow> 's list \<Rightarrow> ('s list, unit) run" where
  "each_do f [] = (Inr (), [])"
| "each_do f (s # ss) =
     (case f s of
        (Inl e, s') \<Rightarrow> (Inl e, s' # ss)
      | (Inr _, s') \<Rightarrow> (case each_do f ss of (r, ss') \<Rightarrow> (r, s' # ss')))"

lemma each_do_map:
  assumes "\<And>s. s \<in> set ss \<Longrightarrow> f s = (Inr (), g s)"
  shows "each_do f ss = (Inr (), map g ss)"
  using assms by (induction ss) auto

lemma length_each_do: "length (snd (each_do f ss)) = length ss"
  by (induction ss) (auto split: prod.splits sum.splits)

section \<open>Bisection\<close>

text \<open>
  The loop of every binary search in the library:
  \<open>while (lo < hi) { mid = lo + (hi - lo) / 2; if (right(mid)) lo = mid + 1; else hi = mid; }\<close>.
\<close>

function bisect :: "(nat \<Rightarrow> bool) \<Rightarrow> nat \<Rightarrow> nat \<Rightarrow> nat" where
  "bisect right lo hi =
     (if lo < hi then
        let mid = lo + (hi - lo) div 2
        in if right mid then bisect right (mid + 1) hi else bisect right lo mid
      else lo)"
  by pat_completeness auto
termination
  by (relation "measure (\<lambda>(right, lo, hi). hi - lo)") auto

declare bisect.simps [simp del]

lemma bisect_bounds: "lo \<le> hi \<Longrightarrow> lo \<le> bisect right lo hi \<and> bisect right lo hi \<le> hi"
proof (induction right lo hi rule: bisect.induct)
  case (1 right lo hi)
  show ?case
  proof (cases "lo < hi")
    case True
    let ?mid = "lo + (hi - lo) div 2"
    have mid: "lo \<le> ?mid" "?mid < hi" using True by auto
    show ?thesis
    proof (cases "right ?mid")
      case True
      have "?mid + 1 \<le> bisect right (?mid + 1) hi \<and> bisect right (?mid + 1) hi \<le> hi"
        using "1.IH"(1)[OF \<open>lo < hi\<close> refl True] mid by simp
      then show ?thesis using True \<open>lo < hi\<close> by (simp add: bisect.simps[of right lo hi] Let_def)
    next
      case False
      have "lo \<le> bisect right lo ?mid \<and> bisect right lo ?mid \<le> ?mid"
        using "1.IH"(2)[OF \<open>lo < hi\<close> refl False] mid by simp
      then show ?thesis using False \<open>lo < hi\<close> mid by (auto simp: bisect.simps[of right lo hi] Let_def)
    qed
  next
    case False
    with "1.prems" show ?thesis by (subst (1 2) bisect.simps) simp
  qed
qed

lemma bisect_le: "bisect right 0 n \<le> n"
  using bisect_bounds[of 0 n right] by simp

lemma bisect_cong:
  "(\<And>i. lo \<le> i \<Longrightarrow> i < hi \<Longrightarrow> p i = q i) \<Longrightarrow> bisect p lo hi = bisect q lo hi"
proof (induction p lo hi rule: bisect.induct)
  case (1 p lo hi)
  show ?case
  proof (cases "lo < hi")
    case True
    let ?mid = "lo + (hi - lo) div 2"
    have pq: "p ?mid = q ?mid" using True by (intro "1.prems") auto
    show ?thesis
    proof (cases "p ?mid")
      case True
      have "bisect p (?mid + 1) hi = bisect q (?mid + 1) hi"
        by (rule "1.IH"(1)[OF \<open>lo < hi\<close> refl True]) (rule "1.prems", auto)
      then show ?thesis using True pq \<open>lo < hi\<close>
        by (simp add: bisect.simps[of p lo hi] bisect.simps[of q lo hi] Let_def)
    next
      case False
      have "bisect p lo ?mid = bisect q lo ?mid"
        using \<open>lo < hi\<close> by (intro "1.IH"(2)[OF \<open>lo < hi\<close> refl False]) (rule "1.prems", auto)
      then show ?thesis using False pq \<open>lo < hi\<close>
        by (simp add: bisect.simps[of p lo hi] bisect.simps[of q lo hi] Let_def)
    qed
  next
    case False
    then show ?thesis by (simp add: bisect.simps[of p lo hi] bisect.simps[of q lo hi])
  qed
qed

text \<open>On a partitioned range the loop finds the partition point.\<close>

lemma bisect_partition:
  assumes "lo \<le> hi" and "\<And>i j. lo \<le> i \<Longrightarrow> i < j \<Longrightarrow> j < hi \<Longrightarrow> right j \<Longrightarrow> right i"
  shows "(\<forall>i. lo \<le> i \<and> i < bisect right lo hi \<longrightarrow> right i)
       \<and> (\<forall>i. bisect right lo hi \<le> i \<and> i < hi \<longrightarrow> \<not> right i)"
  using assms
proof (induction right lo hi rule: bisect.induct)
  case (1 right lo hi)
  show ?case
  proof (cases "lo < hi")
    case True
    let ?mid = "lo + (hi - lo) div 2"
    have mid: "lo \<le> ?mid" "?mid < hi" using True by auto
    show ?thesis
    proof (cases "right ?mid")
      case True
      have eq: "bisect right lo hi = bisect right (?mid + 1) hi"
        using True \<open>lo < hi\<close> by (simp add: bisect.simps[of right lo hi] Let_def)
      have IH: "(\<forall>i. ?mid + 1 \<le> i \<and> i < bisect right (?mid + 1) hi \<longrightarrow> right i)
          \<and> (\<forall>i. bisect right (?mid + 1) hi \<le> i \<and> i < hi \<longrightarrow> \<not> right i)"
        using mid by (intro "1.IH"(1)[OF \<open>lo < hi\<close> refl True]) (auto intro: "1.prems"(2))
      have "right i" if "lo \<le> i" "i \<le> ?mid" for i
      proof (cases "i = ?mid")
        case True
        then show ?thesis using \<open>right ?mid\<close> by simp
      next
        case False
        then have "i < ?mid" using that by linarith
        then show ?thesis using "1.prems"(2)[of i ?mid] that mid \<open>right ?mid\<close> by blast
      qed
      then show ?thesis unfolding eq using IH by (metis Suc_eq_plus1 not_less_eq_eq)
    next
      case False
      have eq: "bisect right lo hi = bisect right lo ?mid"
        using False \<open>lo < hi\<close> by (simp add: bisect.simps[of right lo hi] Let_def)
      have IH: "(\<forall>i. lo \<le> i \<and> i < bisect right lo ?mid \<longrightarrow> right i)
          \<and> (\<forall>i. bisect right lo ?mid \<le> i \<and> i < ?mid \<longrightarrow> \<not> right i)"
        using mid by (intro "1.IH"(2)[OF \<open>lo < hi\<close> refl False]) (auto intro: "1.prems"(2))
      have "\<not> right i" if "?mid \<le> i" "i < hi" for i
      proof (cases "i = ?mid")
        case False
        then have "?mid < i" using that by linarith
        then show ?thesis using "1.prems"(2)[of ?mid i] that mid \<open>\<not> right ?mid\<close> by blast
      qed (use \<open>\<not> right ?mid\<close> in simp)
      then show ?thesis unfolding eq using IH by (meson not_le)
    qed
  next
    case False
    then show ?thesis by (auto simp: bisect.simps[of right lo hi])
  qed
qed

lemma bisect_right_iff:
  assumes "\<And>i j. i < j \<Longrightarrow> j < n \<Longrightarrow> right j \<Longrightarrow> right i" and "i < n"
  shows "right i \<longleftrightarrow> i < bisect right 0 n"
  using bisect_partition[of 0 n right] assms by (meson not_le zero_le)

lemma bisect_unique:
  assumes "m \<le> n" and "\<And>i. i < m \<Longrightarrow> right i" and "\<And>i. m \<le> i \<Longrightarrow> i < n \<Longrightarrow> \<not> right i"
  shows "bisect right 0 n = m"
proof (rule ccontr)
  have part: "right i \<longleftrightarrow> i < bisect right 0 n" if "i < n" for i
    by (rule bisect_right_iff) (use assms that in \<open>meson not_le less_trans\<close>)+
  assume "bisect right 0 n \<noteq> m"
  then consider "bisect right 0 n < m" | "m < bisect right 0 n" by linarith
  then show False
  proof cases
    case 1
    then show False using assms(1,2) part[of "bisect right 0 n"] by auto
  next
    case 2
    then show False using assms(3)[of m] part[of m] bisect_le[of right n] by auto
  qed
qed

lemma bisect_count:
  assumes "\<And>i j. i < j \<Longrightarrow> j < n \<Longrightarrow> right j \<Longrightarrow> right i"
  shows "bisect right 0 n = length (filter right [0..<n])"
proof -
  let ?m = "bisect right 0 n"
  have le: "?m \<le> n" by (rule bisect_le)
  have "[0..<n] = [0..<?m] @ [?m..<n]" using le upt_add_eq_append[of 0 ?m "n - ?m"] by simp
  moreover have "filter right [0..<?m] = [0..<?m]"
    using bisect_right_iff[of n right] assms le by (intro filter_True) (auto dest: less_le_trans)
  moreover have "filter right [?m..<n] = []"
    using bisect_right_iff[of n right] assms by (intro filter_False) (auto simp: not_less)
  ultimately have "filter right [0..<n] = [0..<?m]" by (metis append_Nil2 filter_append)
  then show ?thesis by simp
qed

section \<open>Lists\<close>

lemma sorted_le_last: "sorted xs \<Longrightarrow> x \<in> set xs \<Longrightarrow> x \<le> last xs"
  by (induction xs) auto

lemma nth_filter_index:
  "i < length xs \<Longrightarrow> P (xs ! i) \<Longrightarrow> filter P xs ! length (filter P (take i xs)) = xs ! i"
proof -
  assume i: "i < length xs" and P: "P (xs ! i)"
  have "filter P xs = filter P (take i xs) @ xs ! i # filter P (drop (Suc i) xs)"
    using id_take_nth_drop[OF i] P by (metis filter.simps(2) filter_append)
  then show ?thesis by simp
qed

lemma length_filter_take_less:
  "i < length xs \<Longrightarrow> P (xs ! i) \<Longrightarrow> length (filter P (take i xs)) < length (filter P xs)"
proof -
  assume i: "i < length xs" and P: "P (xs ! i)"
  have "filter P xs = filter P (take i xs) @ xs ! i # filter P (drop (Suc i) xs)"
    using id_take_nth_drop[OF i] P by (metis filter.simps(2) filter_append)
  then show ?thesis by simp
qed

end
