(* ===== verification/Float64.thy ===== *)
theory Float64
  imports SU_Prelude
begin

text \<open>
  IEEE-754 binary64, as far as the code uses it: the value a bit pattern denotes, the order
  \<open><\<close>, multiplication and division rounded to nearest, ties to even, conversion from
  \<open>size_t\<close>, \<open>std::ceil\<close> followed by the conversion to \<open>size_t\<close>, \<open>std::min\<close> and
  \<open>std::max\<close>. A finite value is a sign, a mantissa and a binary exponent:
  \<open>Fin s m e\<close> is \<open>(-1)^s * m * 2^e\<close>.
\<close>

datatype f64 = NaN | Inf bool | Fin bool nat int

section \<open>Bit patterns\<close>

definition f64_sign :: "u64 \<Rightarrow> bool" where
  "f64_sign b \<longleftrightarrow> 2 ^ 63 \<le> unat b"

definition f64_exponent :: "u64 \<Rightarrow> nat" where
  "f64_exponent b = unat b div 2 ^ 52 mod 2 ^ 11"

definition f64_fraction :: "u64 \<Rightarrow> nat" where
  "f64_fraction b = unat b mod 2 ^ 52"

definition f64_of_bits :: "u64 \<Rightarrow> f64" where
  "f64_of_bits b =
     (let s = f64_sign b; ex = f64_exponent b; fr = f64_fraction b
      in if ex = 2047 then (if fr = 0 then Inf s else NaN)
         else if ex = 0 then Fin s fr (-1074)
         else Fin s (fr + 2 ^ 52) (int ex - 1075))"

definition f64_isnan :: "u64 \<Rightarrow> bool" where
  "f64_isnan b \<longleftrightarrow> f64_exponent b = 2047 \<and> f64_fraction b \<noteq> 0"

section \<open>Order\<close>

definition signed_nat :: "bool \<Rightarrow> nat \<Rightarrow> int" where
  "signed_nat s m = (if s then - int m else int m)"

fun f64_lt :: "f64 \<Rightarrow> f64 \<Rightarrow> bool" where
  "f64_lt NaN y = False"
| "f64_lt x NaN = False"
| "f64_lt (Inf s) (Inf t) = (s \<and> \<not> t)"
| "f64_lt (Inf s) (Fin t n d) = s"
| "f64_lt (Fin s m e) (Inf t) = (\<not> t)"
| "f64_lt (Fin s m e) (Fin t n d) =
     (let k = min e d
      in signed_nat s (m * 2 ^ nat (e - k)) < signed_nat t (n * 2 ^ nat (d - k)))"

definition f64_min :: "f64 \<Rightarrow> f64 \<Rightarrow> f64" where
  "f64_min a b = (if f64_lt b a then b else a)"

definition f64_max :: "f64 \<Rightarrow> f64 \<Rightarrow> f64" where
  "f64_max a b = (if f64_lt a b then b else a)"

fun f64_isfinite :: "f64 \<Rightarrow> bool" where
  "f64_isfinite (Fin s m e) = True"
| "f64_isfinite _ = False"

section \<open>Rounding\<close>

fun bit_count :: "nat \<Rightarrow> nat" where
  "bit_count m = (if m = 0 then 0 else Suc (bit_count (m div 2)))"

declare bit_count.simps [simp del]

definition round_shift :: "nat \<Rightarrow> nat \<Rightarrow> nat" where
  "round_shift m k =
     (let q = m div 2 ^ k; r = m mod 2 ^ k
      in if k = 0 then m
         else if 2 ^ (k - 1) < r \<or> r = 2 ^ (k - 1) \<and> odd q then q + 1 else q)"

definition f64_overflow :: "bool \<Rightarrow> nat \<Rightarrow> int \<Rightarrow> f64" where
  "f64_overflow s m e = (if 1024 < int (bit_count m) + e \<and> m \<noteq> 0 then Inf s else Fin s m e)"

definition f64_round :: "bool \<Rightarrow> nat \<Rightarrow> int \<Rightarrow> f64" where
  "f64_round s m e =
     (let k = max (int (bit_count m) - 53) (- 1074 - e)
      in if k \<le> 0 then f64_overflow s m e
         else f64_overflow s (round_shift m (nat k)) (e + k))"

definition f64_of_nat :: "nat \<Rightarrow> f64" where
  "f64_of_nat n = f64_round False n 0"

fun f64_mul :: "f64 \<Rightarrow> f64 \<Rightarrow> f64" where
  "f64_mul NaN y = NaN"
| "f64_mul x NaN = NaN"
| "f64_mul (Inf s) (Inf t) = Inf (s \<noteq> t)"
| "f64_mul (Inf s) (Fin t n d) = (if n = 0 then NaN else Inf (s \<noteq> t))"
| "f64_mul (Fin s m e) (Inf t) = (if m = 0 then NaN else Inf (s \<noteq> t))"
| "f64_mul (Fin s m e) (Fin t n d) = f64_round (s \<noteq> t) (m * n) (e + d)"

text \<open>
  The quotient is computed to more than 55 significant bits, with a sticky bit for a
  non-zero remainder, and then rounded.
\<close>

fun f64_div :: "f64 \<Rightarrow> f64 \<Rightarrow> f64" where
  "f64_div NaN y = NaN"
| "f64_div x NaN = NaN"
| "f64_div (Inf s) (Inf t) = NaN"
| "f64_div (Inf s) (Fin t n d) = Inf (s \<noteq> t)"
| "f64_div (Fin s m e) (Inf t) = Fin (s \<noteq> t) 0 0"
| "f64_div (Fin s m e) (Fin t n d) =
     (if n = 0 then (if m = 0 then NaN else Inf (s \<noteq> t))
      else let p = bit_count n + 55;
               q = m * 2 ^ p div n;
               sticky = (if m * 2 ^ p mod n = 0 then 0 else 1)
           in f64_round (s \<noteq> t) (2 * q + sticky) (e - d - int p - 1))"

text \<open>
  \<open>static_cast<std::size_t>(std::ceil(x))\<close>. The conversion is undefined behaviour for NaN
  and outside \<open>[0, 2^64)\<close>; the model leaves the value unspecified there.
\<close>

fun ceil_nat :: "f64 \<Rightarrow> nat" where
  "ceil_nat (Fin s m e) =
     (if s then 0 else if 0 \<le> e then m * 2 ^ nat e
      else (m + 2 ^ nat (- e) - 1) div 2 ^ nat (- e))"
| "ceil_nat _ = 0"

definition ceil_size_t :: "f64 \<Rightarrow> nat" where
  "ceil_size_t x =
     (if f64_isfinite x \<and> ceil_nat x < 2 ^ 64 then ceil_nat x else undefined)"

section \<open>Bit patterns decode monotonically\<close>

definition f64_magnitude :: "u64 \<Rightarrow> nat" where
  "f64_magnitude b = unat b mod 2 ^ 63"

text \<open>A finite magnitude as an integer multiple of the smallest subnormal number.\<close>

definition magnitude_value :: "nat \<Rightarrow> nat" where
  "magnitude_value u =
     (if u div 2 ^ 52 = 0 then u else (u mod 2 ^ 52 + 2 ^ 52) * 2 ^ (u div 2 ^ 52 - 1))"

lemma unat_sign_magnitude:
  "unat b = (if f64_sign b then 2 ^ 63 else 0) + f64_magnitude b"
proof -
  have "unat b < 2 ^ 64" using unsigned_less[of b, where ?'a = nat] by simp
  then show ?thesis by (auto simp: f64_sign_def f64_magnitude_def le_mod_geq not_le)
qed

lemma magnitude_parts:
  "f64_exponent b = f64_magnitude b div 2 ^ 52" "f64_fraction b = f64_magnitude b mod 2 ^ 52"
proof -
  have "unat b mod 2 ^ 63 div 2 ^ 52 = unat b div 2 ^ 52 mod 2 ^ 11"
    using mod_mult2_eq[of "unat b" "2 ^ 52" "2 ^ 11"] by (simp add: div_mult2_eq)
  then show "f64_exponent b = f64_magnitude b div 2 ^ 52"
    by (simp add: f64_exponent_def f64_magnitude_def)
  show "f64_fraction b = f64_magnitude b mod 2 ^ 52"
    by (simp add: f64_fraction_def f64_magnitude_def mod_mod_cancel)
qed

lemma magnitude_value_mono:
  assumes "u < v"
  shows "magnitude_value u < magnitude_value v"
proof -
  define M where "M = (2::nat) ^ 52"
  have Mpos: "0 < M" by (simp add: M_def)
  have le: "u div M \<le> v div M" using assms by (simp add: div_le_mono)
  have uM: "u = u div M * M + u mod M" and vM: "v = v div M * M + v mod M" by simp_all
  have um: "u mod M < M" and vm: "v mod M < M" using Mpos by simp_all
  have val: "magnitude_value x = (if x div M = 0 then x else (x mod M + M) * 2 ^ (x div M - 1))" for x
    by (simp add: magnitude_value_def M_def)
  show ?thesis
  proof (cases "u div M = v div M")
    case True
    then have "u mod M < v mod M" using uM vM assms by (metis nat_add_left_cancel_less)
    then show ?thesis using True assms by (auto simp: val)
  next
    case False
    then have lt: "u div M < v div M" using le by simp
    have "magnitude_value u < M * 2 ^ (u div M)"
    proof (cases "u div M = 0")
      case True
      then show ?thesis using um Mpos by (simp add: val div_eq_0_iff)
    next
      case False
      then have "(u mod M + M) * 2 ^ (u div M - 1) < (2 * M) * 2 ^ (u div M - 1)"
        using um by (intro mult_strict_right_mono) auto
      also have "\<dots> = M * 2 ^ (u div M)" using False by (metis mult.assoc mult.commute power_eq_if)
      finally show ?thesis using False by (simp add: val)
    qed
    also have "\<dots> \<le> M * 2 ^ (v div M - 1)" using lt by (intro mult_left_mono power_increasing) auto
    also have "\<dots> \<le> magnitude_value v" using lt by (simp add: val)
    finally show ?thesis .
  qed
qed

lemma magnitude_value_less_iff: "magnitude_value u < magnitude_value v \<longleftrightarrow> u < v"
  using magnitude_value_mono by (metis less_asym linorder_neqE_nat nat_neq_iff)

lemma signed_nat_mult: "signed_nat s (m * c) = signed_nat s m * int c"
  by (simp add: signed_nat_def)

lemma f64_lt_scaled:
  assumes "- 1074 \<le> e" and "- 1074 \<le> d"
  shows "f64_lt (Fin s m e) (Fin t n d)
    \<longleftrightarrow> signed_nat s (m * 2 ^ nat (e + 1074)) < signed_nat t (n * 2 ^ nat (d + 1074))"
proof -
  let ?k = "min e d"
  let ?c = "2 ^ nat (?k + 1074) :: nat"
  have e: "m * 2 ^ nat (e + 1074) = m * 2 ^ nat (e - ?k) * ?c"
    using assms by (simp flip: power_add nat_add_distrib)
  have d: "n * 2 ^ nat (d + 1074) = n * 2 ^ nat (d - ?k) * ?c"
    using assms by (simp flip: power_add nat_add_distrib)
  show ?thesis unfolding e d by (simp add: Let_def signed_nat_mult)
qed

definition signed_value :: "u64 \<Rightarrow> int" where
  "signed_value b = signed_nat (f64_sign b) (magnitude_value (f64_magnitude b))"

lemma infinity_magnitude: "magnitude_value (2047 * 2 ^ 52) = 2 ^ 52 * 2 ^ 2046"
  by (simp add: magnitude_value_def)

lemma f64_of_bits_cases:
  assumes "\<not> f64_isnan b"
  obtains (inf) "f64_of_bits b = Inf (f64_sign b)" "f64_magnitude b = 2047 * 2 ^ 52"
  | (fin) m e where "f64_of_bits b = Fin (f64_sign b) m e" "- 1074 \<le> e"
      "m * 2 ^ nat (e + 1074) = magnitude_value (f64_magnitude b)" "f64_magnitude b < 2047 * 2 ^ 52"
proof -
  let ?u = "f64_magnitude b"
  have u: "?u < 2 ^ 63" by (simp add: f64_magnitude_def)
  then have ex: "?u div 2 ^ 52 < 2048" by (simp add: less_mult_imp_div_less)
  have split: "?u = ?u div 2 ^ 52 * 2 ^ 52 + ?u mod 2 ^ 52" by simp
  consider "?u div 2 ^ 52 = 2047" | "?u div 2 ^ 52 = 0" | "0 < ?u div 2 ^ 52" "?u div 2 ^ 52 < 2047"
    using ex by linarith
  then show thesis
  proof cases
    case 1
    then have "?u mod 2 ^ 52 = 0" using assms by (simp add: f64_isnan_def magnitude_parts)
    moreover have "?u = 2047 * 2 ^ 52" using split unfolding 1 calculation by linarith
    ultimately show thesis using 1 by (intro inf) (simp_all add: f64_of_bits_def magnitude_parts Let_def)
  next
    case 2
    then have "?u mod 2 ^ 52 = ?u" by (simp add: div_eq_0_iff)
    then show thesis using 2
      by (intro fin[of ?u "-1074"])
        (simp_all add: f64_of_bits_def magnitude_parts Let_def magnitude_value_def div_eq_0_iff)
  next
    case 3
    have "?u < 2047 * 2 ^ 52" using 3(2) by (metis div_less_iff_less_mult zero_less_numeral zero_less_power)
    moreover have "nat (int (?u div 2 ^ 52) - 1075 + 1074) = ?u div 2 ^ 52 - 1" using 3 by simp
    ultimately show thesis using 3
      by (intro fin[of "?u mod 2 ^ 52 + 2 ^ 52" "int (?u div 2 ^ 52) - 1075"])
        (simp_all add: f64_of_bits_def magnitude_parts Let_def magnitude_value_def del: of_nat_div)
  qed
qed

text \<open>On patterns that are not NaN, \<open><\<close> is the order of the signed magnitudes.\<close>

lemma f64_lt_signed_value:
  assumes "\<not> f64_isnan a" and "\<not> f64_isnan b"
  shows "f64_lt (f64_of_bits a) (f64_of_bits b) \<longleftrightarrow> signed_value a < signed_value b"
proof -
  have pos: "0 < magnitude_value (2047 * 2 ^ 52)" by (simp only: infinity_magnitude) simp
  have below: "magnitude_value u < magnitude_value (2047 * 2 ^ 52)" if "u < 2047 * 2 ^ 52" for u
    using that by (rule magnitude_value_mono)
  note defs = signed_value_def signed_nat_def
  show ?thesis
  proof (rule f64_of_bits_cases[OF assms(1)])
    assume a: "f64_of_bits a = Inf (f64_sign a)" "f64_magnitude a = 2047 * 2 ^ 52"
    show ?thesis
    proof (rule f64_of_bits_cases[OF assms(2)])
      assume "f64_of_bits b = Inf (f64_sign b)" "f64_magnitude b = 2047 * 2 ^ 52"
      then show ?thesis using a pos by (auto simp: defs simp del: mult_numeral_left)
    next
      fix m e assume "f64_of_bits b = Fin (f64_sign b) m e" "f64_magnitude b < 2047 * 2 ^ 52"
      then show ?thesis using a pos below[of "f64_magnitude b"] by (auto simp: defs)
    qed
  next
    fix m e
    assume a: "f64_of_bits a = Fin (f64_sign a) m e" "- 1074 \<le> e"
      "m * 2 ^ nat (e + 1074) = magnitude_value (f64_magnitude a)" "f64_magnitude a < 2047 * 2 ^ 52"
    show ?thesis
    proof (rule f64_of_bits_cases[OF assms(2)])
      assume "f64_of_bits b = Inf (f64_sign b)" "f64_magnitude b = 2047 * 2 ^ 52"
      then show ?thesis using a pos below[of "f64_magnitude a"] by (auto simp: defs)
    next
      fix n d assume "f64_of_bits b = Fin (f64_sign b) n d" "- 1074 \<le> d"
        "n * 2 ^ nat (d + 1074) = magnitude_value (f64_magnitude b)"
      then show ?thesis using a by (simp only: f64_lt_scaled signed_value_def)
    qed
  qed
qed

section \<open>Values of at least one\<close>

text \<open>
  The page sizes and growth factors the bucket plan multiplies are at least one, and stay so
  under rounding.
\<close>

fun at_least_one :: "f64 \<Rightarrow> bool" where
  "at_least_one NaN \<longleftrightarrow> False"
| "at_least_one (Inf s) \<longleftrightarrow> \<not> s"
| "at_least_one (Fin s m e) \<longleftrightarrow> \<not> s \<and> (if 0 \<le> e then 1 \<le> m else 2 ^ nat (- e) \<le> m)"

definition f64_one :: f64 where
  "f64_one = Fin False 1 0"

lemma at_least_one_iff: "at_least_one x \<longleftrightarrow> x \<noteq> NaN \<and> \<not> f64_lt x f64_one"
proof (cases x)
  case (Fin s m e)
  show ?thesis
  proof (cases "0 \<le> e")
    case True
    have "0 < int (2 ^ nat e)" by simp
    then have "int m * int (2 ^ nat e) < 1 \<longleftrightarrow> m = 0"
      by (metis mult_eq_0_iff mult_is_0 not_less of_nat_0_less_iff of_nat_1 of_nat_less_iff of_nat_mult
          One_nat_def Suc_leI gr0I less_one)
    moreover have "- (int m * int (2 ^ nat e)) < 1" by (smt (verit) mult_nonneg_nonneg of_nat_0_le_iff)
    ultimately show ?thesis using Fin True
      by (auto simp: f64_one_def signed_nat_def Let_def min_def not_less Suc_le_eq)
  next
    case False
    then have "f64_lt x f64_one \<longleftrightarrow> signed_nat s m < int (2 ^ nat (- e))"
      using Fin by (simp add: f64_one_def Let_def min_def signed_nat_def)
    moreover have "- int m < 2 ^ nat (- e)" by (rule le_less_trans[of _ 0]) simp_all
    ultimately show ?thesis using Fin False by (auto simp: signed_nat_def not_less)
  qed
qed (auto simp: f64_one_def)

lemma bit_count_bounds: "0 < m \<Longrightarrow> 2 ^ (bit_count m - 1) \<le> m \<and> m < 2 ^ bit_count m"
proof (induction m rule: bit_count.induct)
  case (1 m)
  show ?case
  proof (cases "m div 2 = 0")
    case True
    then have "m = 1" using "1.prems" by simp
    then show ?thesis by (simp add: bit_count.simps)
  next
    case False
    then have IH: "2 ^ (bit_count (m div 2) - 1) \<le> m div 2" "m div 2 < 2 ^ bit_count (m div 2)"
      using "1.IH" "1.prems" by auto
    have "bit_count (m div 2) \<noteq> 0" using False by (subst bit_count.simps) simp
    then obtain k where k: "bit_count (m div 2) = Suc k" by (cases "bit_count (m div 2)") auto
    have "bit_count m = Suc (Suc k)" using "1.prems" k by (subst bit_count.simps) simp
    then show ?thesis using IH k by auto
  qed
qed

lemma round_shift_ge: "m div 2 ^ k \<le> round_shift m k"
  by (simp add: round_shift_def Let_def)

lemma at_least_one_overflow:
  "at_least_one (Fin False m e) \<Longrightarrow> at_least_one (f64_overflow False m e)"
  by (auto simp: f64_overflow_def split: if_splits)

lemma at_least_one_round:
  assumes "at_least_one (Fin False m e)"
  shows "at_least_one (f64_round False m e)"
proof -
  define k where "k = max (int (bit_count m) - 53) (- 1074 - e)"
  show ?thesis
  proof (cases "k \<le> 0")
    case True
    then show ?thesis using assms
      by (simp add: f64_round_def at_least_one_overflow flip: k_def del: at_least_one.simps)
  next
    case False
    have m: "0 < m" using assms by (cases "0 \<le> e") (auto intro: Nat.gr0I)
    have "at_least_one (Fin False (m div 2 ^ nat k) (e + k))"
    proof (cases "0 \<le> e + k")
      case True
      then have "k = int (bit_count m) - 53" using False by (auto simp: k_def max_def split: if_splits)
      then have "2 ^ nat k \<le> (2::nat) ^ (bit_count m - 1)" using False by (intro power_increasing) auto
      then have "2 ^ nat k \<le> m" using bit_count_bounds[OF m] by linarith
      then show ?thesis using True by (simp add: Suc_leI div_greater_zero_iff)
    next
      case neg: False
      have "2 ^ nat (- e) = 2 ^ nat (- (e + k)) * (2::nat) ^ nat k"
        using False neg by (simp flip: power_add nat_add_distrib)
      then have "2 ^ nat (- (e + k)) * 2 ^ nat k \<le> m" using assms False neg by (auto split: if_splits)
      then show ?thesis using neg by (simp add: less_eq_div_iff_mult_less_eq)
    qed
    then have "at_least_one (Fin False (round_shift m (nat k)) (e + k))"
      using round_shift_ge[of m "nat k"] by (auto intro: order_trans split: if_splits)
    then show ?thesis using False
      by (simp add: f64_round_def at_least_one_overflow flip: k_def del: at_least_one.simps)
  qed
qed

lemma at_least_one_of_nat: "1 \<le> n \<Longrightarrow> at_least_one (f64_of_nat n)"
  unfolding f64_of_nat_def by (rule at_least_one_round) simp

lemma at_least_one_min: "at_least_one a \<Longrightarrow> at_least_one b \<Longrightarrow> at_least_one (f64_min a b)"
  by (simp add: f64_min_def)

lemma at_least_one_mult:
  assumes "at_least_one (Fin s m e)" and "at_least_one (Fin t n d)"
  shows "at_least_one (Fin False (m * n) (e + d))"
proof -
  have lower: "2 ^ nat (- e) \<le> m * 2 ^ nat e" "2 ^ nat (- d) \<le> n * 2 ^ nat d"
    using assms by (auto split: if_splits)
  have pow: "2 ^ nat (- (e + d)) * (2 ^ nat e * 2 ^ nat d) = 2 ^ nat (e + d) * (2 ^ nat (- e) * (2::nat) ^ nat (- d))"
    by (simp flip: power_add)
  have "2 ^ nat (- e) * 2 ^ nat (- d) \<le> (m * 2 ^ nat e) * (n * 2 ^ nat d)"
    using lower by (rule mult_le_mono)
  then have "2 ^ nat (e + d) * (2 ^ nat (- e) * 2 ^ nat (- d)) \<le> 2 ^ nat (e + d) * ((m * 2 ^ nat e) * (n * 2 ^ nat d))"
    by simp
  then have "2 ^ nat (- (e + d)) * (2 ^ nat e * 2 ^ nat d) \<le> (2 ^ nat (e + d) * (m * n)) * (2 ^ nat e * 2 ^ nat d)"
    unfolding pow by (simp add: algebra_simps)
  moreover have "0 < 2 ^ nat e * (2::nat) ^ nat d" by simp
  ultimately have "2 ^ nat (- (e + d)) \<le> 2 ^ nat (e + d) * (m * n)"
    using mult_le_cancel2 by blast
  then show ?thesis by (cases "0 \<le> e + d") (auto intro: Nat.gr0I simp: Suc_le_eq)
qed

lemma at_least_one_mul:
  assumes "at_least_one a" and "at_least_one b"
  shows "at_least_one (f64_mul a b)"
proof (cases a; cases b)
  fix s m e t n d
  assume ab: "a = Fin s m e" "b = Fin t n d"
  then have "\<not> s" "\<not> t" using assms by simp_all
  then show ?thesis
    using at_least_one_round[OF at_least_one_mult[OF assms[unfolded ab]]] ab by simp
qed (use assms in \<open>auto split: if_splits intro: Nat.gr0I\<close>)

lemma ceil_nat_pos: "at_least_one x \<Longrightarrow> f64_isfinite x \<Longrightarrow> 1 \<le> ceil_nat x"
proof (cases x)
  case (Fin s m e)
  assume one: "at_least_one x"
  show ?thesis
  proof (cases "0 \<le> e")
    case True
    then show ?thesis using one Fin by simp
  next
    case False
    then have "2 ^ nat (- e) \<le> m" using one Fin by simp
    then have "2 ^ nat (- e) \<le> m + 2 ^ nat (- e) - 1" using one_le_power[of "2::nat" "nat (- e)"] by linarith
    then show ?thesis using one Fin False by (simp add: Suc_leI div_greater_zero_iff)
  qed
qed auto

section \<open>Sizes that survive the conversion to \<open>size_t\<close>\<close>

definition good_size :: "f64 \<Rightarrow> bool" where
  "good_size x \<longleftrightarrow> at_least_one x \<and> f64_isfinite x \<and> ceil_nat x \<le> 2 ^ 63"

lemma good_size_ceil: "good_size x \<Longrightarrow> ceil_size_t x = ceil_nat x \<and> 1 \<le> ceil_nat x"
  using ceil_nat_pos[of x] by (simp add: good_size_def ceil_size_t_def)

lemma bit_count_le: "m < 2 ^ j \<Longrightarrow> bit_count m \<le> j"
proof (cases "m = 0")
  case False
  assume "m < 2 ^ j"
  then have "(2::nat) ^ (bit_count m - 1) < 2 ^ j" using bit_count_bounds[of m] False by linarith
  then have "bit_count m - 1 < j" by (simp only: power_strict_increasing_iff one_less_numeral_iff semiring_norm)
  then show ?thesis by simp
qed (simp add: bit_count.simps)

lemma round_shift_le:
  assumes "m \<le> 2 ^ j" and "k \<le> j"
  shows "round_shift m k \<le> 2 ^ (j - k)"
proof -
  have jk: "(2::nat) ^ j = 2 ^ (j - k) * 2 ^ k" using assms(2) by (simp flip: power_add)
  have q: "m div 2 ^ k \<le> 2 ^ (j - k)" using assms(1) unfolding jk
    by (metis div_le_mono nonzero_mult_div_cancel_right power_not_zero zero_neq_numeral)
  show ?thesis
  proof (cases "m div 2 ^ k = 2 ^ (j - k)")
    case True
    have "2 ^ (j - k) * 2 ^ k + m mod 2 ^ k = m"
      using div_mult_mod_eq[of m "2 ^ k"] True by simp
    then have "m mod 2 ^ k = 0" using assms(1) jk by linarith
    then show ?thesis using True q by (simp add: round_shift_def Let_def) (metis assms jk power_0 nat_mult_1_right)
  next
    case False
    then show ?thesis using q assms by (simp add: round_shift_def Let_def)
  qed
qed

lemma ceil_of_nat: "n \<le> 2 ^ 63 \<Longrightarrow> f64_isfinite (f64_of_nat n) \<and> ceil_nat (f64_of_nat n) \<le> 2 ^ 63"
proof -
  assume n: "n \<le> 2 ^ 63"
  then have "n < 2 ^ 64" by simp
  then have bits: "bit_count n \<le> 64" by (rule bit_count_le)
  show ?thesis
  proof (cases "bit_count n \<le> 53")
    case True
    then show ?thesis using n by (simp add: f64_of_nat_def f64_round_def f64_overflow_def Let_def)
  next
    case False
    define k where "k = bit_count n - 53"
    let ?m = "round_shift n k"
    have m: "?m \<le> 2 ^ (63 - k)" using n bits by (intro round_shift_le) (auto simp: k_def)
    have pow: "2 ^ (63 - k) * (2::nat) ^ k = 2 ^ 63" using bits by (simp add: k_def flip: power_add)
    have "?m \<le> 2 ^ 63" using m power_increasing[of "63 - k" 63 "2::nat"] by linarith
    then have "?m < 2 ^ 64" by simp
    then have mbits: "bit_count ?m \<le> 64" by (rule bit_count_le)
    have kint: "max (int (bit_count n) - 53) (- 1074) = int k" using False by (simp add: k_def)
    have eq: "f64_of_nat n = Fin False ?m (int k)"
      using False mbits bits by (simp add: f64_of_nat_def f64_round_def f64_overflow_def Let_def kint)
        (simp add: k_def)
    have "?m * 2 ^ k \<le> 2 ^ (63 - k) * 2 ^ k" using m by simp
    then show ?thesis unfolding eq using pow by simp
  qed
qed

lemma good_size_of_nat: "1 \<le> n \<Longrightarrow> n \<le> 2 ^ 63 \<Longrightarrow> good_size (f64_of_nat n)"
  using ceil_of_nat[of n] at_least_one_of_nat[of n] by (simp add: good_size_def)

lemma ceil_nat_le_iff: "ceil_nat (Fin False m e) \<le> N \<longleftrightarrow> m * 2 ^ nat e \<le> N * 2 ^ nat (- e)"
proof (cases "0 \<le> e")
  case False
  define c where "c = (2::nat) ^ nat (- e)"
  have c: "0 < c" by (simp add: c_def)
  have "(m + c - 1) div c \<le> N \<longleftrightarrow> m + c - 1 < (N + 1) * c"
    using c by (metis Suc_eq_plus1 div_less_iff_less_mult less_Suc_eq_le)
  also have "\<dots> \<longleftrightarrow> m \<le> N * c" using c by (auto simp: algebra_simps)
  finally show ?thesis using False by (simp add: c_def)
qed simp

lemma ceil_nat_mono:
  assumes "\<not> f64_lt (Fin False n d) (Fin False m e)"
  shows "ceil_nat (Fin False m e) \<le> ceil_nat (Fin False n d)"
proof -
  let ?N = "ceil_nat (Fin False n d)" and ?k = "min e d"
  have N: "n * 2 ^ nat d \<le> ?N * 2 ^ nat (- d)" using ceil_nat_le_iff by blast
  have "int (m * 2 ^ nat (e - ?k)) \<le> int (n * 2 ^ nat (d - ?k))"
    using assms by (simp add: Let_def signed_nat_def min.commute not_less del: of_nat_mult)
  then have le: "m * 2 ^ nat (e - ?k) \<le> n * 2 ^ nat (d - ?k)" by (simp only: of_nat_le_iff)
  define K where "K = nat (max 0 (- ?k))"
  have shift: "x * 2 ^ nat (i - ?k) * 2 ^ nat (?k + int K) = x * 2 ^ nat (i + int K)" if "?k \<le> i" for x :: nat and i
  proof -
    have "nat (i - q) + nat (q + int (nat (max 0 (- q)))) = nat (i + int (nat (max 0 (- q))))"
      if "q \<le> i" for q :: int using that by arith
    then have "nat (i - ?k) + nat (?k + int K) = nat (i + int K)" using that unfolding K_def by blast
    then show ?thesis by (simp only: mult.assoc flip: power_add)
  qed
  have "m * 2 ^ nat (e + int K) \<le> n * 2 ^ nat (d + int K)"
    using mult_le_mono1[OF le, of "2 ^ nat (?k + int K)"] by (simp only: shift min.cobounded1 min.cobounded2)
  also have "\<dots> \<le> ?N * 2 ^ K"
  proof -
    have e1: "nat d + K = nat (d + int K) + nat (- d)" by (simp add: K_def)
    have "n * 2 ^ nat (d + int K) * 2 ^ nat (- d) = n * 2 ^ nat d * 2 ^ K"
      using arg_cong[OF e1, of "\<lambda>j. (2::nat) ^ j"] by (simp add: power_add mult.assoc)
    also have "\<dots> \<le> ?N * 2 ^ nat (- d) * 2 ^ K" using N by simp
    finally have "n * 2 ^ nat (d + int K) * 2 ^ nat (- d) \<le> (?N * 2 ^ K) * 2 ^ nat (- d)"
      by (simp add: mult.commute mult.left_commute del: ceil_nat.simps)
    then show ?thesis by (simp del: ceil_nat.simps)
  qed
  finally have A: "m * 2 ^ nat (e + int K) * 2 ^ nat (- e) \<le> ?N * 2 ^ K * 2 ^ nat (- e)"
    by (rule mult_le_mono1)
  have E: "nat e + K = nat (e + int K) + nat (- e)" by (simp add: K_def)
  have B: "m * 2 ^ nat (e + int K) * 2 ^ nat (- e) = m * 2 ^ nat e * 2 ^ K"
    by (simp only: mult.assoc E flip: power_add)
  have C: "?N * 2 ^ K * 2 ^ nat (- e) = ?N * 2 ^ nat (- e) * 2 ^ K"
    by (simp only: ac_simps)
  have "(m * 2 ^ nat e) * 2 ^ K \<le> (?N * 2 ^ nat (- e)) * 2 ^ K"
    using A unfolding B C .
  then show ?thesis unfolding ceil_nat_le_iff by (simp del: ceil_nat.simps)
qed

lemma good_size_min:
  assumes "at_least_one x" and "1 \<le> n" and "n \<le> 2 ^ 63"
  shows "good_size (f64_min x (f64_of_nat n))"
proof -
  have n: "good_size (f64_of_nat n)" using assms by (intro good_size_of_nat)
  show ?thesis
  proof (cases "f64_lt (f64_of_nat n) x")
    case True
    then show ?thesis using n by (simp add: f64_min_def)
  next
    case False
    obtain m e where N: "f64_of_nat n = Fin False m e"
      using n by (cases "f64_of_nat n") (auto simp: good_size_def)
    obtain m' e' where x: "x = Fin False m' e'"
      using assms(1) False N by (cases x) (auto split: if_splits)
    have "ceil_nat x \<le> ceil_nat (f64_of_nat n)" using False unfolding N x by (rule ceil_nat_mono)
    then show ?thesis using False n assms(1) x by (simp add: f64_min_def good_size_def del: ceil_nat.simps)
  qed
qed

end
