(* ===== verification/Std_Algorithms.thy ===== *)
theory Std_Algorithms
  imports SU_Prelude
begin

text \<open>
  The algorithms of the C++ standard library the code calls, over an arbitrary comparison
  \<open>lt\<close>: \<open>std::stable_sort\<close> and \<open>std::inplace_merge\<close> (merge sorts, as the code's
  comments require), \<open>std::is_sorted\<close>, \<open>std::lower_bound\<close>, \<open>std::upper_bound\<close>,
  \<open>std::binary_search\<close> and \<open>std::find\<close>. What the code relies on is stated by the
  locale \<open>strict_weak_order\<close>: a comparison that satisfies it determines the result of
  a stable sort uniquely. Permutation facts hold for every comparison, lawful or not.
\<close>

section \<open>Merging and stable sorting\<close>

text \<open>The right operand wins only when it is strictly smaller, so merging is stable.\<close>

fun merge_by :: "('a \<Rightarrow> 'a \<Rightarrow> bool) \<Rightarrow> 'a list \<Rightarrow> 'a list \<Rightarrow> 'a list" where
  "merge_by lt [] ys = ys"
| "merge_by lt (x # xs) [] = x # xs"
| "merge_by lt (x # xs) (y # ys) =
     (if lt y x then y # merge_by lt (x # xs) ys else x # merge_by lt xs (y # ys))"

function stable_sort :: "('a \<Rightarrow> 'a \<Rightarrow> bool) \<Rightarrow> 'a list \<Rightarrow> 'a list" where
  "stable_sort lt xs =
     (if length xs \<le> 1 then xs
      else let half = length xs div 2
           in merge_by lt (stable_sort lt (take half xs)) (stable_sort lt (drop half xs)))"
  by pat_completeness auto
termination
  by (relation "measure (\<lambda>(lt, xs). length xs)") auto

declare stable_sort.simps [simp del]

fun is_sorted_by :: "('a \<Rightarrow> 'a \<Rightarrow> bool) \<Rightarrow> 'a list \<Rightarrow> bool" where
  "is_sorted_by lt (x # y # ys) \<longleftrightarrow> \<not> lt y x \<and> is_sorted_by lt (y # ys)"
| "is_sorted_by lt _ \<longleftrightarrow> True"

section \<open>Searching\<close>

definition lower_bound :: "('a \<Rightarrow> 'b \<Rightarrow> bool) \<Rightarrow> 'a list \<Rightarrow> 'b \<Rightarrow> nat" where
  "lower_bound lt xs v = bisect (\<lambda>i. lt (xs ! i) v) 0 (length xs)"

definition upper_bound :: "('b \<Rightarrow> 'a \<Rightarrow> bool) \<Rightarrow> 'a list \<Rightarrow> 'b \<Rightarrow> nat" where
  "upper_bound lt xs v = bisect (\<lambda>i. \<not> lt v (xs ! i)) 0 (length xs)"

definition binary_search :: "nat list \<Rightarrow> nat \<Rightarrow> bool" where
  "binary_search xs v =
     (let i = lower_bound (<) xs v in i < length xs \<and> \<not> v < xs ! i)"

fun find_index :: "('a \<Rightarrow> bool) \<Rightarrow> 'a list \<Rightarrow> nat" where
  "find_index p [] = 0"
| "find_index p (x # xs) = (if p x then 0 else Suc (find_index p xs))"

abbreviation sorted_by :: "('a \<Rightarrow> 'a \<Rightarrow> bool) \<Rightarrow> 'a list \<Rightarrow> bool" where
  "sorted_by lt \<equiv> sorted_wrt (\<lambda>x y. \<not> lt y x)"

section \<open>Facts for every comparison\<close>

lemma mset_merge_by [simp]: "mset (merge_by lt xs ys) = mset xs + mset ys"
  by (induction lt xs ys rule: merge_by.induct) auto

lemma length_merge_by [simp]: "length (merge_by lt xs ys) = length xs + length ys"
  by (metis mset_merge_by mset_append size_mset length_append)

lemma set_merge_by [simp]: "set (merge_by lt xs ys) = set xs \<union> set ys"
  by (metis mset_merge_by set_mset_mset set_mset_union)

lemma mset_stable_sort [simp]: "mset (stable_sort lt xs) = mset xs"
proof (induction lt xs rule: stable_sort.induct)
  case (1 lt xs)
  show ?case
  proof (cases "length xs \<le> 1")
    case True
    then show ?thesis by (simp add: stable_sort.simps[of lt xs])
  next
    case False
    let ?h = "length xs div 2"
    have "mset (stable_sort lt xs) = mset (take ?h xs) + mset (drop ?h xs)"
      using False "1.IH" by (simp add: stable_sort.simps[of lt xs] Let_def)
    then show ?thesis by (metis append_take_drop_id mset_append)
  qed
qed

lemma length_stable_sort [simp]: "length (stable_sort lt xs) = length xs"
  by (metis mset_stable_sort size_mset)

lemma set_stable_sort [simp]: "set (stable_sort lt xs) = set xs"
  by (metis mset_stable_sort set_mset_mset)

lemma distinct_stable_sort [simp]: "distinct (stable_sort lt xs) = distinct xs"
  by (metis mset_stable_sort mset_eq_imp_distinct_iff)

text \<open>Only the elements at hand are compared.\<close>

lemma merge_by_cong:
  "(\<And>x y. x \<in> set xs \<union> set ys \<Longrightarrow> y \<in> set xs \<union> set ys \<Longrightarrow> p x y = q x y)
   \<Longrightarrow> merge_by p xs ys = merge_by q xs ys"
  by (induction p xs ys rule: merge_by.induct) auto

lemma stable_sort_cong:
  "(\<And>x y. x \<in> set xs \<Longrightarrow> y \<in> set xs \<Longrightarrow> p x y = q x y) \<Longrightarrow> stable_sort p xs = stable_sort q xs"
proof (induction p xs rule: stable_sort.induct)
  case (1 p xs)
  show ?case
  proof (cases "length xs \<le> 1")
    case True
    then show ?thesis by (simp add: stable_sort.simps[of p xs] stable_sort.simps[of q xs])
  next
    case False
    let ?h = "length xs div 2"
    have "stable_sort p (take ?h xs) = stable_sort q (take ?h xs)"
      using False "1.prems" by (intro "1.IH"(1)) (auto dest: in_set_takeD)
    moreover have "stable_sort p (drop ?h xs) = stable_sort q (drop ?h xs)"
      using False "1.prems" by (intro "1.IH"(2)) (auto dest: in_set_dropD)
    moreover have "merge_by p (stable_sort q (take ?h xs)) (stable_sort q (drop ?h xs))
        = merge_by q (stable_sort q (take ?h xs)) (stable_sort q (drop ?h xs))"
      using "1.prems" by (intro merge_by_cong) (auto dest: in_set_takeD in_set_dropD)
    ultimately show ?thesis using False
      by (simp add: stable_sort.simps[of p xs] stable_sort.simps[of q xs] Let_def)
  qed
qed

text \<open>Sorting handles (slots) by what they refer to is sorting the referents.\<close>

lemma map_merge_by:
  "map f (merge_by (\<lambda>x y. lt (f x) (f y)) xs ys) = merge_by lt (map f xs) (map f ys)"
  by (induction "\<lambda>x y. lt (f x) (f y)" xs ys rule: merge_by.induct) auto

lemma map_stable_sort:
  "map f (stable_sort (\<lambda>x y. lt (f x) (f y)) xs) = stable_sort lt (map f xs)"
proof (induction "length xs" arbitrary: xs rule: less_induct)
  case less
  show ?case
  proof (cases "length xs \<le> 1")
    case True
    then show ?thesis by (simp add: stable_sort.simps)
  next
    case False
    let ?h = "length xs div 2"
    have "map f (stable_sort (\<lambda>x y. lt (f x) (f y)) (take ?h xs)) = stable_sort lt (map f (take ?h xs))"
      "map f (stable_sort (\<lambda>x y. lt (f x) (f y)) (drop ?h xs)) = stable_sort lt (map f (drop ?h xs))"
      using False by (auto intro!: less)
    then show ?thesis using False
      by (simp add: stable_sort.simps[of _ xs] stable_sort.simps[of lt "map f xs"] Let_def map_merge_by
          take_map drop_map)
  qed
qed

lemma is_sorted_by_cong:
  "(\<And>x y. x \<in> set xs \<Longrightarrow> y \<in> set xs \<Longrightarrow> p x y = q x y) \<Longrightarrow> is_sorted_by p xs = is_sorted_by q xs"
  by (induction p xs rule: is_sorted_by.induct) auto

lemma lower_bound_le: "lower_bound lt xs v \<le> length xs"
  unfolding lower_bound_def by (rule bisect_le)

lemma upper_bound_le: "upper_bound lt xs v \<le> length xs"
  unfolding upper_bound_def by (rule bisect_le)

lemma find_index_le: "find_index p xs \<le> length xs"
  by (induction xs) auto

lemma find_index_less_iff: "find_index p xs < length xs \<longleftrightarrow> (\<exists>x\<in>set xs. p x)"
  by (induction xs) auto

lemma find_index_nth: "find_index p xs < length xs \<Longrightarrow> p (xs ! find_index p xs)"
  by (induction xs) auto

lemma find_index_first: "j < find_index p xs \<Longrightarrow> \<not> p (xs ! j)"
proof (induction xs arbitrary: j)
  case (Cons x xs)
  then show ?case by (cases j) (auto split: if_splits)
qed simp

section \<open>Strict weak orders\<close>

locale strict_weak_order =
  fixes lt :: "'a \<Rightarrow> 'a \<Rightarrow> bool"
  assumes lt_asym: "lt x y \<Longrightarrow> \<not> lt y x"
    and lt_split: "lt x z \<Longrightarrow> lt x y \<or> lt y z"
begin

lemma lt_irrefl: "\<not> lt x x"
  using lt_asym by blast

lemma lt_trans: "lt x y \<Longrightarrow> lt y z \<Longrightarrow> lt x z"
  using lt_asym lt_split by blast

lemma not_lt_trans: "\<not> lt y x \<Longrightarrow> \<not> lt z y \<Longrightarrow> \<not> lt z x"
  using lt_split by blast

lemma sorted_merge_by:
  assumes "sorted_by lt xs" and "sorted_by lt ys"
  shows "sorted_by lt (merge_by lt xs ys)"
  using assms strict_weak_order_axioms
proof (induction lt xs ys rule: merge_by.induct)
  case (3 lt x xs y ys)
  show ?case
  proof (cases "lt y x")
    case True
    then have "\<not> lt x y" by (rule strict_weak_order.lt_asym[OF 3(5)])
    then have n: "\<not> lt z y" if "\<not> lt z x" for z
      using that by (rule strict_weak_order.not_lt_trans[OF 3(5)])
    then have "\<not> lt z y" if "z \<in> set (x # xs) \<union> set ys" for z
      using that 3(3,4) \<open>\<not> lt x y\<close> by auto
    then show ?thesis using True 3 by auto
  next
    case False
    then have n: "\<not> lt z x" if "\<not> lt z y" for z
      using that by (rule strict_weak_order.not_lt_trans[OF 3(5)])
    then have "\<not> lt z x" if "z \<in> set xs \<union> set (y # ys)" for z
      using that 3(3,4) False by auto
    then show ?thesis using False 3 by auto
  qed
qed auto

lemma sorted_stable_sort: "sorted_by lt (stable_sort lt xs)"
proof (induction "length xs" arbitrary: xs rule: less_induct)
  case less
  show ?case
  proof (cases "length xs \<le> 1")
    case True
    then show ?thesis by (cases xs) (auto simp: stable_sort.simps)
  next
    case False
    then show ?thesis
      by (simp add: stable_sort.simps[of lt xs] Let_def sorted_merge_by less)
  qed
qed

lemma is_sorted_by_iff: "is_sorted_by lt xs \<longleftrightarrow> sorted_by lt xs"
  using strict_weak_order_axioms
proof (induction lt xs rule: is_sorted_by.induct)
  case (1 lt x y ys)
  have "\<not> lt z x" if "\<not> lt y x" "\<not> lt z y" for z
    using that by (rule strict_weak_order.not_lt_trans[OF 1(2)])
  then show ?case using 1 by auto
qed auto

text \<open>
  Stability: the elements equivalent to a given one (neither smaller nor larger) keep the
  order they had.
\<close>

lemma filter_equiv_merge_by:
  assumes "sorted_by lt xs" and "sorted_by lt ys"
  shows "filter (\<lambda>z. \<not> lt a z \<and> \<not> lt z a) (merge_by lt xs ys)
       = filter (\<lambda>z. \<not> lt a z \<and> \<not> lt z a) xs @ filter (\<lambda>z. \<not> lt a z \<and> \<not> lt z a) ys"
  using assms strict_weak_order_axioms
proof (induction lt xs ys rule: merge_by.induct)
  case (3 lt x xs y ys)
  let ?P = "\<lambda>z. \<not> lt a z \<and> \<not> lt z a"
  show ?case
  proof (cases "lt y x")
    case True
    show ?thesis
    proof (cases "\<not> lt a y \<and> \<not> lt y a")
      case eq: True
      have "lt a z" if "\<not> lt z x" for z
        using that eq True strict_weak_order.lt_split[OF 3(5), of y x z]
          strict_weak_order.lt_split[OF 3(5), of y z a] by blast
      moreover have "\<not> lt x x" using strict_weak_order.lt_irrefl[OF 3(5)] by blast
      ultimately have "lt a z" if "z \<in> set (x # xs)" for z
        using that 3(3) by auto
      then have none: "filter ?P (x # xs) = []" by (auto simp: filter_empty_conv)
      have "filter ?P (merge_by lt (x # xs) (y # ys)) = y # filter ?P (merge_by lt (x # xs) ys)"
        using True eq by simp
      also have "\<dots> = y # (filter ?P (x # xs) @ filter ?P ys)"
        using 3(1)[OF True 3(3)] 3(4,5) by simp
      finally show ?thesis by (simp only: none append_Nil) (simp add: eq)
    next
      case False
      then show ?thesis using True 3 by auto
    qed
  next
    case False
    then show ?thesis using 3 by auto
  qed
qed auto

lemma stable_sort_stable:
  "filter (\<lambda>z. \<not> lt a z \<and> \<not> lt z a) (stable_sort lt xs) = filter (\<lambda>z. \<not> lt a z \<and> \<not> lt z a) xs"
proof (induction "length xs" arbitrary: xs rule: less_induct)
  case less
  show ?case
  proof (cases "length xs \<le> 1")
    case True
    then show ?thesis by (simp add: stable_sort.simps)
  next
    case False
    let ?h = "length xs div 2"
    let ?P = "\<lambda>z. \<not> lt a z \<and> \<not> lt z a"
    have "filter ?P (stable_sort lt xs) = filter ?P (take ?h xs) @ filter ?P (drop ?h xs)"
      using False by (simp add: stable_sort.simps[of lt xs] Let_def filter_equiv_merge_by
          sorted_stable_sort less)
    then show ?thesis by (metis append_take_drop_id filter_append)
  qed
qed

text \<open>In a sorted range the bounds count the smaller and the not larger elements.\<close>

lemma lower_bound_iff:
  assumes "sorted_by lt xs" and "i < length xs"
  shows "i < lower_bound lt xs v \<longleftrightarrow> lt (xs ! i) v"
  unfolding lower_bound_def
proof (rule bisect_right_iff[symmetric])
  fix i j assume "i < j" "j < length xs" "lt (xs ! j) v"
  moreover have "\<not> lt (xs ! j) (xs ! i)" using assms calculation by (auto simp: sorted_wrt_iff_nth_less)
  ultimately show "lt (xs ! i) v" using lt_split by blast
qed (use assms in simp)

lemma upper_bound_iff:
  assumes "sorted_by lt xs" and "i < length xs"
  shows "i < upper_bound lt xs v \<longleftrightarrow> \<not> lt v (xs ! i)"
  unfolding upper_bound_def
proof (rule bisect_right_iff[symmetric])
  fix i j assume "i < j" "j < length xs" "\<not> lt v (xs ! j)"
  moreover have "\<not> lt (xs ! j) (xs ! i)" using assms calculation by (auto simp: sorted_wrt_iff_nth_less)
  ultimately show "\<not> lt v (xs ! i)" using lt_split by blast
qed (use assms in simp)

end

section \<open>Ties broken by position\<close>

text \<open>
  Sorting slots by \<open>lt\<close> and then by slot number is what a stable sort of the increasing
  slot list produces; a strict total order has exactly one sorted arrangement of a set.
\<close>

definition tie_slot :: "(nat \<Rightarrow> nat \<Rightarrow> bool) \<Rightarrow> nat \<Rightarrow> nat \<Rightarrow> bool" where
  "tie_slot lt i j \<longleftrightarrow> lt i j \<or> \<not> lt j i \<and> i < j"

lemma sorted_wrt_unique:
  assumes "\<And>x y. R x y \<Longrightarrow> \<not> R y x" and "sorted_wrt R xs" and "sorted_wrt R ys" and "mset xs = mset ys"
  shows "xs = ys"
  using assms(2-)
proof (induction xs arbitrary: ys)
  case (Cons x xs)
  obtain y zs where ys: "ys = y # zs" using Cons.prems(3) by (cases ys) auto
  have "x = y"
  proof (rule ccontr)
    assume "x \<noteq> y"
    moreover have "set (x # xs) = set (y # zs)" using Cons.prems(3) ys by (metis set_mset_mset)
    ultimately have "y \<in> set xs" "x \<in> set zs" by auto
    then have "R x y" "R y x" using Cons.prems(1,2) ys by auto
    then show False using assms(1) by blast
  qed
  then show ?case using Cons ys by auto
qed simp

lemma sorted_tie_merge_by:
  assumes "strict_weak_order r" and "sorted_wrt (tie_slot r) xs" and "sorted_wrt (tie_slot r) ys"
    and "\<forall>x\<in>set xs. \<forall>y\<in>set ys. x < y"
  shows "sorted_wrt (tie_slot r) (merge_by r xs ys)"
  using assms
proof (induction r xs ys rule: merge_by.induct)
  case (3 r x xs y ys)
  show ?case
  proof (cases "r y x")
    case True
    have "tie_slot r y z" if "tie_slot r x z" for z
      using that True strict_weak_order.lt_split[OF 3(3), of y x z]
        strict_weak_order.lt_trans[OF 3(3), of y x z] unfolding tie_slot_def by blast
    moreover have "tie_slot r y x" using True by (simp add: tie_slot_def)
    ultimately have "tie_slot r y z" if "z \<in> set (x # xs) \<union> set ys" for z
      using that 3(4,5) by auto
    then show ?thesis using True 3 by auto
  next
    case False
    have "tie_slot r x z" if "tie_slot r y z" "x < z" for z
      using that False strict_weak_order.lt_split[OF 3(3), of y z x]
        strict_weak_order.lt_split[OF 3(3), of z x y] unfolding tie_slot_def by blast
    moreover have "tie_slot r x y" using False 3(6) by (simp add: tie_slot_def)
    ultimately have "tie_slot r x z" if "z \<in> set xs \<union> set (y # ys)" for z
      using that 3(4,5,6) by auto
    then show ?thesis using False 3 by auto
  qed
qed auto

lemma sorted_tie_stable_sort:
  assumes "strict_weak_order r" and "sorted_wrt (<) xs"
  shows "sorted_wrt (tie_slot r) (stable_sort r xs)"
  using assms(2)
proof (induction "length xs" arbitrary: xs rule: less_induct)
  case less
  show ?case
  proof (cases "length xs \<le> 1")
    case True
    then show ?thesis by (cases xs) (auto simp: stable_sort.simps)
  next
    case False
    let ?h = "length xs div 2"
    have "sorted_wrt (<) (take ?h xs @ drop ?h xs)" using less(2) by simp
    then have split: "sorted_wrt (<) (take ?h xs)" "sorted_wrt (<) (drop ?h xs)"
      and apart: "\<forall>x\<in>set (take ?h xs). \<forall>y\<in>set (drop ?h xs). x < y"
      unfolding sorted_wrt_append by blast+
    have len: "length (take ?h xs) < length xs" "length (drop ?h xs) < length xs"
      using False by auto
    have "sorted_wrt (tie_slot r)
        (merge_by r (stable_sort r (take ?h xs)) (stable_sort r (drop ?h xs)))"
      by (rule sorted_tie_merge_by[OF assms(1) less(1)[OF len(1) split(1)] less(1)[OF len(2) split(2)]])
        (unfold set_stable_sort, rule apart)
    then show ?thesis using False by (simp add: stable_sort.simps[of r xs] Let_def)
  qed
qed

lemma tie_slot_asym: "strict_weak_order r \<Longrightarrow> tie_slot r x y \<Longrightarrow> \<not> tie_slot r y x"
  unfolding tie_slot_def using strict_weak_order.lt_asym by fastforce

lemma tie_slot_trans:
  assumes "strict_weak_order r" and "tie_slot r x y" and "tie_slot r y z"
  shows "tie_slot r x z"
  using assms(2,3) strict_weak_order.lt_split[OF assms(1), of x z y]
    strict_weak_order.lt_split[OF assms(1), of x y z] strict_weak_order.lt_split[OF assms(1), of y z x]
    strict_weak_order.lt_split[OF assms(1), of z x y] strict_weak_order.lt_asym[OF assms(1)]
  unfolding tie_slot_def by (meson less_trans)

lemma tie_slot_total: "x \<noteq> y \<Longrightarrow> tie_slot r x y \<or> tie_slot r y x"
  unfolding tie_slot_def by auto

text \<open>The tie-broken order is itself a strict weak order, so it sorts by the same lemmas.\<close>

lemma swo_tie_slot: "strict_weak_order r \<Longrightarrow> strict_weak_order (tie_slot r)"
  by (unfold_locales) (blast dest: tie_slot_asym, metis tie_slot_trans tie_slot_total)

lemma sorted_by_tie_slot:
  "strict_weak_order r \<Longrightarrow> distinct xs \<Longrightarrow> sorted_by (tie_slot r) xs \<longleftrightarrow> sorted_wrt (tie_slot r) xs"
proof (induction xs)
  case (Cons x xs)
  have "\<not> tie_slot r y x \<longleftrightarrow> tie_slot r x y" if "y \<in> set xs" for y
    using Cons.prems that tie_slot_total tie_slot_asym by (metis distinct.simps(2))
  then show ?case using Cons by auto
qed simp

end
