(* ===== verification/Norm_Keys.thy ===== *)
theory Norm_Keys
  imports Float64 Std_Algorithms
begin

text \<open>
  \<open>keys.hpp\<close>: the order-preserving encodings into unsigned 64-bit keys, and the proofs
  that the numeric order of the keys is the order of the values.
\<close>

section \<open>The encodings\<close>

definition sign_bit :: u64 where
  "sign_bit = 0x8000000000000000"

definition canonical_nan :: u64 where
  "canonical_nan = 0xFFF8000000000000"

definition from_unsigned :: "u64 \<Rightarrow> u64" where
  "from_unsigned v = v"

text \<open>A signed value is its two's complement word; \<open>sint\<close> reads it.\<close>

definition from_signed :: "u64 \<Rightarrow> u64" where
  "from_signed v = v XOR sign_bit"

text \<open>A double is its bit pattern, the result of the \<open>memcpy\<close>.\<close>

definition from_double :: "u64 \<Rightarrow> u64" where
  "from_double v =
     (if f64_isnan v then canonical_nan
      else if v AND sign_bit \<noteq> 0 then NOT v else v OR sign_bit)"

text \<open>One turn of the packing loop: shift in a zero byte, then the byte at \<open>i\<close> if there is one.\<close>

definition pack_byte :: "byte list \<Rightarrow> nat \<Rightarrow> u64 \<Rightarrow> u64" where
  "pack_byte bytes i key =
     (let key = push_bit 8 key in if i < length bytes then key OR ucast (bytes ! i) else key)"

definition from_bytes :: "byte list \<Rightarrow> u64" where
  "from_bytes bytes = fold (pack_byte bytes) [0..<8] 0"

definition from_string :: "byte list \<Rightarrow> u64" where
  "from_string text = from_bytes text"

definition reverse_key :: "u64 \<Rightarrow> u64" where
  "reverse_key key = NOT key"

text \<open>
  \<open>normalize\<close> dispatches on the type of the value. Integers arrive cast to 64 bits
  (sign- or zero-extended), enumerators as their underlying integer, floating-point values
  as the bit pattern of the double.
\<close>

datatype value_kind = V_bool bool | V_enum value_kind | V_signed u64 | V_unsigned u64
  | V_float u64 | V_string "byte list"

fun normalize :: "value_kind \<Rightarrow> u64" where
  "normalize (V_bool b) = (if b then 1 else 0)"
| "normalize (V_enum underlying) = normalize underlying"
| "normalize (V_signed v) = from_signed v"
| "normalize (V_unsigned v) = from_unsigned v"
| "normalize (V_float v) = from_double v"
| "normalize (V_string text) = from_string text"

section \<open>Signed integers and doubles\<close>

lemma unat_sign_bit: "unat sign_bit = 2 ^ 63"
  by (simp add: sign_bit_def)

lemma bit_sign_bit: "bit sign_bit n \<longleftrightarrow> n = 63"
proof -
  have "sign_bit = 2 ^ 63" by (simp add: sign_bit_def)
  then have "bit sign_bit n = bit (2 ^ 63 :: u64) n" by (simp only:)
  also have "\<dots> = (n = 63)" unfolding bit_exp_iff by auto
  finally show ?thesis .
qed

lemma and_sign_bit: "v AND sign_bit \<noteq> 0 \<longleftrightarrow> bit v 63"
  by (subst bit_eq_iff) (auto simp: bit_and_iff bit_sign_bit)

lemma bit_63_iff: "bit v 63 \<longleftrightarrow> f64_sign v" for v :: u64
proof -
  have "unat v < 2 ^ 64" using unsigned_less[of v, where ?'a = nat] by simp
  then have "odd (unat v div 2 ^ 63) \<longleftrightarrow> 2 ^ 63 \<le> unat v"
    by (cases "2 ^ 63 \<le> unat v") (auto simp: le_div_geq)
  moreover have "bit v 63 = bit (unat v) 63" by (simp add: bit_unsigned_iff)
  ultimately show ?thesis by (simp add: bit_iff_odd f64_sign_def)
qed

text \<open>The sign bit weighs \<open>2^63\<close>; the other 63 bits are the magnitude.\<close>

lemma unat_or_sign_bit: "\<not> f64_sign v \<Longrightarrow> unat (v OR sign_bit) = 2 ^ 63 + f64_magnitude v"
proof -
  assume s: "\<not> f64_sign v"
  then have "v AND sign_bit = 0" using and_sign_bit bit_63_iff by blast
  then have "v OR sign_bit = v + sign_bit" by (simp add: disjunctive_add_eq_or)
  moreover have "unat v + unat sign_bit < 2 ^ 64"
    using s by (simp add: unat_sign_bit f64_sign_def)
  ultimately have "unat (v OR sign_bit) = unat v + 2 ^ 63"
    using unat_add_lem[of v sign_bit] by (simp add: unat_sign_bit)
  then show ?thesis using s unat_sign_magnitude[of v] by simp
qed

lemma unat_not: "unat (NOT v) = 2 ^ 64 - 1 - unat v" for v :: u64
proof -
  have "NOT v = - 1 - v" by (simp add: not_eq_complement)
  moreover have "v \<le> - 1" by simp
  ultimately have "unat (NOT v) = unat (- 1 :: u64) - unat v" by (simp only: unat_sub)
  moreover have "unat (- 1 :: u64) = 2 ^ 64 - 1"
    by (simp add: unsigned_minus_1_eq_mask mask_eq_exp_minus_1)
  ultimately show ?thesis by simp
qed

lemma from_signed_parts:
  "unat (from_signed v) = (if f64_sign v then f64_magnitude v else 2 ^ 63 + f64_magnitude v)"
proof (cases "f64_sign v")
  case True
  have "from_signed v = v AND NOT sign_bit"
    unfolding from_signed_def using True
    by (intro bit_word_eqI) (auto simp: bit_xor_iff bit_and_iff bit_not_iff bit_sign_bit bit_63_iff)
  moreover have "v = (v AND NOT sign_bit) OR sign_bit"
    using True by (intro bit_word_eqI) (auto simp: bit_or_iff bit_and_iff bit_not_iff bit_sign_bit bit_63_iff)
  moreover have "\<not> f64_sign (v AND NOT sign_bit)"
    by (simp add: bit_and_iff bit_not_iff bit_sign_bit flip: bit_63_iff)
  ultimately have "unat v = 2 ^ 63 + f64_magnitude (from_signed v)" "\<not> f64_sign (from_signed v)"
    using unat_or_sign_bit by (metis, metis)
  then show ?thesis using True unat_sign_magnitude[of v] unat_sign_magnitude[of "from_signed v"] by simp
next
  case False
  have "from_signed v = v OR sign_bit"
    unfolding from_signed_def using False
    by (intro bit_word_eqI) (auto simp: bit_xor_iff bit_or_iff bit_sign_bit bit_63_iff)
  then show ?thesis using False by (simp add: unat_or_sign_bit)
qed

lemma sint_parts: "sint v = int (f64_magnitude v) - (if f64_sign v then 2 ^ 63 else 0)" for v :: u64
proof -
  have "sint v = (if f64_sign v then uint v - 2 ^ 64 else uint v)"
    using bit_63_iff[of v] unsigned_less[of v, where ?'a = int]
    by (simp add: sint_uint signed_take_bit_eq_take_bit_minus bit_uint_iff take_bit_int_eq_self_iff)
  then show ?thesis using arg_cong[OF unat_sign_magnitude[of v], of int] by simp
qed

lemma unat_from_double:
  "\<not> f64_isnan v \<Longrightarrow> unat (from_double v) =
     (if f64_sign v then 2 ^ 63 - 1 - f64_magnitude v else 2 ^ 63 + f64_magnitude v)"
  using unat_sign_magnitude[of v]
  by (simp add: from_double_def and_sign_bit bit_63_iff unat_not unat_or_sign_bit del: not_eq_complement)

section \<open>Byte strings\<close>

text \<open>The number the packed bytes spell in base 256, missing bytes counting as zero.\<close>

fun prefix_value :: "nat \<Rightarrow> byte list \<Rightarrow> nat" where
  "prefix_value 0 bytes = 0"
| "prefix_value (Suc n) [] = 0"
| "prefix_value (Suc n) (b # bytes) = unat b * 256 ^ n + prefix_value n bytes"

lemma unat_byte: "unat (b :: byte) < 256"
  using unsigned_less[of b, where ?'a = nat] by simp

lemma prefix_value_less: "prefix_value n bytes < 256 ^ n"
proof (induction n bytes rule: prefix_value.induct)
  case (3 n b bytes)
  have "unat b * 256 ^ n + prefix_value n bytes < unat b * 256 ^ n + 256 ^ n" using 3 by simp
  also have "\<dots> = (unat b + 1) * 256 ^ n" by simp
  also have "\<dots> \<le> 256 * 256 ^ n" using unat_byte[of b] by (intro mult_right_mono) auto
  finally show ?case by simp
qed auto

lemma prefix_value_snoc:
  "prefix_value (Suc n) bytes = 256 * prefix_value n bytes + (if n < length bytes then unat (bytes ! n) else 0)"
proof (induction n bytes rule: prefix_value.induct)
  case (1 bytes)
  then show ?case by (cases bytes) auto
next
  case (3 n b bytes)
  then show ?case by (auto simp: algebra_simps)
qed auto

lemma unat_push_byte:
  fixes key :: u64 and b :: byte
  assumes "unat key < 2 ^ 56"
  shows "unat (push_bit 8 key OR ucast b) = 256 * unat key + unat b"
proof -
  have b: "unat (ucast b :: u64) = unat b"
    using unat_byte[of b] by (simp add: unsigned_ucast_eq take_bit_nat_eq_self_iff)
  have shift: "unat (push_bit 8 key) = 256 * unat key"
    using assms by (simp add: push_bit_eq_mult unat_word_ariths)
  have "push_bit 8 key AND (ucast b :: u64) = 0"
    by (intro bit_word_eqI) (auto simp: bit_and_iff bit_push_bit_iff bit_ucast_iff dest: bit_imp_le_length)
  then have "push_bit 8 key OR ucast b = push_bit 8 key + ucast b"
    by (simp add: disjunctive_add_eq_or)
  moreover have "unat (push_bit 8 key) + unat (ucast b :: u64) < 2 ^ LENGTH(64)"
    using assms unat_byte[of b] by (simp add: shift b)
  ultimately have "unat (push_bit 8 key OR ucast b) = unat (push_bit 8 key) + unat (ucast b :: u64)"
    using unat_add_lem by metis
  then show ?thesis by (simp add: shift b)
qed

lemma unat_pack_bytes:
  "n \<le> 8 \<Longrightarrow> unat (fold (pack_byte bytes) [0..<n] 0) = prefix_value n bytes"
proof (induction n)
  case (Suc n)
  let ?key = "fold (pack_byte bytes) [0..<n] 0"
  have key: "unat ?key = prefix_value n bytes" using Suc by simp
  have "prefix_value n bytes < 256 ^ n" by (rule prefix_value_less)
  also have "\<dots> \<le> 256 ^ 7" using Suc.prems by (intro power_increasing) auto
  finally have small: "unat ?key < 2 ^ 56" by (simp add: key)
  have "unat (pack_byte bytes n ?key)
      = 256 * unat ?key + (if n < length bytes then unat (bytes ! n) else 0)"
  proof (cases "n < length bytes")
    case True
    then show ?thesis by (simp add: pack_byte_def unat_push_byte[OF small])
  next
    case False
    then show ?thesis using unat_push_byte[OF small, of 0] by (simp add: pack_byte_def)
  qed
  then show ?case by (simp add: key prefix_value_snoc del: prefix_value.simps)
qed simp

lemma unat_from_bytes: "unat (from_bytes bytes) = prefix_value 8 bytes"
  by (simp only: from_bytes_def unat_pack_bytes)

text \<open>
  \<open>std::string_view::compare\<close> compares unsigned bytes, then lengths. The prefix key never
  contradicts it.
\<close>

fun string_compare :: "byte list \<Rightarrow> byte list \<Rightarrow> int" where
  "string_compare [] [] = 0"
| "string_compare [] (y # ys) = -1"
| "string_compare (x # xs) [] = 1"
| "string_compare (x # xs) (y # ys) =
     (if x < y then -1 else if y < x then 1 else string_compare xs ys)"

lemma prefix_value_mono:
  "string_compare a b \<le> 0 \<Longrightarrow> prefix_value n a \<le> prefix_value n b"
proof (induction n a arbitrary: b rule: prefix_value.induct)
  case (3 n x a)
  obtain y bs where b: "b = y # bs" using 3(2) by (cases b) auto
  show ?case
  proof (cases "x = y")
    case True
    then show ?thesis using 3 b by simp
  next
    case False
    then have "x < y" using 3(2) b by (auto split: if_splits)
    then have "unat x < unat y" by (simp add: word_less_nat_alt)
    then have "(unat x + 1) * 256 ^ n \<le> unat y * 256 ^ n" by (intro mult_right_mono) auto
    then show ?thesis using b prefix_value_less[of n a] by simp
  qed
qed auto

text \<open>The first eight bytes of a string, short strings filled with zero bytes.\<close>

definition key_prefix :: "byte list \<Rightarrow> byte list" where
  "key_prefix bytes = take 8 (bytes @ replicate 8 0)"

lemma length_key_prefix: "length (key_prefix bytes) = 8"
  by (simp add: key_prefix_def)

lemma string_compare_flip: "string_compare b a = - string_compare a b"
  by (induction a b rule: string_compare.induct) auto

lemma string_compare_eq: "string_compare a b = 0 \<longleftrightarrow> a = b"
  by (induction a b rule: string_compare.induct) auto

lemma prefix_value_less_iff:
  "length a = n \<Longrightarrow> length b = n \<Longrightarrow> prefix_value n a < prefix_value n b \<longleftrightarrow> string_compare a b < 0"
proof (induction n arbitrary: a b)
  case (Suc n)
  obtain x as y bs where ab: "a = x # as" "b = y # bs"
    using Suc.prems by (metis length_Suc_conv)
  have step: "unat u * 256 ^ n + prefix_value n us < unat v * 256 ^ n + prefix_value n vs"
    if "u < v" for u v :: byte and us vs
  proof -
    have "unat u < unat v" using that by (simp add: word_less_nat_alt)
    then have "(unat u + 1) * 256 ^ n \<le> unat v * 256 ^ n" by (intro mult_right_mono) auto
    then show ?thesis using prefix_value_less[of n us] by simp
  qed
  consider "x < y" | "y < x" | "x = y" by (rule linorder_cases)
  then show ?case
  proof cases
    case 1
    then show ?thesis using step[of x y as bs] by (simp add: ab)
  next
    case 2
    then show ?thesis using step[of y x bs as] by (auto simp: ab)
  next
    case 3
    then show ?thesis using Suc by (simp add: ab)
  qed
qed simp

lemma prefix_value_pad: "prefix_value n bytes = prefix_value n (take n (bytes @ replicate n 0))"
proof (induction n bytes rule: prefix_value.induct)
  case (2 n)
  have "prefix_value m (replicate m 0) = 0" for m by (induction m) auto
  from this[of "Suc n"] show ?case by (simp del: replicate.simps)
next
  case (3 n b bytes)
  have "take n (bytes @ replicate (Suc n) 0) = take n (bytes @ replicate n 0)"
    by (simp add: take_replicate min_def del: replicate.simps)
  then show ?case using 3 by (simp del: replicate.simps)
qed simp

lemma number_magnitude: "\<not> f64_isnan v \<Longrightarrow> f64_magnitude v \<le> 2047 * 2 ^ 52"
  by (rule f64_of_bits_cases[of v]) (auto dest: less_imp_le)

lemma magnitude_value_zero: "magnitude_value 0 = 0"
  by (simp add: magnitude_value_def)

lemma zero_bits_iff: "f64_of_bits v = Fin s 0 (-1074) \<longleftrightarrow> f64_sign v = s \<and> f64_magnitude v = 0"
  by (auto simp: f64_of_bits_def Let_def magnitude_parts)

section \<open>Properties of the keys\<close>

lemma from_signed_less: "from_signed a < from_signed b \<longleftrightarrow> sint a < sint b"
proof -
  have "f64_magnitude v < 2 ^ 63" for v by (simp add: f64_magnitude_def)
  from this[of a] this[of b] show ?thesis
    by (auto simp: word_less_nat_alt from_signed_parts sint_parts)
qed

text \<open>
  Flipping the sign bit turns the order of 64-bit signed integers into the order of
  unsigned keys: \<open>from_signed\<close> is an order embedding on every pair of values.
\<close>

theorem from_signed_order: "from_signed a < from_signed b \<longleftrightarrow> sint a < sint b"
  by (rule from_signed_less)

text \<open>
  C34: \<open>from_double\<close> orders all doubles: every NaN gets the largest key, the others follow
  IEEE \<open><\<close>, infinities and subnormal numbers included, and a negative zero comes before a
  positive one. No two distinct non-NaN patterns collide.
\<close>

theorem from_double_order:
  "from_double a < from_double b \<longleftrightarrow>
     (case (f64_isnan a, f64_isnan b) of
        (True, _) \<Rightarrow> False
      | (False, True) \<Rightarrow> True
      | (False, False) \<Rightarrow>
          f64_lt (f64_of_bits a) (f64_of_bits b)
          \<or> (f64_of_bits a = Fin True 0 (-1074) \<and> f64_of_bits b = Fin False 0 (-1074)))"
proof -
  have small: "f64_magnitude v < 2 ^ 63" for v by (simp add: f64_magnitude_def)
  consider (a) "f64_isnan a" | (b) "\<not> f64_isnan a" "f64_isnan b" | (num) "\<not> f64_isnan a" "\<not> f64_isnan b" by blast
  then show ?thesis
  proof cases
    case a
    have "unat (from_double b) \<le> unat canonical_nan"
      using unat_from_double[of b] number_magnitude[of b] small[of b]
      by (cases "f64_isnan b") (auto simp: from_double_def canonical_nan_def split: if_splits)
    then show ?thesis using a by (simp add: word_less_nat_alt from_double_def not_less)
  next
    case b
    then have "unat (from_double a) < unat canonical_nan"
      using unat_from_double[of a] number_magnitude[of a] small[of a]
      by (auto simp: canonical_nan_def split: if_splits)
    then show ?thesis using b by (simp add: word_less_nat_alt from_double_def)
  next
    case num
    have mono: "magnitude_value u < magnitude_value v \<longleftrightarrow> u < v" for u v by (rule magnitude_value_less_iff)
    have zero: "magnitude_value u = 0 \<longleftrightarrow> u = 0" for u
      using mono[of 0 u] magnitude_value_zero by (cases "u = 0") auto
    have lt: "f64_lt (f64_of_bits a) (f64_of_bits b) \<longleftrightarrow> signed_value a < signed_value b"
      using num by (rule f64_lt_signed_value)
    show ?thesis
      using num small[of a] small[of b] mono[of "f64_magnitude a" "f64_magnitude b"]
        mono[of "f64_magnitude b" "f64_magnitude a"] zero[of "f64_magnitude a"] zero[of "f64_magnitude b"]
      by (cases "f64_sign a"; cases "f64_sign b")
        (auto simp: lt word_less_nat_alt unat_from_double zero_bits_iff signed_value_def signed_nat_def)
  qed
qed

text \<open>
  The key of a byte string orders strings by their first eight bytes, shorter strings
  filled with zero bytes, compared as unsigned bytes from the left; packing loses nothing
  else.
\<close>

theorem from_bytes_order:
  "from_bytes a < from_bytes b \<longleftrightarrow> string_compare (key_prefix a) (key_prefix b) < 0"
  unfolding word_less_nat_alt unat_from_bytes
  using prefix_value_pad[of 8 a] prefix_value_pad[of 8 b]
    prefix_value_less_iff[OF length_key_prefix length_key_prefix, of a b]
  by (simp add: key_prefix_def)

text \<open>C40: \<open>reverse\<close> turns ascending keys into descending ones and is its own inverse.\<close>

theorem reverse_key_order:
  "(reverse_key a < reverse_key b \<longleftrightarrow> b < a) \<and> reverse_key (reverse_key a) = a"
proof -
  have "unat a < 2 ^ 64" "unat b < 2 ^ 64" using unsigned_less[of a, where ?'a = nat] unsigned_less[of b, where ?'a = nat] by simp_all
  then show ?thesis by (auto simp: reverse_key_def word_less_nat_alt unat_not simp del: not_eq_complement)
qed

text \<open>
  The golden keys of the specification (S8): the doubles 1.0 and -2.5, the integer -1
  and the UTF-8 bytes of a short string encode to the documented 64-bit values.
\<close>

theorem golden_keys:
  "from_double 0x3FF0000000000000 = 0xBFF0000000000000
   \<and> from_double 0xC004000000000000 = 0x3FFBFFFFFFFFFFFF
   \<and> from_signed (- 1) = 0x7FFFFFFFFFFFFFFF
   \<and> from_string [0xC3, 0xA9, 0x74, 0xC3, 0xA9] = 0xC3A974C3A9000000"
  by (simp add: from_double_def f64_isnan_def f64_exponent_def f64_fraction_def sign_bit_def from_signed_def
      from_string_def from_bytes_def pack_byte_def upt_rec)

end
