(* ===== verification/Sort_Keys.thy ===== *)
theory Sort_Keys
  imports Norm_Keys
begin

text \<open>
  \<open>sort_key.hpp\<close>: sort keys, their factories and the exact order they define. User
  callbacks (key, comparator and group functions) are total functions; an empty
  \<open>std::function\<close> is \<open>None\<close>. The locale \<open>three_way\<close> is the contract a comparator has to
  keep for its order to be well defined, \<open>lawful_key\<close> states it of a whole sort key.
\<close>

section \<open>Sort keys\<close>

record 'a sort_key =
  sk_name :: string
  sk_key :: "('a \<Rightarrow> u64) option"
  sk_compare :: "('a \<Rightarrow> 'a \<Rightarrow> int) option"
  sk_groups :: nat
  sk_group :: "('a \<Rightarrow> nat) option"

definition max_groups :: nat where
  "max_groups = 256"

text \<open>The private constructor rejects an empty name.\<close>

definition mk_sort_key ::
    "string \<Rightarrow> ('a \<Rightarrow> u64) option \<Rightarrow> ('a \<Rightarrow> 'a \<Rightarrow> int) option \<Rightarrow> exn + 'a sort_key" where
  "mk_sort_key name key compare =
     (if name = [] then Inl (Invalid_argument ''SortKey: name must not be empty'')
      else Inr \<lparr>sk_name = name, sk_key = key, sk_compare = compare, sk_groups = 1, sk_group = None\<rparr>)"

definition of_key ::
    "string \<Rightarrow> ('a \<Rightarrow> u64) option \<Rightarrow> ('a \<Rightarrow> 'a \<Rightarrow> int) option \<Rightarrow> exn + 'a sort_key" where
  "of_key name key tie_breaker =
     (if key = None then Inl (Invalid_argument ''SortKey::of_key: key function is empty'')
      else mk_sort_key name key tie_breaker)"

definition of_comparator :: "string \<Rightarrow> ('a \<Rightarrow> 'a \<Rightarrow> int) option \<Rightarrow> exn + 'a sort_key" where
  "of_comparator name compare =
     (if compare = None then Inl (Invalid_argument ''SortKey::of_comparator: comparator is empty'')
      else mk_sort_key name None compare)"

text \<open>
  \<open>SortKey::of\<close> picks one of two branches from the static type of the projection: numbers
  and enums are encoded exactly, strings get a prefix key and a full comparison.
\<close>

definition of_exact :: "string \<Rightarrow> ('a \<Rightarrow> value_kind) \<Rightarrow> exn + 'a sort_key" where
  "of_exact name projection = of_key name (Some (\<lambda>value. normalize (projection value))) None"

definition of_string :: "string \<Rightarrow> ('a \<Rightarrow> byte list) \<Rightarrow> exn + 'a sort_key" where
  "of_string name projection =
     of_key name (Some (\<lambda>value. normalize (V_string (projection value))))
       (Some (\<lambda>a b. let c = string_compare (projection a) (projection b)
                     in (if 0 < c then 1 else 0) - (if c < 0 then 1 else 0)))"

definition with_groups :: "'a sort_key \<Rightarrow> nat \<Rightarrow> ('a \<Rightarrow> nat) option \<Rightarrow> exn + 'a sort_key" where
  "with_groups k groups group_fun =
     (if groups = 0 \<or> max_groups < groups
      then Inl (Invalid_argument ''SortKey::with_groups: groups must be in [1, 256]'')
      else if group_fun = None
      then Inl (Invalid_argument ''SortKey::with_groups: group function is empty'')
      else Inr (k\<lparr>sk_groups := groups, sk_group := group_fun\<rparr>))"

section \<open>Groups, keys and comparisons\<close>

definition group_of :: "'a sort_key \<Rightarrow> 'a \<Rightarrow> exn + nat" where
  "group_of k value =
     (case sk_group k of
        None \<Rightarrow> Inr 0
      | Some f \<Rightarrow>
          let g = f value
          in if sk_groups k \<le> g
             then Inl (Out_of_range (''SortKey '' @ quoted (sk_name k) @ '': group out of range''))
             else Inr g)"

definition has_key :: "'a sort_key \<Rightarrow> bool" where
  "has_key k \<longleftrightarrow> sk_key k \<noteq> None"

text \<open>Precondition: \<open>has_key\<close>.\<close>

definition key_of :: "'a sort_key \<Rightarrow> 'a \<Rightarrow> u64" where
  "key_of k value = the (sk_key k) value"

definition tie_break :: "'a sort_key \<Rightarrow> 'a \<Rightarrow> 'a \<Rightarrow> int" where
  "tie_break k a b = (case sk_compare k of Some f \<Rightarrow> f a b | None \<Rightarrow> 0)"

text \<open>\<open>SortKey::compare\<close> after the groups turned out equal.\<close>

definition compare_in_group :: "'a sort_key \<Rightarrow> 'a \<Rightarrow> 'a \<Rightarrow> int" where
  "compare_in_group k a b =
     (if has_key k \<and> key_of k a \<noteq> key_of k b
      then (if key_of k a < key_of k b then -1 else 1)
      else tie_break k a b)"

definition compare_values :: "'a sort_key \<Rightarrow> 'a \<Rightarrow> 'a \<Rightarrow> exn + int" where
  "compare_values k a b =
     (case sk_group k of
        None \<Rightarrow> Inr (compare_in_group k a b)
      | Some _ \<Rightarrow>
          (case group_of k a of
             Inl e \<Rightarrow> Inl e
           | Inr ga \<Rightarrow>
               (case group_of k b of
                  Inl e \<Rightarrow> Inl e
                | Inr gb \<Rightarrow>
                    if ga \<noteq> gb then Inr (if ga < gb then -1 else 1)
                    else Inr (compare_in_group k a b))))"

text \<open>
  \<open>key.compare(a, b) < 0\<close>, as the sorts and searches of the library use it. The exception of
  a group out of range is kept: a key with one group is used without checking the groups of
  the elements first.
\<close>

definition compare_less :: "'a sort_key \<Rightarrow> 'a \<Rightarrow> 'a \<Rightarrow> exn + bool" where
  "compare_less k a b = map_sum id (\<lambda>c. c < 0) (compare_values k a b)"

section \<open>The contract of a comparator\<close>

locale three_way =
  fixes cmp :: "'a \<Rightarrow> 'a \<Rightarrow> int"
  assumes cmp_flip: "cmp x y < 0 \<longleftrightarrow> 0 < cmp y x"
    and cmp_trans: "cmp x y \<le> 0 \<Longrightarrow> cmp y z \<le> 0 \<Longrightarrow> cmp x z \<le> 0"
begin

lemma cmp_refl [simp]: "cmp x x = 0"
  using cmp_flip[of x x] by linarith

lemma cmp_zero_sym: "cmp x y = 0 \<longleftrightarrow> cmp y x = 0"
  using cmp_flip[of x y] cmp_flip[of y x] by linarith

lemma cmp_le_less_trans: "cmp x y \<le> 0 \<Longrightarrow> cmp y z < 0 \<Longrightarrow> cmp x z < 0"
  using cmp_flip cmp_trans by (metis linorder_not_le)

lemma cmp_less_le_trans: "cmp x y < 0 \<Longrightarrow> cmp y z \<le> 0 \<Longrightarrow> cmp x z < 0"
  using cmp_flip cmp_trans by (metis linorder_not_le)

lemma cmp_not_less: "\<not> cmp x y < 0 \<longleftrightarrow> cmp y x \<le> 0"
  using cmp_flip by (metis linorder_not_less)

lemma less_swo: "strict_weak_order (\<lambda>x y. cmp x y < 0)"
proof
  fix x y z
  show "cmp x y < 0 \<Longrightarrow> \<not> cmp y x < 0" using cmp_flip[of x y] by linarith
  show "cmp x z < 0 \<Longrightarrow> cmp x y < 0 \<or> cmp y z < 0"
    using cmp_less_le_trans[of x z y] cmp_not_less by (metis cmp_flip linorder_not_le)
qed

end

sublocale three_way \<subseteq> swo: strict_weak_order "\<lambda>x y. cmp x y < 0"
  by (rule less_swo)

text \<open>Ways to build lawful comparators.\<close>

definition key_compare :: "('a \<Rightarrow> 'b::linorder) \<Rightarrow> 'a \<Rightarrow> 'a \<Rightarrow> int" where
  "key_compare f a b = (if f a < f b then -1 else if f b < f a then 1 else 0)"

definition then_compare :: "('a \<Rightarrow> 'a \<Rightarrow> int) \<Rightarrow> ('a \<Rightarrow> 'a \<Rightarrow> int) \<Rightarrow> 'a \<Rightarrow> 'a \<Rightarrow> int" where
  "then_compare c d a b = (if c a b \<noteq> 0 then c a b else d a b)"

lemma three_way_key_compare: "three_way (key_compare f)"
  by unfold_locales (auto simp: key_compare_def split: if_splits)

lemma three_way_zero: "three_way (\<lambda>_ _. 0)"
  by unfold_locales auto

lemma three_way_then:
  assumes "three_way c" and "three_way d"
  shows "three_way (then_compare c d)"
proof unfold_locales
  fix x y z
  show "then_compare c d x y < 0 \<longleftrightarrow> 0 < then_compare c d y x"
    using three_way.cmp_flip[OF assms(1)] three_way.cmp_zero_sym[OF assms(1)] three_way.cmp_flip[OF assms(2)]
    by (auto simp: then_compare_def)
  assume le: "then_compare c d x y \<le> 0" "then_compare c d y z \<le> 0"
  then have c: "c x y \<le> 0" "c y z \<le> 0" by (auto simp: then_compare_def split: if_splits)
  show "then_compare c d x z \<le> 0"
  proof (cases "c x y = 0 \<and> c y z = 0")
    case True
    then have "d x y \<le> 0" "d y z \<le> 0" using le by (auto simp: then_compare_def)
    then have "d x z \<le> 0" by (rule three_way.cmp_trans[OF assms(2)])
    then show ?thesis using three_way.cmp_trans[OF assms(1) c] by (simp add: then_compare_def)
  next
    case False
    then have "c x z < 0"
      using c three_way.cmp_le_less_trans[OF assms(1), of x y z] three_way.cmp_less_le_trans[OF assms(1), of x y z]
      by linarith
    then show ?thesis by (simp add: then_compare_def)
  qed
qed

lemma three_way_map: "three_way c \<Longrightarrow> three_way (\<lambda>x y. c (f x) (f y))"
  by unfold_locales (auto dest: three_way.cmp_flip three_way.cmp_trans simp: three_way.cmp_flip)

interpretation string_order: three_way string_compare
proof
  fix x y z :: "byte list"
  show "string_compare x y < 0 \<longleftrightarrow> 0 < string_compare y x"
    by (induction x y rule: string_compare.induct) auto
  show "string_compare x y \<le> 0 \<Longrightarrow> string_compare y z \<le> 0 \<Longrightarrow> string_compare x z \<le> 0"
  proof (induction x y arbitrary: z rule: string_compare.induct)
    case (4 x xs y ys)
    then show ?case by (cases z) (auto split: if_splits)
  next
    case (1)
    then show ?case by simp
  next
    case (2 y ys)
    then show ?case by (cases z) auto
  qed auto
qed

section \<open>The exact order\<close>

text \<open>
  The order a sort key defines: raw group number, then key, then tie-breaker. It is what
  \<open>compare\<close> returns on elements whose groups are in range.
\<close>

definition group_number :: "'a sort_key \<Rightarrow> 'a \<Rightarrow> nat" where
  "group_number k x = (case sk_group k of None \<Rightarrow> 0 | Some f \<Rightarrow> f x)"

definition order_cmp :: "'a sort_key \<Rightarrow> 'a \<Rightarrow> 'a \<Rightarrow> int" where
  "order_cmp k = then_compare (key_compare (group_number k)) (compare_in_group k)"

definition valid_item :: "'a sort_key \<Rightarrow> 'a \<Rightarrow> bool" where
  "valid_item k x \<longleftrightarrow> (case sk_group k of None \<Rightarrow> True | Some f \<Rightarrow> f x < sk_groups k)"

definition lawful_key :: "'a sort_key \<Rightarrow> bool" where
  "lawful_key k \<longleftrightarrow> three_way (order_cmp k)"

definition wf_key :: "'a sort_key \<Rightarrow> bool" where
  "wf_key k \<longleftrightarrow> sk_name k \<noteq> [] \<and> (sk_key k \<noteq> None \<or> sk_compare k \<noteq> None)
     \<and> 1 \<le> sk_groups k \<and> sk_groups k \<le> max_groups \<and> (sk_group k = None \<longrightarrow> sk_groups k = 1)"

lemma group_of_valid: "valid_item k x \<Longrightarrow> group_of k x = Inr (group_number k x)"
  by (auto simp: valid_item_def group_of_def group_number_def Let_def split: option.splits)

lemma group_number_less: "wf_key k \<Longrightarrow> valid_item k x \<Longrightarrow> group_number k x < sk_groups k"
  by (auto simp: valid_item_def group_number_def wf_key_def split: option.splits)

lemma compare_values_valid:
  "valid_item k a \<Longrightarrow> valid_item k b \<Longrightarrow> compare_values k a b = Inr (order_cmp k a b)"
  by (auto simp: compare_values_def order_cmp_def then_compare_def key_compare_def group_of_valid
      group_number_def split: option.splits)

lemma compare_less_valid:
  "valid_item k a \<Longrightarrow> valid_item k b \<Longrightarrow> compare_less k a b = Inr (order_cmp k a b < 0)"
  by (simp add: compare_less_def compare_values_valid)

lemma order_cmp_same_group:
  "group_number k a = group_number k b \<Longrightarrow> order_cmp k a b = compare_in_group k a b"
  by (simp add: order_cmp_def then_compare_def key_compare_def)

lemma order_cmp_group_le:
  "order_cmp k a b \<le> 0 \<Longrightarrow> group_number k a \<le> group_number k b"
  by (auto simp: order_cmp_def then_compare_def key_compare_def split: if_splits)

lemma compare_in_group_eq:
  "compare_in_group k = (if has_key k then then_compare (key_compare (key_of k)) (tie_break k) else tie_break k)"
  by (auto simp: fun_eq_iff compare_in_group_def then_compare_def key_compare_def)

lemma lawful_keyI: "three_way (tie_break k) \<Longrightarrow> lawful_key k"
  by (simp add: lawful_key_def order_cmp_def compare_in_group_eq three_way_then three_way_key_compare)

lemma three_way_tie_break: "sk_compare k = None \<Longrightarrow> three_way (tie_break k)"
  using three_way_zero by (simp add: tie_break_def[abs_def])

lemma three_way_swo: "three_way c \<Longrightarrow> strict_weak_order (\<lambda>x y. c x y < 0)"
  by (rule three_way.less_swo)

lemma lawful_swo: "lawful_key k \<Longrightarrow> strict_weak_order (\<lambda>x y. order_cmp k x y < 0)"
  unfolding lawful_key_def by (rule three_way_swo)

section \<open>Properties of the factories\<close>

lemma string_compare_le_key: "string_compare a b \<le> 0 \<Longrightarrow> from_string a \<le> from_string b"
  by (simp add: from_string_def word_le_nat_alt unat_from_bytes prefix_value_mono)

lemma lawful_no_compare: "sk_compare k = None \<Longrightarrow> lawful_key k"
  by (intro lawful_keyI three_way_tie_break)

definition sign_of :: "int \<Rightarrow> int" where
  "sign_of c = (if 0 < c then 1 else 0) - (if c < 0 then 1 else 0)"

lemma sign_of_iff: "sign_of c < 0 \<longleftrightarrow> c < 0" "0 < sign_of c \<longleftrightarrow> 0 < c" "sign_of c \<le> 0 \<longleftrightarrow> c \<le> 0"
  by (auto simp: sign_of_def)

lemma three_way_string_sign: "three_way (\<lambda>a b. sign_of (string_compare (f a) (f b)))"
proof -
  have "three_way (\<lambda>a b. string_compare (f a) (f b))" by (rule three_way_map) (rule string_order.three_way_axioms)
  then show ?thesis by (simp add: three_way_def sign_of_iff)
qed

text \<open>
  C35: \<open>SortKey::of\<close> on a string projection: the prefix key and the tie-breaker together
  compare exactly like the whole strings, so the truncation to eight bytes never shows, and
  the sort key is a lawful one.
\<close>

theorem of_string_order:
  assumes "name \<noteq> []"
  shows "\<exists>k. of_string name f = Inr k \<and> wf_key k \<and> lawful_key k
    \<and> compare_values k a b = Inr (sign_of (string_compare (f a) (f b)))"
proof -
  let ?tie = "\<lambda>a b. sign_of (string_compare (f a) (f b))"
  let ?k = "\<lparr>sk_name = name, sk_key = Some (\<lambda>value. normalize (V_string (f value))),
    sk_compare = Some ?tie, sk_groups = 1, sk_group = None\<rparr>"
  have "of_string name f = Inr ?k"
    using assms by (simp add: of_string_def of_key_def mk_sort_key_def sign_of_def Let_def)
  moreover have "wf_key ?k" using assms by (simp add: wf_key_def max_groups_def)
  moreover have "tie_break ?k = ?tie" by (simp add: tie_break_def fun_eq_iff)
  then have "lawful_key ?k" using three_way_string_sign[of f] by (intro lawful_keyI) simp
  moreover have "compare_values ?k a b = Inr (sign_of (string_compare (f a) (f b)))"
    using string_compare_le_key[of "f a" "f b"] string_compare_le_key[of "f b" "f a"]
      string_compare_flip[of "f b" "f a"]
    by (auto simp: compare_values_def compare_in_group_def has_key_def key_of_def tie_break_def sign_of_def)
  ultimately show ?thesis by blast
qed

theorem of_string_order_witness:
  "\<exists>k. of_string ''name'' (\<lambda>x. x) = Inr k \<and> wf_key k \<and> lawful_key k
    \<and> compare_values k [97, 98, 99, 100, 101, 102, 103, 104, 105] [97, 98, 99, 100, 101, 102, 103, 104, 106] = Inr (-1)"
  using of_string_order[of "''name''" "\<lambda>x. x" "[97, 98, 99, 100, 101, 102, 103, 104, 105]"
      "[97, 98, 99, 100, 101, 102, 103, 104, 106]"]
  by (simp add: sign_of_def)

text \<open>
  The factories accept exactly the arguments the documentation allows: a name that is
  not empty, a key function (\<open>of_key\<close>) or comparator (\<open>of_comparator\<close>), and 1 to 256
  groups with a group function; every other call throws \<open>std::invalid_argument\<close>.
\<close>

theorem factories_reject:
  "((\<exists>k. of_key name key tie = Inr k) \<longleftrightarrow> key \<noteq> None \<and> name \<noteq> [])
   \<and> ((\<exists>k. of_comparator name cmp = Inr k) \<longleftrightarrow> cmp \<noteq> None \<and> name \<noteq> [])
   \<and> ((\<exists>k'. with_groups k groups f = Inr k') \<longleftrightarrow> 1 \<le> groups \<and> groups \<le> 256 \<and> f \<noteq> None)
   \<and> (of_key name key tie \<noteq> Inl (Out_of_range e) \<and> of_comparator name cmp \<noteq> Inl (Out_of_range e)
      \<and> with_groups k groups f \<noteq> Inl (Out_of_range e))"
  by (auto simp: of_key_def of_comparator_def mk_sort_key_def with_groups_def max_groups_def)

text \<open>
  C36: A grouped copy of a sort key orders by group number first and falls back to the old
  order inside a group; it stays lawful, and comparing an element whose group is out of
  range throws \<open>std::out_of_range\<close>.
\<close>

theorem with_groups_order:
  assumes "wf_key k" and "lawful_key k" and "sk_group k = None" and "with_groups k groups (Some f) = Inr k'"
  shows "wf_key k' \<and> lawful_key k'
    \<and> (if groups \<le> f a \<or> groups \<le> f b
       then compare_values k' a b = Inl (Out_of_range (''SortKey '' @ quoted (sk_name k) @ '': group out of range''))
       else compare_values k' a b =
              (if f a < f b then Inr (-1) else if f b < f a then Inr 1 else compare_values k a b))"
proof -
  have k': "k' = k\<lparr>sk_groups := groups, sk_group := Some f\<rparr>" and g: "groups \<noteq> 0" "groups \<le> max_groups"
    using assms(4) by (auto simp: with_groups_def split: if_splits)
  have in_group: "compare_in_group k' = compare_in_group k"
    by (simp add: k' compare_in_group_def has_key_def key_of_def tie_break_def fun_eq_iff)
  have "order_cmp k = compare_in_group k"
    using assms(3) by (simp add: order_cmp_def then_compare_def key_compare_def group_number_def fun_eq_iff)
  then have "three_way (compare_in_group k)" using assms(2) by (simp add: lawful_key_def)
  then have "lawful_key k'"
    by (simp add: lawful_key_def order_cmp_def in_group three_way_then three_way_key_compare)
  moreover have "wf_key k'" using assms(1) g by (auto simp: wf_key_def k')
  moreover have "sk_group k' = Some f" by (simp add: k')
  moreover have "group_of k' x = (if groups \<le> f x
      then Inl (Out_of_range (''SortKey '' @ quoted (sk_name k) @ '': group out of range'')) else Inr (f x))" for x
    by (simp add: k' group_of_def)
  ultimately show ?thesis using assms(3) by (simp add: compare_values_def in_group)
qed

theorem with_groups_order_witness:
  "compare_values \<lparr>sk_name = ''n'', sk_key = Some (\<lambda>x. x), sk_compare = None, sk_groups = 2,
      sk_group = Some (\<lambda>x. if x = 5 then 0 else 1)\<rparr> 5 3 = Inr (-1)"
  using with_groups_order[of "\<lparr>sk_name = ''n'', sk_key = Some (\<lambda>x::u64. x), sk_compare = None, sk_groups = 1,
      sk_group = None\<rparr>" 2 "\<lambda>x. if x = 5 then 0 else 1" "\<lparr>sk_name = ''n'', sk_key = Some (\<lambda>x. x),
      sk_compare = None, sk_groups = 2, sk_group = Some (\<lambda>x. if x = 5 then 0 else 1)\<rparr>" 5 3]
  by (simp add: wf_key_def max_groups_def lawful_no_compare with_groups_def)

text \<open>A plain sort key on 64-bit numbers, and one without a key function, for the examples.\<close>

definition number_key :: "u64 sort_key" where
  "number_key = \<lparr>sk_name = ''n'', sk_key = Some (\<lambda>x. x), sk_compare = None, sk_groups = 1, sk_group = None\<rparr>"

lemma number_key_ok [simp]:
  "wf_key number_key" "lawful_key number_key" "valid_item number_key x" "group_number number_key x = 0"
  "has_key number_key" "key_of number_key x = x" "sk_groups number_key = 1" "sk_group number_key = None"
  "sk_name number_key = ''n''"
  by (simp_all add: number_key_def wf_key_def max_groups_def lawful_no_compare valid_item_def group_number_def
      has_key_def key_of_def)

lemma order_cmp_number_key [simp]:
  "order_cmp number_key a b = (if a < b then -1 else if b < a then 1 else 0)"
  by (auto simp: order_cmp_def then_compare_def key_compare_def compare_in_group_def)
    (simp_all add: number_key_def tie_break_def)

end
