(* ===== verification/Bucket_Plans.thy ===== *)
theory Bucket_Plans
  imports Float64
begin

text \<open>
  \<open>bucket_plan.hpp\<close>: bucket plans, their factories and \<open>with_*\<close> copies, and the target
  sizes of every bucket. The main facts: a constructed plan is well formed, and for every
  well-formed plan the target sizes are positive, add up to the number of elements and
  respect the bucket limit.
\<close>

section \<open>Plans\<close>

datatype plan_kind = Geometric | First_page | Uniform | Sizes

record bucket_plan =
  plan_kind :: plan_kind
  page_size :: nat
  growth :: f64
  max_buckets :: nat
  symmetric :: bool
  sample_size :: nat
  seed :: u64
  rebalance_skew :: f64
  auto_rebalance :: bool
  plan_sizes :: "nat list"

definition max_bucket_limit :: nat where
  "max_bucket_limit = 65535"

definition max_sample_size :: nat where
  "max_sample_size = 2 ^ 20"

definition default_page_size :: nat where
  "default_page_size = 64"

text \<open>The private constructor: every member has its default.\<close>

definition mk_plan :: "plan_kind \<Rightarrow> bucket_plan" where
  "mk_plan kind =
     \<lparr>plan_kind = kind, page_size = default_page_size, growth = Fin False 2 0, max_buckets = 64,
      symmetric = True, sample_size = 2048, seed = 0x5EEDB0C4E7, rebalance_skew = Fin False 4 0,
      auto_rebalance = True, plan_sizes = []\<rparr>"

definition require_positive :: "nat \<Rightarrow> string \<Rightarrow> exn + nat" where
  "require_positive v what =
     (if v = 0 then Inl (Invalid_argument (''BucketPlan: '' @ what @ '' must be > 0'')) else Inr v)"

definition plan_first_page :: "nat \<Rightarrow> exn + bucket_plan" where
  "plan_first_page page =
     (case require_positive page ''page_size'' of
        Inl e \<Rightarrow> Inl e
      | Inr page \<Rightarrow> Inr ((mk_plan First_page)\<lparr>page_size := page\<rparr>))"

definition plan_geometric :: "nat \<Rightarrow> f64 \<Rightarrow> exn + bucket_plan" where
  "plan_geometric page g =
     (if g = NaN \<or> f64_lt g f64_one \<or> \<not> f64_isfinite g
      then Inl (Invalid_argument ''BucketPlan: growth must be a finite number >= 1'')
      else (case require_positive page ''page_size'' of
              Inl e \<Rightarrow> Inl e
            | Inr page \<Rightarrow> Inr ((mk_plan Geometric)\<lparr>page_size := page, growth := g\<rparr>)))"

definition plan_uniform :: "nat \<Rightarrow> exn + bucket_plan" where
  "plan_uniform buckets =
     (case require_positive buckets ''buckets'' of
        Inl e \<Rightarrow> Inl e
      | Inr buckets \<Rightarrow> Inr ((mk_plan Uniform)\<lparr>max_buckets := min buckets max_bucket_limit\<rparr>))"

definition plan_of_sizes :: "nat list \<Rightarrow> exn + bucket_plan" where
  "plan_of_sizes sizes =
     (if sizes = [] then Inl (Invalid_argument ''BucketPlan: sizes must not be empty'')
      else (case for_do (\<lambda>s u. (case require_positive s ''sizes[i]'' of
                                      Inl e \<Rightarrow> (Inl e, u) | Inr _ \<Rightarrow> (Inr (), u))) sizes () of
              (Inl e, _) \<Rightarrow> Inl e
            | (Inr _, _) \<Rightarrow> Inr ((mk_plan Sizes)\<lparr>page_size := hd sizes, plan_sizes := sizes\<rparr>)))"

definition with_page_size :: "bucket_plan \<Rightarrow> nat \<Rightarrow> exn + bucket_plan" where
  "with_page_size p page =
     (case require_positive page ''page_size'' of
        Inl e \<Rightarrow> Inl e | Inr page \<Rightarrow> Inr (p\<lparr>page_size := page\<rparr>))"

definition with_max_buckets :: "bucket_plan \<Rightarrow> nat \<Rightarrow> exn + bucket_plan" where
  "with_max_buckets p m =
     (case require_positive m ''max_buckets'' of
        Inl e \<Rightarrow> Inl e | Inr m \<Rightarrow> Inr (p\<lparr>max_buckets := min m max_bucket_limit\<rparr>))"

definition with_symmetric :: "bucket_plan \<Rightarrow> bool \<Rightarrow> bucket_plan" where
  "with_symmetric p s = p\<lparr>symmetric := s\<rparr>"

definition with_sample_size :: "bucket_plan \<Rightarrow> nat \<Rightarrow> exn + bucket_plan" where
  "with_sample_size p m =
     (case require_positive m ''sample_size'' of
        Inl e \<Rightarrow> Inl e | Inr m \<Rightarrow> Inr (p\<lparr>sample_size := min m max_sample_size\<rparr>))"

definition with_seed :: "bucket_plan \<Rightarrow> u64 \<Rightarrow> bucket_plan" where
  "with_seed p s = p\<lparr>seed := s\<rparr>"

definition with_rebalance_skew :: "bucket_plan \<Rightarrow> f64 \<Rightarrow> exn + bucket_plan" where
  "with_rebalance_skew p skew =
     (if \<not> f64_lt f64_one skew then Inl (Invalid_argument ''BucketPlan: rebalance skew must be > 1'')
      else Inr (p\<lparr>rebalance_skew := skew\<rparr>))"

definition with_auto_rebalance :: "bucket_plan \<Rightarrow> bool \<Rightarrow> bucket_plan" where
  "with_auto_rebalance p enabled = p\<lparr>auto_rebalance := enabled\<rparr>"

definition plan_defaults :: "exn + bucket_plan" where
  "plan_defaults = plan_geometric default_page_size (Fin False 2 0)"

section \<open>Target sizes\<close>

definition uniform_sizes :: "bucket_plan \<Rightarrow> nat \<Rightarrow> nat list" where
  "uniform_sizes p n =
     (let count = min (max_buckets p) n;
          out = replicate count (n div count)
      in fold (\<lambda>i out. out[i := out ! i + 1]) [0..<n mod count] out)"

text \<open>The loop over the caller's sizes: what it pushed and what remains.\<close>

fun explicit_loop :: "bucket_plan \<Rightarrow> nat list \<Rightarrow> nat list \<Rightarrow> nat \<Rightarrow> nat list \<times> nat" where
  "explicit_loop p [] out remaining = (out, remaining)"
| "explicit_loop p (s # sizes) out remaining =
     (if remaining = 0 \<or> length out + 1 = max_buckets p then (out, remaining)
      else let taken = min s remaining
           in explicit_loop p sizes (out @ [taken]) (remaining - taken))"

definition explicit_sizes :: "bucket_plan \<Rightarrow> nat \<Rightarrow> nat list" where
  "explicit_sizes p n =
     (case explicit_loop p (plan_sizes p) [] n of
        (out, remaining) \<Rightarrow> if 0 < remaining then out @ [remaining] else out)"

definition first_page_sizes :: "bucket_plan \<Rightarrow> nat \<Rightarrow> nat list" where
  "first_page_sizes p n =
     (let page = min (page_size p) n
      in if max_buckets p = 1 \<or> page = n then [n]
         else if symmetric p \<and> 3 \<le> max_buckets p \<and> size_t (2 * page) < n
         then [page, n - size_t (2 * page), page]
         else [page, n - page])"

text \<open>
  The loop of \<open>geometric_sizes\<close>; its state is the size (a double), the two vectors, the
  elements that remain and the bucket budget.
\<close>

function geometric_loop ::
    "bucket_plan \<Rightarrow> nat \<Rightarrow> f64 \<Rightarrow> nat list \<Rightarrow> nat list \<Rightarrow> nat \<Rightarrow> nat \<Rightarrow> nat list \<times> nat list \<times> nat" where
  "geometric_loop p n sz front rear remaining budget =
     (if 0 < remaining \<and> 1 < budget then
        let step = ceil_size_t sz;
            next = f64_min (f64_mul sz (growth p)) (f64_of_nat n);
            taken = min step remaining;
            front = front @ [taken];
            remaining = remaining - taken;
            budget = budget - 1
        in if symmetric p then
             if remaining = 0 \<or> budget \<le> 1 then (front, rear, remaining)
             else let taken = min step remaining
                  in geometric_loop p n next front (rear @ [taken]) (remaining - taken) (budget - 1)
           else geometric_loop p n next front rear remaining budget
      else (front, rear, remaining))"
  by pat_completeness auto
termination
  by (relation "measure (\<lambda>(p, n, sz, front, rear, remaining, budget). budget)") auto

declare geometric_loop.simps [simp del]

definition geometric_sizes :: "bucket_plan \<Rightarrow> nat \<Rightarrow> nat list" where
  "geometric_sizes p n =
     (case geometric_loop p n (f64_of_nat (page_size p)) [] [] n (max_buckets p) of
        (front, rear, remaining) \<Rightarrow>
          (if 0 < remaining then front @ [remaining] else front) @ rev rear)"

definition target_sizes :: "bucket_plan \<Rightarrow> nat \<Rightarrow> nat list" where
  "target_sizes p n =
     (if n = 0 then [0]
      else case plan_kind p of
             Uniform \<Rightarrow> uniform_sizes p n
           | Sizes \<Rightarrow> explicit_sizes p n
           | First_page \<Rightarrow> first_page_sizes p n
           | Geometric \<Rightarrow> geometric_sizes p n)"

section \<open>Well-formed plans\<close>

text \<open>
  What the factories and \<open>with_*\<close> functions guarantee, plus the bound \<open>2^63\<close> on the page
  size under which the conversions and additions of the code stay in range.
\<close>

definition wf_plan :: "bucket_plan \<Rightarrow> bool" where
  "wf_plan p \<longleftrightarrow>
     1 \<le> page_size p \<and> page_size p < 2 ^ 63
     \<and> at_least_one (growth p) \<and> f64_isfinite (growth p)
     \<and> 1 \<le> max_buckets p \<and> max_buckets p \<le> max_bucket_limit
     \<and> 1 \<le> sample_size p \<and> sample_size p \<le> max_sample_size
     \<and> f64_lt f64_one (rebalance_skew p)
     \<and> (plan_kind p = Sizes \<longrightarrow> plan_sizes p \<noteq> []) \<and> (\<forall>s\<in>set (plan_sizes p). 0 < s)"

text \<open>A list of target sizes for \<open>n\<close> elements and at most \<open>m\<close> buckets.\<close>

definition good_targets :: "nat \<Rightarrow> nat \<Rightarrow> nat list \<Rightarrow> bool" where
  "good_targets m n ts \<longleftrightarrow> sum_list ts = n \<and> 0 \<notin> set ts \<and> length ts \<le> m"

lemma uniform_sizes_nth:
  "m \<le> length xs \<Longrightarrow> i < length xs \<Longrightarrow>
     fold (\<lambda>i out. out[i := out ! i + 1]) [0..<m] xs ! i = (if i < m then xs ! i + 1 else xs ! i)"
  for xs :: "nat list"
proof (induction m arbitrary: i)
  case (Suc m)
  have "length (fold (\<lambda>i out. out[i := out ! i + 1]) [0..<m] xs) = length xs" for m
    by (induction m) auto
  then show ?case using Suc by (auto simp: nth_list_update less_Suc_eq)
qed simp

lemma length_fold_update:
  "length (fold (\<lambda>i out. out[i := f i out]) is xs) = length xs"
  by (induction "is" arbitrary: xs) auto

lemma fold_update_Nil [simp]: "fold (\<lambda>i out. out[i := f i out]) is [] = []"
  by (induction "is") auto

lemma uniform_sizes_eq:
  "uniform_sizes p n =
     (let count = min (max_buckets p) n
      in map (\<lambda>i. if i < n mod count then n div count + 1 else n div count) [0..<count])"
proof (cases "min (max_buckets p) n = 0")
  case False
  define c where "c = min (max_buckets p) n"
  have "n mod c < c" using False by (simp add: c_def[symmetric] mod_less_divisor)
  then have "fold (\<lambda>i out. out[i := out ! i + 1]) [0..<n mod c] (replicate c (n div c)) ! i
      = (if i < n mod c then n div c + 1 else n div c)" if "i < c" for i
    using that uniform_sizes_nth[of "n mod c" "replicate c (n div c)" i] by simp
  then show ?thesis unfolding uniform_sizes_def Let_def c_def[symmetric]
    by (intro nth_equalityI) (simp_all add: length_fold_update)
qed (auto simp: uniform_sizes_def)

lemma good_uniform_sizes:
  assumes "1 \<le> max_buckets p" and "0 < n"
  shows "good_targets (max_buckets p) n (uniform_sizes p n)"
proof -
  let ?c = "min (max_buckets p) n"
  have c: "0 < ?c" "?c \<le> n" using assms by auto
  have m: "n mod ?c < ?c" using c(1) by (rule mod_less_divisor)
  have "sum_list (uniform_sizes p n) = (\<Sum>i<?c. n div ?c + (if i < n mod ?c then 1 else 0))"
    by (simp add: uniform_sizes_eq Let_def interv_sum_list_conv_sum_set_nat atLeast0LessThan
        if_distrib cong: if_cong)
  also have "\<dots> = ?c * (n div ?c) + card {i. i < ?c \<and> i < n mod ?c}"
    by (simp add: sum.distrib sum.If_cases Int_def)
  also have "{i. i < ?c \<and> i < n mod ?c} = {..<n mod ?c}" using m by auto
  finally have "sum_list (uniform_sizes p n) = n" by simp
  moreover have "0 < n div ?c" using c by (simp add: div_greater_zero_iff)
  ultimately show ?thesis by (auto simp: good_targets_def uniform_sizes_eq Let_def)
qed

lemma good_explicit_loop:
  assumes "explicit_loop p sizes out remaining = (out', remaining')"
    and "length out + 1 \<le> max_buckets p" and "\<forall>s\<in>set sizes. 0 < s" and "0 \<notin> set out"
  shows "sum_list out' + remaining' = sum_list out + remaining \<and> 0 \<notin> set out'
    \<and> length out' + (if remaining' = 0 then 0 else 1) \<le> max_buckets p"
  using assms
proof (induction p sizes out remaining rule: explicit_loop.induct)
  case (2 p s sizes out remaining)
  show ?case
  proof (cases "remaining = 0 \<or> length out + 1 = max_buckets p")
    case False
    let ?t = "min s remaining"
    have "explicit_loop p sizes (out @ [?t]) (remaining - ?t) = (out', remaining')"
      using False 2(2) by (simp add: Let_def)
    moreover have "length (out @ [?t]) + 1 \<le> max_buckets p" using False 2(3) by simp
    moreover have "0 \<notin> set (out @ [?t])" using False 2(4,5) by auto
    ultimately have "sum_list out' + remaining' = sum_list (out @ [?t]) + (remaining - ?t) \<and> 0 \<notin> set out'
      \<and> length out' + (if remaining' = 0 then 0 else 1) \<le> max_buckets p"
      using 2(1)[OF False refl] 2(4) by simp
    then show ?thesis by simp
  qed (use 2 in auto)
qed auto

lemma good_explicit_sizes:
  assumes "1 \<le> max_buckets p" and "\<forall>s\<in>set (plan_sizes p). 0 < s"
  shows "good_targets (max_buckets p) n (explicit_sizes p n)"
proof -
  obtain out r where l: "explicit_loop p (plan_sizes p) [] n = (out, r)" by fastforce
  show ?thesis using good_explicit_loop[OF l] assms
    by (auto simp: good_targets_def explicit_sizes_def l split: if_splits)
qed

lemma good_first_page_sizes:
  assumes "1 \<le> max_buckets p" and "1 \<le> page_size p" and "page_size p < 2 ^ 63" and "0 < n"
  shows "good_targets (max_buckets p) n (first_page_sizes p n)"
proof -
  have "size_t (2 * min (page_size p) n) = 2 * min (page_size p) n" using assms(3) by simp
  then show ?thesis using assms by (auto simp: good_targets_def first_page_sizes_def Let_def)
qed

text \<open>Every turn of the geometric loop takes a positive amount and spends budget.\<close>

lemma good_geometric_loop:
  assumes "geometric_loop p n sz front rear remaining budget = (front', rear', remaining')"
    and "good_size sz" and "at_least_one (growth p)" and "1 \<le> n" "n \<le> 2 ^ 63"
    and "0 \<notin> set front \<union> set rear" and "1 \<le> budget"
  shows "sum_list front' + sum_list rear' + remaining' = sum_list front + sum_list rear + remaining
    \<and> 0 \<notin> set front' \<union> set rear'
    \<and> length front' + length rear' + (if remaining' = 0 then 0 else 1)
        \<le> length front + length rear + budget"
  using assms
proof (induction p n sz front rear remaining budget rule: geometric_loop.induct)
  case (1 p n sz front rear remaining budget)
  note prems = "1.prems"
  show ?case
  proof (cases "0 < remaining \<and> 1 < budget")
    case True
    let ?step = "ceil_size_t sz" and ?next = "f64_min (f64_mul sz (growth p)) (f64_of_nat n)"
    let ?t = "min ?step remaining"
    let ?t2 = "min ?step (remaining - ?t)"
    have step: "1 \<le> ?step" using good_size_ceil[OF prems(2)] by simp
    have one: "at_least_one sz" using prems(2) by (simp add: good_size_def)
    have next_good: "good_size ?next"
      using at_least_one_mul[OF one prems(3)] prems(4,5) by (rule good_size_min)
    have t: "0 < ?t" using True step by simp
    note unfold = geometric_loop.simps[of p n sz front rear remaining budget]
    show ?thesis
    proof (cases "symmetric p")
      case sym: True
      show ?thesis
      proof (cases "remaining - ?t = 0 \<or> budget - 1 \<le> 1")
        case stop: True
        then have "front' = front @ [?t] \<and> rear' = rear \<and> remaining' = remaining - ?t"
          using prems(1) True sym unfold by (simp add: Let_def)
        then show ?thesis using prems(6,7) t True by auto
      next
        case False
        have rec: "geometric_loop p n ?next (front @ [?t]) (rear @ [?t2]) (remaining - ?t - ?t2) (budget - 1 - 1)
            = (front', rear', remaining')"
          using prems(1) True sym False unfold by (simp add: Let_def)
        have "0 < ?t2" using False step by simp
        then have "0 \<notin> set (front @ [?t]) \<union> set (rear @ [?t2])" using prems(6) t by auto
        then have "sum_list front' + sum_list rear' + remaining'
              = sum_list (front @ [?t]) + sum_list (rear @ [?t2]) + (remaining - ?t - ?t2)
            \<and> 0 \<notin> set front' \<union> set rear'
            \<and> length front' + length rear' + (if remaining' = 0 then 0 else 1)
                \<le> length (front @ [?t]) + length (rear @ [?t2]) + (budget - 1 - 1)"
          using False by (intro "1.IH"(1)[OF True refl refl refl refl refl refl sym False refl rec next_good prems(3,4,5)]) auto
        then show ?thesis using False by auto
      qed
    next
      case nosym: False
      have rec: "geometric_loop p n ?next (front @ [?t]) rear (remaining - ?t) (budget - 1)
            = (front', rear', remaining')"
        using prems(1) True nosym unfold by (simp add: Let_def)
      have "0 \<notin> set (front @ [?t]) \<union> set rear" using prems(6) t by auto
      then have "sum_list front' + sum_list rear' + remaining'
              = sum_list (front @ [?t]) + sum_list rear + (remaining - ?t)
            \<and> 0 \<notin> set front' \<union> set rear'
            \<and> length front' + length rear' + (if remaining' = 0 then 0 else 1)
                \<le> length (front @ [?t]) + length rear + (budget - 1)"
        using True by (intro "1.IH"(2)[OF True refl refl refl refl refl refl nosym rec next_good prems(3,4,5)]) auto
      then show ?thesis using True by auto
    qed
  next
    case False
    then show ?thesis using prems unfolding geometric_loop.simps[of p n sz front rear remaining budget]
      by (auto simp del: not_gr_zero)
  qed
qed

lemma good_geometric_sizes:
  assumes "wf_plan p" and "0 < n" and "n \<le> 2 ^ 63"
  shows "good_targets (max_buckets p) n (geometric_sizes p n)"
proof -
  obtain front rear r
    where l: "geometric_loop p n (f64_of_nat (page_size p)) [] [] n (max_buckets p) = (front, rear, r)"
    by (metis prod.exhaust)
  have "good_size (f64_of_nat (page_size p))"
    using assms(1) by (intro good_size_of_nat) (auto simp: wf_plan_def)
  then show ?thesis using good_geometric_loop[OF l] assms
    by (auto simp: good_targets_def geometric_sizes_def l wf_plan_def split: if_splits)
qed

text \<open>The contract of \<open>target_sizes\<close>.\<close>

lemma good_target_sizes:
  assumes "wf_plan p" and "0 < n" and "n \<le> 2 ^ 63"
  shows "good_targets (max_buckets p) n (target_sizes p n)"
proof (cases "plan_kind p")
  case Geometric
  then show ?thesis using assms good_geometric_sizes by (simp add: target_sizes_def)
next
  case First_page
  then show ?thesis using assms good_first_page_sizes by (simp add: target_sizes_def wf_plan_def)
next
  case Uniform
  then show ?thesis using assms good_uniform_sizes by (simp add: target_sizes_def wf_plan_def)
next
  case Sizes
  then show ?thesis using assms good_explicit_sizes by (simp add: target_sizes_def wf_plan_def)
qed

lemma target_sizes_nonempty: "wf_plan p \<Longrightarrow> n \<le> 2 ^ 63 \<Longrightarrow> target_sizes p n \<noteq> []"
  using good_target_sizes[of p n] by (cases "n = 0") (auto simp: target_sizes_def good_targets_def)

lemma target_sizes_length:
  "wf_plan p \<Longrightarrow> n \<le> 2 ^ 63 \<Longrightarrow> length (target_sizes p n) \<le> max_buckets p"
  using good_target_sizes[of p n] by (cases "n = 0") (auto simp: target_sizes_def good_targets_def wf_plan_def)

section \<open>The factories establish well-formedness\<close>

lemma wf_mk_plan: "wf_plan (mk_plan Geometric)" "wf_plan (mk_plan First_page)" "wf_plan (mk_plan Uniform)"
  by (simp_all add: wf_plan_def mk_plan_def default_page_size_def max_bucket_limit_def max_sample_size_def
      f64_one_def signed_nat_def)

lemma check_sizes:
  "for_do (\<lambda>s u. case require_positive s w of Inl e \<Rightarrow> (Inl e, u) | Inr _ \<Rightarrow> (Inr (), u)) ss () = (r, u)
   \<Longrightarrow> (case r of Inl e \<Rightarrow> 0 \<in> set ss | Inr _ \<Rightarrow> 0 \<notin> set ss)"
  by (induction ss) (auto simp: require_positive_def split: if_splits sum.splits)

lemma hd_pos: "0 \<notin> set ss \<Longrightarrow> ss \<noteq> [] \<Longrightarrow> 0 < hd ss" for ss :: "nat list"
  by (cases ss) auto

text \<open>
  C39: Every factory either rejects its argument, exactly for the documented reasons (a zero
  size, an infinite, NaN or shrinking growth factor, an empty list), or builds a well-formed
  plan. Page sizes of 2^63 and more are outside the contract.
\<close>

theorem factories_well_formed:
  assumes "page < 2 ^ 63" and "sizes \<noteq> [] \<longrightarrow> hd sizes < 2 ^ 63"
  shows "(case plan_first_page page of Inr p \<Rightarrow> wf_plan p \<and> page_size p = page | Inl _ \<Rightarrow> page = 0)
    \<and> (case plan_geometric page g of
         Inr p \<Rightarrow> wf_plan p \<and> page_size p = page \<and> growth p = g
       | Inl _ \<Rightarrow> page = 0 \<or> \<not> (at_least_one g \<and> f64_isfinite g))
    \<and> (case plan_uniform buckets of
         Inr p \<Rightarrow> wf_plan p \<and> max_buckets p = min buckets 65535 | Inl _ \<Rightarrow> buckets = 0)
    \<and> (case plan_of_sizes sizes of
         Inr p \<Rightarrow> wf_plan p \<and> plan_sizes p = sizes \<and> page_size p = hd sizes
       | Inl _ \<Rightarrow> sizes = [] \<or> 0 \<in> set sizes)"
proof (intro conjI)
  show "case plan_first_page page of Inr p \<Rightarrow> wf_plan p \<and> page_size p = page | Inl _ \<Rightarrow> page = 0"
    using assms(1) wf_mk_plan(2)
    by (auto simp: plan_first_page_def require_positive_def wf_plan_def mk_plan_def)
  show "case plan_geometric page g of
         Inr p \<Rightarrow> wf_plan p \<and> page_size p = page \<and> growth p = g
       | Inl _ \<Rightarrow> page = 0 \<or> \<not> (at_least_one g \<and> f64_isfinite g)"
    using assms(1) wf_mk_plan(1) at_least_one_iff[of g]
    by (auto simp: plan_geometric_def require_positive_def wf_plan_def mk_plan_def)
  show "case plan_uniform buckets of
         Inr p \<Rightarrow> wf_plan p \<and> max_buckets p = min buckets 65535 | Inl _ \<Rightarrow> buckets = 0"
    using wf_mk_plan(3)
    by (auto simp: plan_uniform_def require_positive_def wf_plan_def mk_plan_def max_bucket_limit_def)
  show "case plan_of_sizes sizes of
         Inr p \<Rightarrow> wf_plan p \<and> plan_sizes p = sizes \<and> page_size p = hd sizes
       | Inl _ \<Rightarrow> sizes = [] \<or> 0 \<in> set sizes"
    using assms(2) wf_mk_plan(1) hd_pos[of sizes]
    by (auto simp: plan_of_sizes_def wf_plan_def mk_plan_def Suc_le_eq intro: gr0I split: sum.splits prod.splits
        dest!: check_sizes)
qed

theorem factories_well_formed_witness:
  "(case plan_of_sizes [50, 200] of Inr p \<Rightarrow> wf_plan p \<and> plan_sizes p = [50, 200] \<and> page_size p = 50
       | Inl _ \<Rightarrow> [50, 200] = ([] :: nat list) \<or> 0 \<in> set [50, 200 :: nat])"
  using factories_well_formed[of 50 "[50, 200]", THEN conjunct2, THEN conjunct2, THEN conjunct2]
  by (simp split: sum.splits)

text \<open>
  The copies made by the \<open>with_*\<close> functions stay well formed and change one setting only;
  zero sizes and a skew limit that is not above 1 (NaN included) are rejected.
\<close>

theorem with_options_well_formed:
  assumes "wf_plan p" and "v < 2 ^ 63"
  shows "(case with_page_size p v of Inr q \<Rightarrow> wf_plan q \<and> q = p\<lparr>page_size := v\<rparr> | Inl _ \<Rightarrow> v = 0)
    \<and> (case with_max_buckets p v of
         Inr q \<Rightarrow> wf_plan q \<and> q = p\<lparr>max_buckets := min v 65535\<rparr> | Inl _ \<Rightarrow> v = 0)
    \<and> (case with_sample_size p v of
         Inr q \<Rightarrow> wf_plan q \<and> q = p\<lparr>sample_size := min v (2 ^ 20)\<rparr> | Inl _ \<Rightarrow> v = 0)
    \<and> (case with_rebalance_skew p skew of
         Inr q \<Rightarrow> wf_plan q \<and> q = p\<lparr>rebalance_skew := skew\<rparr> | Inl _ \<Rightarrow> \<not> f64_lt f64_one skew)
    \<and> wf_plan (with_symmetric p b) \<and> wf_plan (with_seed p sd) \<and> wf_plan (with_auto_rebalance p b)"
  using assms
  by (auto simp: with_page_size_def with_max_buckets_def with_sample_size_def with_rebalance_skew_def
      with_symmetric_def with_seed_def with_auto_rebalance_def require_positive_def wf_plan_def
      max_bucket_limit_def max_sample_size_def)

theorem with_options_well_formed_witness:
  "case with_max_buckets (mk_plan Geometric) 70000 of
     Inr q \<Rightarrow> wf_plan q \<and> q = (mk_plan Geometric)\<lparr>max_buckets := min 70000 65535\<rparr> | Inl _ \<Rightarrow> (70000::nat) = 0"
  using with_options_well_formed[OF wf_mk_plan(1), of 70000] by simp

text \<open>
  C33: The contract of \<open>target_sizes\<close> for every plan kind: no element gives the single size
  0; otherwise every size is positive, the sizes add up to the number of elements, and there
  are at most \<open>max_buckets\<close> of them. For the geometric plan this covers the floating-point
  growth of the sizes, whose conversions never leave the range of \<open>size_t\<close>.
\<close>

theorem target_sizes_contract:
  assumes "wf_plan p" and "n \<le> 2 ^ 63"
  shows "(if n = 0 then target_sizes p n = [0]
          else sum_list (target_sizes p n) = n \<and> 0 \<notin> set (target_sizes p n))
    \<and> 1 \<le> length (target_sizes p n) \<and> length (target_sizes p n) \<le> max_buckets p"
proof (cases "n = 0")
  case True
  then show ?thesis using assms(1) by (simp add: target_sizes_def wf_plan_def)
next
  case False
  then show ?thesis
    using good_target_sizes[OF assms(1) _ assms(2)] target_sizes_nonempty[OF assms]
    by (auto simp: good_targets_def Suc_le_eq)
qed

theorem target_sizes_contract_witness:
  "sum_list (target_sizes (mk_plan Geometric) 1000) = 1000"
  using target_sizes_contract[OF wf_mk_plan(1), of 1000] by simp

text \<open>
  The sizes of the plan table: for 1000 elements the first-page, geometric, uniform and
  explicit plans give the documented sizes, the geometric one with its doubled, rounded-up
  floating-point steps from both ends.
\<close>

theorem documented_target_sizes:
  "target_sizes ((mk_plan Geometric)\<lparr>page_size := 50\<rparr>) 1000 = [50, 100, 200, 300, 200, 100, 50]
   \<and> target_sizes ((mk_plan Geometric)\<lparr>symmetric := False\<rparr>) 1000 = [64, 128, 256, 512, 40]
   \<and> target_sizes ((mk_plan First_page)\<lparr>page_size := 50\<rparr>) 1000 = [50, 900, 50]
   \<and> target_sizes ((mk_plan First_page)\<lparr>page_size := 50, symmetric := False\<rparr>) 1000 = [50, 950]
   \<and> target_sizes ((mk_plan Uniform)\<lparr>max_buckets := 4\<rparr>) 10 = [3, 3, 2, 2]
   \<and> target_sizes ((mk_plan Sizes)\<lparr>plan_sizes := [50, 200]\<rparr>) 1000 = [50, 200, 750]
   \<and> target_sizes ((mk_plan Sizes)\<lparr>plan_sizes := [10, 20, 30], max_buckets := 2\<rparr>) 100 = [10, 90]"
  by (simp add: target_sizes_def geometric_sizes_def mk_plan_def Let_def geometric_loop.simps
      f64_of_nat_def f64_round_def bit_count.simps f64_overflow_def ceil_size_t_def f64_min_def signed_nat_def
      default_page_size_def first_page_sizes_def explicit_sizes_def uniform_sizes_eq upt_rec)

text \<open>
  A uniform plan splits as evenly as possible: the sizes are \<open>n div c\<close> or one more for
  \<open>c = min max_buckets n\<close> buckets, the larger ones first.
\<close>

theorem uniform_as_even_as_possible:
  assumes "wf_plan p" and "plan_kind p = Uniform" and "0 < n"
  shows "length (target_sizes p n) = min (max_buckets p) n
    \<and> (\<forall>s\<in>set (target_sizes p n). s = n div min (max_buckets p) n \<or> s = n div min (max_buckets p) n + 1)
    \<and> sorted_wrt (\<ge>) (target_sizes p n)"
  using assms
  by (auto simp: target_sizes_def uniform_sizes_eq Let_def sorted_wrt_iff_nth_less)

theorem uniform_as_even_as_possible_witness:
  "length (target_sizes (mk_plan Uniform) 100) = 64"
  using uniform_as_even_as_possible[OF wf_mk_plan(3), of 100] by (simp add: mk_plan_def)

end
