(* ===== verification/Throwing_Algorithms.thy ===== *)
theory Throwing_Algorithms
  imports Std_Algorithms
begin

text \<open>
  The algorithms of \<open>Std_Algorithms\<close> with a comparison that may throw: an exception of the
  comparison ends the algorithm and is its result. A comparison that does not throw on the
  elements at hand makes each of them return what its plain version returns.
\<close>

section \<open>Results\<close>

definition bind_exn :: "exn + 'a \<Rightarrow> ('a \<Rightarrow> exn + 'b) \<Rightarrow> exn + 'b" where
  "bind_exn m f = (case m of Inl e \<Rightarrow> Inl e | Inr x \<Rightarrow> f x)"

lemma bind_exn_simps [simp]: "bind_exn (Inl e) f = Inl e" "bind_exn (Inr x) f = f x"
  by (simp_all add: bind_exn_def)

lemma bind_exn_Inr [simp]: "bind_exn m f = Inr y \<longleftrightarrow> (\<exists>x. m = Inr x \<and> f x = Inr y)"
  by (cases m) simp_all

lemma bind_exn_cong [fundef_cong]:
  "m = m' \<Longrightarrow> (\<And>x. m' = Inr x \<Longrightarrow> f x = g x) \<Longrightarrow> bind_exn m f = bind_exn m' g"
  by (cases m') simp_all

text \<open>A function on every element, in order, up to the first exception.\<close>

fun map_exn :: "('a \<Rightarrow> exn + 'b) \<Rightarrow> 'a list \<Rightarrow> exn + 'b list" where
  "map_exn f [] = Inr []"
| "map_exn f (x # xs) = bind_exn (f x) (\<lambda>y. bind_exn (map_exn f xs) (\<lambda>ys. Inr (y # ys)))"

lemma map_exn_ok: "(\<And>x. x \<in> set xs \<Longrightarrow> f x = Inr (g x)) \<Longrightarrow> map_exn f xs = Inr (map g xs)"
  by (induction xs) simp_all

section \<open>Searching\<close>

function bisect_exn :: "(nat \<Rightarrow> exn + bool) \<Rightarrow> nat \<Rightarrow> nat \<Rightarrow> exn + nat" where
  "bisect_exn right lo hi =
     (if lo < hi then
        let mid = lo + (hi - lo) div 2
        in bind_exn (right mid) (\<lambda>r. if r then bisect_exn right (mid + 1) hi else bisect_exn right lo mid)
      else Inr lo)"
  by pat_completeness auto
termination
  by (relation "measure (\<lambda>(right, lo, hi). hi - lo)") auto

declare bisect_exn.simps [simp del]

lemma bisect_exn_ok:
  "(\<And>i. lo \<le> i \<Longrightarrow> i < hi \<Longrightarrow> right i = Inr (p i)) \<Longrightarrow> bisect_exn right lo hi = Inr (bisect p lo hi)"
proof (induction right lo hi rule: bisect_exn.induct)
  case (1 right lo hi)
  show ?case
  proof (cases "lo < hi")
    case True
    let ?mid = "lo + (hi - lo) div 2"
    have mid: "lo \<le> ?mid" "?mid < hi" using True by auto
    have r: "right ?mid = Inr (p ?mid)" using mid by (rule "1.prems")
    show ?thesis
    proof (cases "p ?mid")
      case yes: True
      have "bisect_exn right (?mid + 1) hi = Inr (bisect p (?mid + 1) hi)"
        using mid r yes by (intro "1.IH"(1)[OF True refl, of True] "1.prems") simp_all
      then show ?thesis using True r yes by (simp add: bisect_exn.simps[of right lo hi] bisect.simps[of p lo hi] Let_def)
    next
      case no: False
      have "bisect_exn right lo ?mid = Inr (bisect p lo ?mid)"
        using mid r no by (intro "1.IH"(2)[OF True refl, of False] "1.prems") simp_all
      then show ?thesis using True r no by (simp add: bisect_exn.simps[of right lo hi] bisect.simps[of p lo hi] Let_def)
    qed
  next
    case False
    then show ?thesis by (simp add: bisect_exn.simps[of right lo hi] bisect.simps[of p lo hi])
  qed
qed

definition lower_bound_exn :: "('a \<Rightarrow> 'b \<Rightarrow> exn + bool) \<Rightarrow> 'a list \<Rightarrow> 'b \<Rightarrow> exn + nat" where
  "lower_bound_exn lt xs v = bisect_exn (\<lambda>i. lt (xs ! i) v) 0 (length xs)"

definition upper_bound_exn :: "('b \<Rightarrow> 'a \<Rightarrow> exn + bool) \<Rightarrow> 'a list \<Rightarrow> 'b \<Rightarrow> exn + nat" where
  "upper_bound_exn lt xs v = bisect_exn (\<lambda>i. map_sum id Not (lt v (xs ! i))) 0 (length xs)"

lemma lower_bound_exn_ok:
  "(\<And>x. x \<in> set xs \<Longrightarrow> lt x v = Inr (p x v)) \<Longrightarrow> lower_bound_exn lt xs v = Inr (lower_bound p xs v)"
  unfolding lower_bound_exn_def lower_bound_def by (rule bisect_exn_ok) simp

lemma upper_bound_exn_ok:
  "(\<And>x. x \<in> set xs \<Longrightarrow> lt v x = Inr (p v x)) \<Longrightarrow> upper_bound_exn lt xs v = Inr (upper_bound p xs v)"
  unfolding upper_bound_exn_def upper_bound_def by (rule bisect_exn_ok) simp

section \<open>Sorting\<close>

fun merge_exn :: "('a \<Rightarrow> 'a \<Rightarrow> exn + bool) \<Rightarrow> 'a list \<Rightarrow> 'a list \<Rightarrow> exn + 'a list" where
  "merge_exn lt [] ys = Inr ys"
| "merge_exn lt (x # xs) [] = Inr (x # xs)"
| "merge_exn lt (x # xs) (y # ys) =
     bind_exn (lt y x) (\<lambda>r.
       if r then bind_exn (merge_exn lt (x # xs) ys) (\<lambda>zs. Inr (y # zs))
       else bind_exn (merge_exn lt xs (y # ys)) (\<lambda>zs. Inr (x # zs)))"

function stable_sort_exn :: "('a \<Rightarrow> 'a \<Rightarrow> exn + bool) \<Rightarrow> 'a list \<Rightarrow> exn + 'a list" where
  "stable_sort_exn lt xs =
     (if length xs \<le> 1 then Inr xs
      else let half = length xs div 2
           in bind_exn (stable_sort_exn lt (take half xs)) (\<lambda>ys.
              bind_exn (stable_sort_exn lt (drop half xs)) (\<lambda>zs. merge_exn lt ys zs)))"
  by pat_completeness auto
termination
  by (relation "measure (\<lambda>(lt, xs). length xs)") auto

declare stable_sort_exn.simps [simp del]

fun is_sorted_exn :: "('a \<Rightarrow> 'a \<Rightarrow> exn + bool) \<Rightarrow> 'a list \<Rightarrow> exn + bool" where
  "is_sorted_exn lt (x # y # ys) = bind_exn (lt y x) (\<lambda>r. if r then Inr False else is_sorted_exn lt (y # ys))"
| "is_sorted_exn lt _ = Inr True"

lemma merge_exn_ok:
  "(\<And>x y. x \<in> set xs \<union> set ys \<Longrightarrow> y \<in> set xs \<union> set ys \<Longrightarrow> lt x y = Inr (p x y))
   \<Longrightarrow> merge_exn lt xs ys = Inr (merge_by p xs ys)"
proof (induction lt xs ys rule: merge_exn.induct)
  case (3 lt x xs y ys)
  have r: "lt y x = Inr (p y x)" by (rule "3.prems") simp_all
  show ?case
  proof (cases "p y x")
    case True
    have "merge_exn lt (x # xs) ys = Inr (merge_by p (x # xs) ys)"
      by (rule "3.IH"(1)[of True]) (use r True "3.prems" in auto)
    then show ?thesis using r True by simp
  next
    case False
    have "merge_exn lt xs (y # ys) = Inr (merge_by p xs (y # ys))"
      by (rule "3.IH"(2)[of False]) (use r False "3.prems" in auto)
    then show ?thesis using r False by simp
  qed
qed simp_all

lemma stable_sort_exn_ok:
  "(\<And>x y. x \<in> set xs \<Longrightarrow> y \<in> set xs \<Longrightarrow> lt x y = Inr (p x y)) \<Longrightarrow> stable_sort_exn lt xs = Inr (stable_sort p xs)"
proof (induction "length xs" arbitrary: xs rule: less_induct)
  case less
  show ?case
  proof (cases "length xs \<le> 1")
    case True
    then show ?thesis by (simp add: stable_sort_exn.simps[of lt xs] stable_sort.simps[of p xs])
  next
    case False
    let ?h = "length xs div 2"
    have "stable_sort_exn lt (take ?h xs) = Inr (stable_sort p (take ?h xs))"
      "stable_sort_exn lt (drop ?h xs) = Inr (stable_sort p (drop ?h xs))"
      using False by (auto intro!: less dest: in_set_takeD in_set_dropD)
    moreover have "merge_exn lt (stable_sort p (take ?h xs)) (stable_sort p (drop ?h xs))
        = Inr (merge_by p (stable_sort p (take ?h xs)) (stable_sort p (drop ?h xs)))"
      using less.prems by (intro merge_exn_ok) (auto dest: in_set_takeD in_set_dropD)
    ultimately show ?thesis using False
      by (simp add: stable_sort_exn.simps[of lt xs] stable_sort.simps[of p xs] Let_def)
  qed
qed

lemma is_sorted_exn_ok:
  "(\<And>x y. x \<in> set xs \<Longrightarrow> y \<in> set xs \<Longrightarrow> lt x y = Inr (p x y)) \<Longrightarrow> is_sorted_exn lt xs = Inr (is_sorted_by p xs)"
  by (induction lt xs rule: is_sorted_exn.induct) auto

end
