(* ===== verification/Bucket_Layouts.thy ===== *)
theory Bucket_Layouts
  imports Sort_Keys Bucket_Plans Throwing_Algorithms
begin

text \<open>
  \<open>bucket_layout.hpp\<close>: the deterministic sampler, the choice of split positions, the layout
  (the split points of one sort key), the bucket searches and the estimation of a layout
  from a sample. \<open>layout_ok\<close> is the invariant of a layout; under it the searches return the
  number of split points at or below a value, and buckets follow the exact order.
\<close>

section \<open>Sampling\<close>

text \<open>\<open>SplitMix64::next\<close>: the output and the new state.\<close>

definition splitmix_next :: "u64 \<Rightarrow> u64 \<times> u64" where
  "splitmix_next state =
     (let state = state + 0x9E3779B97F4A7C15;
          z = state;
          z = (z XOR drop_bit 30 z) * 0xBF58476D1CE4E5B9;
          z = (z XOR drop_bit 27 z) * 0x94D049BB133111EB
      in (z XOR drop_bit 31 z, state))"

definition sample_step :: "nat \<Rightarrow> nat \<Rightarrow> nat \<Rightarrow> u64 \<times> nat list \<Rightarrow> u64 \<times> nat list" where
  "sample_step n s j = (\<lambda>(rng, out).
     let lo = size_t (j * n) div s;
         hi = size_t ((j + 1) * n) div s;
         (r, rng) = splitmix_next rng
     in (rng, out[j := lo + unat r mod (hi - lo)]))"

definition sample_indices :: "nat \<Rightarrow> nat \<Rightarrow> u64 \<Rightarrow> nat list" where
  "sample_indices n ssize sd =
     (let s = min n ssize; out = replicate s 0
      in if s = n then fold (\<lambda>i out. out[i := i]) [0..<n] out
         else snd (fold (sample_step n s) [0..<s] (sd, out)))"

section \<open>Split positions\<close>

text \<open>\<open>std::size_t\<close> subtraction, wrapping below zero.\<close>

definition size_t_diff :: "nat \<Rightarrow> nat \<Rightarrow> nat" where
  "size_t_diff a b = (if b \<le> a then a - b else 2 ^ 64 - (b - a))"

definition split_step ::
    "nat \<Rightarrow> (nat \<Rightarrow> nat) \<Rightarrow> (nat \<Rightarrow> nat) \<Rightarrow> nat \<Rightarrow> nat list \<times> nat \<Rightarrow> nat list \<times> nat" where
  "split_step s run_start run_end q = (\<lambda>(out, previous).
     let lo = run_start q;
         hi = run_end q;
         best = (if previous < lo then lo else 0);
         best = (if hi < s \<and> previous < hi \<and> (best = 0 \<or> size_t_diff hi q < size_t_diff q lo)
                 then hi else best)
     in if best \<noteq> 0 then (out @ [best], best) else (out, previous))"

definition choose_split_positions ::
    "nat list \<Rightarrow> nat \<Rightarrow> (nat \<Rightarrow> nat) \<Rightarrow> (nat \<Rightarrow> nat) \<Rightarrow> nat list" where
  "choose_split_positions desired s run_start run_end =
     fst (fold (split_step s run_start run_end) desired ([], 0))"

section \<open>Layouts\<close>

text \<open>\<open>no_element\<close> is \<open>None\<close>.\<close>

record 'a layout =
  boundaries :: "u64 list"
  split_element :: "nat option list"
  splitters :: "'a list"
  splitter_positions :: "nat list"
  expected_sizes :: "nat list"
  estimated_from :: nat

definition empty_layout :: "'a layout" where
  "empty_layout =
     \<lparr>boundaries = [], split_element = [], splitters = [], splitter_positions = [],
      expected_sizes = [0], estimated_from = 0\<rparr>"

definition layout_bucket_count :: "'a layout \<Rightarrow> nat" where
  "layout_bucket_count ly = length (expected_sizes ly)"

definition bucket_of_key :: "'a layout \<Rightarrow> u64 \<Rightarrow> nat" where
  "bucket_of_key ly key =
     bisect (\<lambda>mid. \<not> (key < boundaries ly ! mid
                        \<or> key = boundaries ly ! mid \<and> split_element ly ! mid \<noteq> None))
       0 (length (boundaries ly))"

text \<open>Whether a value lies below the split point at \<open>mid\<close>: the body of the keyed search.\<close>

definition below_split :: "'a layout \<Rightarrow> 'a sort_key \<Rightarrow> 'a \<Rightarrow> u64 \<Rightarrow> nat \<Rightarrow> bool" where
  "below_split ly k value value_key mid =
     (if value_key = boundaries ly ! mid \<and> split_element ly ! mid \<noteq> None
      then tie_break k value (splitters ly ! the (split_element ly ! mid)) < 0
      else value_key < boundaries ly ! mid)"

definition layout_bucket_of_keyed :: "'a layout \<Rightarrow> 'a \<Rightarrow> u64 \<Rightarrow> 'a sort_key \<Rightarrow> nat" where
  "layout_bucket_of_keyed ly value value_key k =
     (if splitters ly = [] then upper_bound (<) (boundaries ly) value_key
      else bisect (\<lambda>mid. \<not> below_split ly k value value_key mid) 0 (length (boundaries ly)))"

definition layout_bucket_of :: "'a layout \<Rightarrow> 'a \<Rightarrow> 'a sort_key \<Rightarrow> exn + nat" where
  "layout_bucket_of ly value k =
     (if has_key k then Inr (layout_bucket_of_keyed ly value (key_of k value) k)
      else upper_bound_exn (compare_less k) (splitters ly) value)"

section \<open>Estimation\<close>

text \<open>The comparison of two sample indices: key (if any), then tie-breaker.\<close>

definition sample_less :: "'a sort_key \<Rightarrow> 'a list \<Rightarrow> u64 list \<Rightarrow> nat \<Rightarrow> nat \<Rightarrow> exn + bool" where
  "sample_less k items keys a b =
     (if has_key k \<and> keys ! a \<noteq> keys ! b then Inr (keys ! a < keys ! b)
      else if has_key k then Inr (tie_break k (items ! a) (items ! b) < 0)
      else compare_less k (items ! a) (items ! b))"

definition desired_step :: "nat \<Rightarrow> nat \<Rightarrow> nat list \<Rightarrow> nat \<Rightarrow> nat list \<times> nat \<Rightarrow> nat list \<times> nat" where
  "desired_step s n targets j = (\<lambda>(desired, cumulative).
     let cumulative = cumulative + targets ! j
     in (desired @ [size_t (cumulative * s) div n], cumulative))"

definition desired_positions :: "nat \<Rightarrow> nat \<Rightarrow> nat list \<Rightarrow> nat list" where
  "desired_positions s n targets =
     fst (fold (desired_step s n targets) [0..<length targets - 1] ([], 0))"

text \<open>A keyed split at the start of a run of equal keys needs no element.\<close>

definition needs_element :: "'a sort_key \<Rightarrow> u64 list \<Rightarrow> nat list \<Rightarrow> nat \<Rightarrow> bool" where
  "needs_element k keys srt p \<longleftrightarrow> \<not> has_key k \<or> keys ! (srt ! (p - 1)) = keys ! (srt ! p)"

definition add_split ::
    "'a sort_key \<Rightarrow> 'a list \<Rightarrow> u64 list \<Rightarrow> nat list \<Rightarrow> nat \<Rightarrow> 'a layout \<Rightarrow> 'a layout" where
  "add_split k items keys srt p ly =
     (let item = srt ! p;
          needs = needs_element k keys srt p;
          ly = (if has_key k
                then ly\<lparr>boundaries := boundaries ly @ [keys ! item],
                        split_element := split_element ly @ [if needs then Some (length (splitters ly)) else None]\<rparr>
                else ly)
      in if needs
         then ly\<lparr>splitters := splitters ly @ [items ! item],
                 splitter_positions := splitter_positions ly @ [item]\<rparr>
         else ly)"

definition expected_step :: "nat \<Rightarrow> nat \<Rightarrow> nat \<Rightarrow> nat list \<times> nat \<Rightarrow> nat list \<times> nat" where
  "expected_step s n p = (\<lambda>(expected, previous).
     (expected @ [size_t ((p - previous) * n + s div 2) div s], p))"

text \<open>
  The bounds of the runs are looked up one desired position after the other, the start
  before the end; the first exception of a comparison ends the choice.
\<close>

definition split_positions ::
    "'a sort_key \<Rightarrow> 'a list \<Rightarrow> u64 list \<Rightarrow> nat list \<Rightarrow> nat list \<Rightarrow> exn + nat list" where
  "split_positions k items keys srt desired =
     (let run_start = (\<lambda>q. lower_bound_exn (sample_less k items keys) srt (srt ! q));
          run_end = (\<lambda>q. upper_bound_exn (sample_less k items keys) srt (srt ! q))
      in bind_exn (map_exn (\<lambda>q. bind_exn (run_start q) (\<lambda>_. run_end q)) desired) (\<lambda>_.
           Inr (choose_split_positions desired (length srt) (projr \<circ> run_start) (projr \<circ> run_end))))"

definition estimate ::
    "'a sort_key \<Rightarrow> 'a list \<Rightarrow> u64 list \<Rightarrow> bucket_plan \<Rightarrow> nat list option \<Rightarrow> exn + 'a layout" where
  "estimate k items keys plan sub =
     (let n = (case sub of Some is \<Rightarrow> length is | None \<Rightarrow> length items);
          ly = empty_layout\<lparr>estimated_from := n\<rparr>;
          targets = target_sizes plan n
      in if length targets \<le> 1 then Inr (ly\<lparr>expected_sizes := [n]\<rparr>)
         else
           let sample = sample_indices n (sample_size plan) (seed plan);
               sample = (case sub of Some is \<Rightarrow> map (\<lambda>i. is ! i) sample | None \<Rightarrow> sample);
               s = length sample;
               desired = desired_positions s n targets
           in bind_exn (stable_sort_exn (sample_less k items keys) sample) (\<lambda>srt.
              bind_exn (split_positions k items keys srt desired) (\<lambda>positions.
                let ly = fold (add_split k items keys srt) positions ly
                in Inr (ly\<lparr>expected_sizes := fst (fold (expected_step s n) (positions @ [s]) ([], 0))\<rparr>))))"

section \<open>Properties of the sampler\<close>

lemma length_sample_fold: "length (snd (fold (sample_step n s) js (rng, out))) = length out"
  by (induction js arbitrary: rng out) (auto simp: sample_step_def Let_def split: prod.splits)

lemma fold_assign_index: "m \<le> length xs \<Longrightarrow> fold (\<lambda>i out. out[i := i]) [0..<m] xs = [0..<m] @ drop m xs"
proof (induction m)
  case (Suc m)
  then show ?case by (simp add: list_update_append upd_conv_take_nth_drop Cons_nth_drop_Suc[symmetric])
qed simp

lemma sample_all: "n \<le> ssize \<Longrightarrow> sample_indices n ssize sd = [0..<n]"
  by (simp add: sample_indices_def Let_def min_def fold_assign_index)

lemma length_sample_indices [simp]: "length (sample_indices n ssize sd) = min n ssize"
  by (simp add: sample_indices_def Let_def length_sample_fold length_fold_update)

text \<open>Stride \<open>j\<close> of \<open>s\<close> equal strides of \<open>n\<close> elements.\<close>

definition stride :: "nat \<Rightarrow> nat \<Rightarrow> nat \<Rightarrow> nat set" where
  "stride n s j = {j * n div s ..< (j + 1) * n div s}"

lemma sample_fold_nth:
  assumes "s < n" and "0 < s" and "s * n < 2 ^ 64" and "m \<le> s" and "length out = s"
  shows "\<forall>j<m. snd (fold (sample_step n s) [0..<m] (rng, out)) ! j \<in> stride n s j"
  using assms(4)
proof (induction m)
  case (Suc m)
  obtain rng' out' where f: "fold (sample_step n s) [0..<m] (rng, out) = (rng', out')" by fastforce
  have len: "length out' = s" using length_sample_fold[of n s "[0..<m]" rng out] f assms(5) by simp
  have IH: "\<forall>j<m. out' ! j \<in> stride n s j" using Suc f by simp
  have "Suc m * n \<le> s * n" using Suc.prems by (intro mult_le_mono1) simp
  moreover have "m * n \<le> Suc m * n" by simp
  ultimately have "m * n < 2 ^ 64" "Suc m * n < 2 ^ 64" using assms(3) by linarith+
  note wrap = this[THEN size_t_id]
  have "m * n div s + 1 = (m * n + s) div s" using assms(2) by (subst div_add_self2) auto
  also have "\<dots> \<le> Suc m * n div s" using assms(1) by (intro div_le_mono) simp
  finally have pos: "0 < Suc m * n div s - m * n div s" by linarith
  have "m * n div s + x mod (Suc m * n div s - m * n div s) \<in> stride n s m" for x
    using mod_less_divisor[OF pos, of x] by (simp add: stride_def del: mult_Suc)
  then have "snd (sample_step n s m (rng', out')) ! m \<in> stride n s m"
    and "\<forall>j<m. snd (sample_step n s m (rng', out')) ! j = out' ! j"
    using Suc.prems len by (auto simp: sample_step_def wrap Let_def split: prod.splits simp del: mult_Suc)
  then show ?case using IH f by (auto simp: less_Suc_eq)
qed simp

lemma sample_indices_stride:
  assumes "ssize < n" and "0 < ssize" and "ssize * n < 2 ^ 64" and "j < ssize"
  shows "sample_indices n ssize sd ! j \<in> stride n ssize j"
  using sample_fold_nth[OF assms(1,2,3) order_refl, of "replicate ssize 0" sd] assms
  by (simp add: sample_indices_def Let_def min_def)

lemma stride_mono: "i < j \<Longrightarrow> x \<in> stride n s i \<Longrightarrow> y \<in> stride n s j \<Longrightarrow> x < y"
proof -
  assume ij: "i < j" and xy: "x \<in> stride n s i" "y \<in> stride n s j"
  have "(i + 1) * n div s \<le> j * n div s" using ij by (intro div_le_mono mult_le_mono1) simp
  then show ?thesis using xy unfolding stride_def by (meson atLeastLessThan_iff order.strict_trans2 order_trans)
qed

lemma stride_less: "j < s \<Longrightarrow> x \<in> stride n s j \<Longrightarrow> x < n"
proof -
  assume "j < s" "x \<in> stride n s j"
  then have "x < (j + 1) * n div s" by (simp add: stride_def)
  also have "\<dots> \<le> s * n div s" using \<open>j < s\<close> by (intro div_le_mono mult_le_mono1) simp
  finally show ?thesis using \<open>j < s\<close> by simp
qed

text \<open>The sample consists of increasing, hence distinct, valid positions.\<close>

lemma sample_indices_increasing:
  assumes "0 < ssize" and "ssize * n < 2 ^ 64"
  shows "sorted_wrt (<) (sample_indices n ssize sd) \<and> (\<forall>x\<in>set (sample_indices n ssize sd). x < n)"
proof (cases "n \<le> ssize")
  case True
  then show ?thesis by (simp add: sample_all)
next
  case False
  then have nth: "sample_indices n ssize sd ! j \<in> stride n ssize j" if "j < ssize" for j
    using assms that by (intro sample_indices_stride) auto
  have len: "length (sample_indices n ssize sd) = ssize" using False by simp
  have "sample_indices n ssize sd ! i < sample_indices n ssize sd ! j" if "i < j" "j < ssize" for i j
    using stride_mono[OF that(1) nth nth] that by simp
  moreover have "sample_indices n ssize sd ! j < n" if "j < ssize" for j
    using that nth by (blast intro: stride_less)
  ultimately show ?thesis using len by (auto simp: sorted_wrt_iff_nth_less in_set_conv_nth)
qed

section \<open>Split positions are strictly increasing and inside the sample\<close>

text \<open>
  With \<open>run_start q \<le> q < run_end q \<le> s\<close>, which sorting by a lawful comparison gives,
  every recorded position is larger than the one before, smaller than \<open>s\<close>, and either the
  start or the end of the run of a desired position.
\<close>

definition split_spec :: "nat \<Rightarrow> (nat \<Rightarrow> nat) \<Rightarrow> (nat \<Rightarrow> nat) \<Rightarrow> nat list \<Rightarrow> nat list \<Rightarrow> bool" where
  "split_spec s run_start run_end desired out \<longleftrightarrow>
     sorted_wrt (<) out \<and> length out \<le> length desired
     \<and> (\<forall>p\<in>set out. 0 < p \<and> p < s \<and> (\<exists>q\<in>set desired. p = run_start q \<or> p = run_end q))"

lemma split_step_cases:
  assumes "run_start q \<le> q" and "q < s"
  obtains (skip) "split_step s run_start run_end q (out, prev) = (out, prev)"
  | (push) best where "split_step s run_start run_end q (out, prev) = (out @ [best], best)"
      "prev < best" "best < s" "best = run_start q \<or> best = run_end q"
proof -
  define best where "best =
    (if run_end q < s \<and> prev < run_end q
        \<and> ((if prev < run_start q then run_start q else 0) = 0
           \<or> size_t_diff (run_end q) q < size_t_diff q (run_start q))
     then run_end q else if prev < run_start q then run_start q else 0)"
  have step: "split_step s run_start run_end q (out, prev)
      = (if best \<noteq> 0 then (out @ [best], best) else (out, prev))"
    by (simp add: split_step_def Let_def best_def)
  show thesis
  proof (cases "best = 0")
    case True
    then show thesis using step by (intro skip) simp
  next
    case False
    then have "prev < best \<and> best < s \<and> (best = run_start q \<or> best = run_end q)"
      using assms unfolding best_def by (auto split: if_splits)
    then show thesis using step False by (intro push[of best]) simp_all
  qed
qed

lemma choose_split_positions_spec:
  assumes "\<And>q. q \<in> set desired \<Longrightarrow> run_start q \<le> q \<and> q < s"
  shows "split_spec s run_start run_end desired (choose_split_positions desired s run_start run_end)"
proof -
  have "split_spec s run_start run_end desired (fst (fold (split_step s run_start run_end) desired ([], 0)))
      \<and> snd (fold (split_step s run_start run_end) desired ([], 0)) =
          (let out = fst (fold (split_step s run_start run_end) desired ([], 0)) in if out = [] then 0 else last out)"
    using assms
  proof (induction desired rule: rev_induct)
    case (snoc q desired)
    obtain out prev where f: "fold (split_step s run_start run_end) desired ([], 0) = (out, prev)" by fastforce
    have IH: "split_spec s run_start run_end desired out" "prev = (if out = [] then 0 else last out)"
      using snoc f by (auto simp: Let_def)
    have below: "x \<le> prev" if "x \<in> set out" for x
    proof -
      have "sorted out" using IH(1) by (auto simp: split_spec_def intro: strict_sorted_imp_sorted)
      then show ?thesis using that IH(2) sorted_le_last by fastforce
    qed
    have q: "run_start q \<le> q" "q < s" using snoc.prems by auto
    have "split_spec s run_start run_end (desired @ [q]) (out @ [best])"
      if "prev < best" "best < s" "best = run_start q \<or> best = run_end q" for best
      using that IH(1) below by (fastforce simp: split_spec_def sorted_wrt_append)
    moreover have "split_spec s run_start run_end (desired @ [q]) out"
      using IH(1) by (auto simp: split_spec_def)
    moreover note IH(2)
    ultimately show ?case
      by (cases rule: split_step_cases[of run_start q s run_end out prev, OF q]) (simp_all add: f Let_def)
  qed (simp add: split_spec_def)
  then show ?thesis by (simp add: choose_split_positions_def)
qed

section \<open>The invariant of a layout\<close>

definition split_count :: "'a sort_key \<Rightarrow> 'a layout \<Rightarrow> nat" where
  "split_count k ly = (if has_key k then length (boundaries ly) else length (splitters ly))"

text \<open>The value is at or above split point \<open>i\<close>.\<close>

definition at_or_above :: "'a sort_key \<Rightarrow> 'a layout \<Rightarrow> 'a \<Rightarrow> nat \<Rightarrow> bool" where
  "at_or_above k ly x i \<longleftrightarrow>
     (if has_key k then \<not> below_split ly k x (key_of k x) i
      else \<not> order_cmp k x (splitters ly ! i) < 0)"

definition keyed_splits_ok :: "'a sort_key \<Rightarrow> 'a layout \<Rightarrow> bool" where
  "keyed_splits_ok k ly \<longleftrightarrow>
     length (split_element ly) = length (boundaries ly)
     \<and> (\<forall>i<length (boundaries ly). \<forall>e. split_element ly ! i = Some e \<longrightarrow>
           e < length (splitters ly) \<and> key_of k (splitters ly ! e) = boundaries ly ! i)
     \<and> (\<forall>i j. i < j \<longrightarrow> j < length (boundaries ly) \<longrightarrow> boundaries ly ! i \<le> boundaries ly ! j)
     \<and> (\<forall>i j. i < j \<longrightarrow> j < length (boundaries ly) \<longrightarrow> boundaries ly ! i = boundaries ly ! j \<longrightarrow>
           split_element ly ! j \<noteq> None
           \<and> (\<forall>e e'. split_element ly ! i = Some e \<longrightarrow> split_element ly ! j = Some e' \<longrightarrow>
                order_cmp k (splitters ly ! e) (splitters ly ! e') \<le> 0))"

definition layout_ok :: "'a sort_key \<Rightarrow> nat \<Rightarrow> 'a layout \<Rightarrow> bool" where
  "layout_ok k g ly \<longleftrightarrow>
     length (expected_sizes ly) = split_count k ly + 1
     \<and> (\<forall>x\<in>set (splitters ly). valid_item k x \<and> group_number k x = g)
     \<and> (if has_key k then keyed_splits_ok k ly
        else sorted_wrt (\<lambda>a b. order_cmp k a b \<le> 0) (splitters ly))"

lemma order_cmp_tie:
  "group_number k x = group_number k y \<Longrightarrow> (has_key k \<Longrightarrow> key_of k x = key_of k y)
   \<Longrightarrow> order_cmp k x y = tie_break k x y"
  by (auto simp: order_cmp_same_group compare_in_group_def)

lemma order_cmp_key_le:
  "has_key k \<Longrightarrow> group_number k x = group_number k y \<Longrightarrow> order_cmp k x y \<le> 0 \<Longrightarrow> key_of k x \<le> key_of k y"
  by (auto simp: order_cmp_same_group compare_in_group_def split: if_splits)

lemma order_cmp_key_less:
  "has_key k \<Longrightarrow> group_number k x = group_number k y \<Longrightarrow> key_of k x < key_of k y \<Longrightarrow> order_cmp k x y < 0"
  by (auto simp: order_cmp_same_group compare_in_group_def)

text \<open>The stored element of a keyed split point.\<close>

lemma keyed_split_element:
  assumes "layout_ok k g ly" and "has_key k" and "i < length (boundaries ly)" and "split_element ly ! i = Some e"
  shows "group_number k (splitters ly ! e) = g \<and> key_of k (splitters ly ! e) = boundaries ly ! i"
  using assms by (auto simp: layout_ok_def keyed_splits_ok_def)

lemma at_or_above_antitone:
  assumes ok: "layout_ok k g ly" and law: "lawful_key k"
    and x: "valid_item k x" "group_number k x = g"
    and ij: "i < j" "j < split_count k ly" and above: "at_or_above k ly x j"
  shows "at_or_above k ly x i"
proof (cases "has_key k")
  case True
  let ?b = "boundaries ly" and ?kx = "key_of k x"
  have j: "j < length ?b" and i: "i < length ?b" using ij True by (auto simp: split_count_def)
  have keyed: "keyed_splits_ok k ly" using ok True by (simp add: layout_ok_def)
  have le: "?b ! i \<le> ?b ! j" using keyed ij j by (simp add: keyed_splits_ok_def)
  have kx: "?b ! j \<le> ?kx" using above True by (auto simp: at_or_above_def below_split_def split: if_splits)
  show ?thesis
  proof (rule ccontr)
    assume "\<not> at_or_above k ly x i"
    then have below: "below_split ly k x ?kx i" using True by (simp add: at_or_above_def)
    have "\<not> ?kx < ?b ! i" using le kx by order
    then obtain e where e: "?kx = ?b ! i" "split_element ly ! i = Some e" "tie_break k x (splitters ly ! e) < 0"
      using below by (auto simp: below_split_def split: if_splits)
    have eq: "?b ! i = ?b ! j" using e(1) le kx by order
    obtain e' where e': "split_element ly ! j = Some e'"
      and le': "order_cmp k (splitters ly ! e) (splitters ly ! e') \<le> 0"
      using keyed[unfolded keyed_splits_ok_def, THEN conjunct2, THEN conjunct2, THEN conjunct2,
          rule_format, OF ij(1) j eq] e(2) by auto
    have "order_cmp k x (splitters ly ! e) < 0"
      using e keyed_split_element[OF ok True i e(2)] x(2) by (simp add: order_cmp_tie)
    then have "order_cmp k x (splitters ly ! e') < 0"
      using le' by (rule three_way.cmp_less_le_trans[OF law[unfolded lawful_key_def]])
    then have "tie_break k x (splitters ly ! e') < 0"
      using e(1) eq keyed_split_element[OF ok True j e'] x(2) by (simp add: order_cmp_tie)
    then show False using above True e(1) eq e' by (simp add: at_or_above_def below_split_def)
  qed
next
  case False
  then have ij: "i < j" "j < length (splitters ly)" using ij by (auto simp: split_count_def)
  have "order_cmp k (splitters ly ! i) (splitters ly ! j) \<le> 0"
    using ok False ij by (auto simp: layout_ok_def sorted_wrt_iff_nth_less)
  then have "order_cmp k x (splitters ly ! i) < 0 \<Longrightarrow> order_cmp k x (splitters ly ! j) < 0"
    by (rule three_way.cmp_less_le_trans[OF law[unfolded lawful_key_def], rotated])
  then show ?thesis using above False by (auto simp: at_or_above_def simp del: not_less)
qed

lemma at_or_above_mono:
  assumes ok: "layout_ok k g ly" and law: "lawful_key k"
    and x: "valid_item k x" "group_number k x = g" and y: "valid_item k y" "group_number k y = g"
    and xy: "order_cmp k x y \<le> 0" and i: "i < split_count k ly" and above: "at_or_above k ly x i"
  shows "at_or_above k ly y i"
proof (cases "has_key k")
  case True
  let ?b = "boundaries ly"
  have i: "i < length ?b" using i True by (simp add: split_count_def)
  have le: "key_of k x \<le> key_of k y" using order_cmp_key_le[OF True _ xy] x y by simp
  have kx: "?b ! i \<le> key_of k x" using above True by (auto simp: at_or_above_def below_split_def split: if_splits)
  show ?thesis
  proof (rule ccontr)
    assume "\<not> at_or_above k ly y i"
    then have below: "below_split ly k y (key_of k y) i" using True by (simp add: at_or_above_def)
    have "\<not> key_of k y < ?b ! i" using le kx by order
    then obtain e where e: "key_of k y = ?b ! i" "split_element ly ! i = Some e" "tie_break k y (splitters ly ! e) < 0"
      using below by (auto simp: below_split_def split: if_splits)
    have kxi: "key_of k x = ?b ! i" using e(1) le kx by order
    note el = keyed_split_element[OF ok True i e(2)]
    have "order_cmp k y (splitters ly ! e) < 0" using e el y(2) by (simp add: order_cmp_tie)
    then have "order_cmp k x (splitters ly ! e) < 0"
      by (rule three_way.cmp_le_less_trans[OF law[unfolded lawful_key_def] xy])
    then have "tie_break k x (splitters ly ! e) < 0" using kxi el x(2) by (simp add: order_cmp_tie)
    then show False using above True kxi e(2) by (simp add: at_or_above_def below_split_def)
  qed
next
  case False
  have "order_cmp k y (splitters ly ! i) < 0 \<Longrightarrow> order_cmp k x (splitters ly ! i) < 0"
    by (rule three_way.cmp_le_less_trans[OF law[unfolded lawful_key_def] xy])
  then show ?thesis using above False by (auto simp: at_or_above_def simp del: not_less)
qed

section \<open>Buckets count split points\<close>

text \<open>The bucket the split points give a value; the search of the code finds it.\<close>

definition split_bucket :: "'a sort_key \<Rightarrow> 'a layout \<Rightarrow> 'a \<Rightarrow> nat" where
  "split_bucket k ly x = bisect (at_or_above k ly x) 0 (split_count k ly)"

text \<open>Both code paths of the search, the one without stored elements included.\<close>

lemma layout_bucket_of_ok:
  assumes "layout_ok k g ly" and "valid_item k x"
  shows "layout_bucket_of ly x k = Inr (split_bucket k ly x)"
proof (cases "has_key k")
  case True
  show ?thesis
  proof (cases "splitters ly = []")
    case empty: True
    have "split_element ly ! i = None" if "i < length (boundaries ly)" for i
      using assms True empty that by (cases "split_element ly ! i") (auto simp: layout_ok_def keyed_splits_ok_def)
    then show ?thesis using True empty
      by (auto simp: split_bucket_def layout_bucket_of_def layout_bucket_of_keyed_def upper_bound_def split_count_def
          at_or_above_def below_split_def intro!: bisect_cong)
  next
    case False
    then show ?thesis using True
      by (auto simp: split_bucket_def layout_bucket_of_def layout_bucket_of_keyed_def split_count_def at_or_above_def
          intro!: bisect_cong)
  qed
next
  case False
  have "upper_bound_exn (compare_less k) (splitters ly) x
      = Inr (upper_bound (\<lambda>a b. order_cmp k a b < 0) (splitters ly) x)"
    using assms by (intro upper_bound_exn_ok) (auto simp: layout_ok_def compare_less_valid)
  then show ?thesis using False
    by (auto simp: split_bucket_def layout_bucket_of_def upper_bound_def split_count_def at_or_above_def
        intro!: bisect_cong)
qed

lemma split_bucket_less:
  assumes "layout_ok k g ly"
  shows "split_bucket k ly x < layout_bucket_count ly"
  using bisect_le[of "at_or_above k ly x" "split_count k ly"] assms
  by (simp add: split_bucket_def layout_bucket_count_def layout_ok_def)

lemma split_bucket_count:
  assumes "layout_ok k g ly" and "lawful_key k" and "valid_item k x" and "group_number k x = g"
  shows "split_bucket k ly x = length (filter (at_or_above k ly x) [0..<split_count k ly])"
  unfolding split_bucket_def
  by (rule bisect_count) (rule at_or_above_antitone[OF assms])

lemma split_bucket_mono:
  assumes "layout_ok k g ly" and "lawful_key k" and "valid_item k x" "group_number k x = g"
    and "valid_item k y" "group_number k y = g" and "order_cmp k x y \<le> 0"
  shows "split_bucket k ly x \<le> split_bucket k ly y"
proof -
  let ?n = "split_count k ly"
  have above: "at_or_above k ly x i \<longleftrightarrow> i < split_bucket k ly x" if "i < ?n" for i
    unfolding split_bucket_def
    by (rule bisect_right_iff) (use that at_or_above_antitone[OF assms(1,2,3,4)] in auto)
  have above': "at_or_above k ly y i \<longleftrightarrow> i < split_bucket k ly y" if "i < ?n" for i
    unfolding split_bucket_def
    by (rule bisect_right_iff) (use that at_or_above_antitone[OF assms(1,2,5,6)] in auto)
  show ?thesis
  proof (rule ccontr)
    assume less: "\<not> ?thesis"
    let ?i = "split_bucket k ly y"
    have "?i < ?n" using less bisect_le[of "at_or_above k ly x" ?n] by (simp add: split_bucket_def)
    moreover have "at_or_above k ly x ?i" using above[OF calculation] less by simp
    ultimately have "at_or_above k ly y ?i" by (intro at_or_above_mono[OF assms])
    then show False using above'[OF \<open>?i < ?n\<close>] by simp
  qed
qed

section \<open>An estimated layout satisfies the invariant\<close>

text \<open>What the caller guarantees of the slots a layout is estimated from.\<close>

definition sampled :: "'a sort_key \<Rightarrow> 'a list \<Rightarrow> u64 list \<Rightarrow> nat \<Rightarrow> nat set \<Rightarrow> bool" where
  "sampled k items keys g D \<longleftrightarrow>
     (\<forall>i\<in>D. i < length items \<and> valid_item k (items ! i) \<and> group_number k (items ! i) = g
            \<and> (has_key k \<longrightarrow> keys ! i = key_of k (items ! i)))"

abbreviation item_less :: "'a sort_key \<Rightarrow> 'a list \<Rightarrow> nat \<Rightarrow> nat \<Rightarrow> bool" where
  "item_less k items a b \<equiv> order_cmp k (items ! a) (items ! b) < 0"

lemma item_less_swo: "lawful_key k \<Longrightarrow> strict_weak_order (item_less k items)"
  unfolding lawful_key_def
  by (rule three_way_swo[OF three_way_map[where c = "order_cmp k" and f = "(!) items"]])

lemma sample_less_eq:
  assumes "sampled k items keys g D" and "a \<in> D" and "b \<in> D"
  shows "sample_less k items keys a b = Inr (item_less k items a b)"
  using assms
  by (auto simp: sampled_def sample_less_def compare_less_valid order_cmp_same_group compare_in_group_def)

lemma fold_desired_step:
  "fold (desired_step s n targets) [0..<m] ([], 0)
     = (map (\<lambda>j. size_t (sum_list (take (Suc j) targets) * s) div n) [0..<m], sum_list (take m targets))"
  if "m \<le> length targets"
  using that
  by (induction m) (auto simp: desired_step_def Let_def take_Suc_conv_app_nth)

lemma sum_list_take_less:
  "0 \<notin> set ts \<Longrightarrow> j < length ts \<Longrightarrow> sum_list (take j ts) < sum_list ts" for ts :: "nat list"
proof -
  assume "0 \<notin> set ts" "j < length ts"
  then have "0 < sum_list (drop j ts)"
    by (metis drop_eq_Nil gr0I hd_drop_conv_nth hd_in_set in_set_dropD not_le sum_list_eq_0_iff)
  moreover have "sum_list ts = sum_list (take j ts) + sum_list (drop j ts)"
    by (metis append_take_drop_id sum_list_append)
  ultimately show ?thesis by linarith
qed

lemma desired_positions_less:
  assumes "good_targets m n targets" and "s * n < 2 ^ 64" and "0 < s" and "q \<in> set (desired_positions s n targets)"
  shows "q < s"
proof -
  obtain j where j: "j < length targets - 1" and q: "q = size_t (sum_list (take (Suc j) targets) * s) div n"
    using assms(4) by (auto simp: desired_positions_def fold_desired_step)
  have c: "sum_list (take (Suc j) targets) < n"
    using assms(1) j sum_list_take_less[of targets "Suc j"] by (auto simp: good_targets_def)
  have "sum_list (take (Suc j) targets) * s \<le> s * n" using c by (simp add: mult.commute)
  then have "q = sum_list (take (Suc j) targets) * s div n" using assms(2) by (simp only: q size_t_id)
  moreover have "sum_list (take (Suc j) targets) * s < s * n" using c assms(3) by (simp add: mult.commute)
  ultimately show ?thesis using c by (simp add: div_less_iff_less_mult)
qed

lemma length_desired_positions: "length (desired_positions s n targets) = length targets - 1"
  by (simp add: desired_positions_def fold_desired_step)

text \<open>
  Split positions of a sorted sample separate strictly smaller from not smaller elements.
\<close>

definition separated :: "(nat \<Rightarrow> nat \<Rightarrow> bool) \<Rightarrow> nat list \<Rightarrow> nat list \<Rightarrow> bool" where
  "separated lt srt ps \<longleftrightarrow>
     sorted_wrt (<) ps \<and> (\<forall>p\<in>set ps. 0 < p \<and> p < length srt \<and> lt (srt ! (p - 1)) (srt ! p))"

lemma separated_less:
  assumes "strict_weak_order lt" and "sorted_by lt srt" and "separated lt srt ps"
    and "p \<in> set ps" and "i < p" and "p \<le> j" and "j < length srt"
  shows "lt (srt ! i) (srt ! j)"
proof -
  have p: "0 < p" "p < length srt" "lt (srt ! (p - 1)) (srt ! p)"
    using assms(3,4) by (auto simp: separated_def)
  have not_less: "\<not> lt (srt ! b) (srt ! a)" if "a \<le> b" "b < length srt" for a b
    using assms(2) that strict_weak_order.lt_irrefl[OF assms(1)]
    by (cases "a = b") (auto simp: sorted_wrt_iff_nth_less)
  have "lt (srt ! (p - 1)) (srt ! j)"
    using p(3) not_less[OF assms(6,7)] strict_weak_order.lt_split[OF assms(1)] by blast
  moreover have "\<not> lt (srt ! (p - 1)) (srt ! i)" using assms(5) p by (intro not_less) auto
  ultimately show ?thesis using strict_weak_order.lt_split[OF assms(1)] by blast
qed

lemma split_positions_separated:
  assumes samp: "sampled k items keys g (set srt)" and law: "lawful_key k"
    and srt: "sorted_by (item_less k items) srt"
    and des: "\<And>q. q \<in> set desired \<Longrightarrow> q < length srt"
  shows "\<exists>ps. split_positions k items keys srt desired = Inr ps
    \<and> separated (item_less k items) srt ps \<and> length ps \<le> length desired"
proof -
  let ?lt = "item_less k items" and ?s = "length srt"
  let ?starts = "\<lambda>q. lower_bound_exn (sample_less k items keys) srt (srt ! q)"
  let ?stops = "\<lambda>q. upper_bound_exn (sample_less k items keys) srt (srt ! q)"
  let ?start = "projr \<circ> ?starts" and ?stop = "projr \<circ> ?stops"
  define ps where "ps = choose_split_positions desired ?s ?start ?stop"
  note swo = item_less_swo[OF law, of items]
  have starts: "?starts q = Inr (lower_bound ?lt srt (srt ! q))" if "q < ?s" for q
    using that by (intro lower_bound_exn_ok sample_less_eq[OF samp]) auto
  have stops: "?stops q = Inr (upper_bound ?lt srt (srt ! q))" if "q < ?s" for q
    using that by (intro upper_bound_exn_ok sample_less_eq[OF samp]) auto
  have "map_exn (\<lambda>q. bind_exn (?starts q) (\<lambda>_. ?stops q)) desired
      = Inr (map (\<lambda>q. upper_bound ?lt srt (srt ! q)) desired)"
    using des by (intro map_exn_ok) (simp add: starts stops)
  then have chosen: "split_positions k items keys srt desired = Inr ps"
    by (simp add: split_positions_def Let_def ps_def)
  have start: "?start q = lower_bound ?lt srt (srt ! q)" if "q < ?s" for q
    using starts[OF that] by simp
  have stop: "?stop q = upper_bound ?lt srt (srt ! q)" if "q < ?s" for q
    using stops[OF that] by simp
  have at_start: "i < ?start q \<longleftrightarrow> ?lt (srt ! i) (srt ! q)" if "q < ?s" "i < ?s" for i q
    using strict_weak_order.lower_bound_iff[OF swo srt that(2)] start[OF that(1)] by simp
  have at_stop: "i < ?stop q \<longleftrightarrow> \<not> ?lt (srt ! q) (srt ! i)" if "q < ?s" "i < ?s" for i q
    using strict_weak_order.upper_bound_iff[OF swo srt that(2)] stop[OF that(1)] by simp
  have "?start q \<le> q" if "q < ?s" for q
    using at_start[OF that that] strict_weak_order.lt_irrefl[OF swo] by (meson not_le)
  then have spec: "split_spec ?s ?start ?stop desired ps"
    unfolding ps_def using des by (intro choose_split_positions_spec) blast
  have "?lt (srt ! (p - 1)) (srt ! p)" if p: "p \<in> set ps" for p
  proof -
    obtain q where q: "q \<in> set desired" "0 < p" "p < ?s" "p = ?start q \<or> p = ?stop q"
      using spec p by (auto simp: split_spec_def)
    have qs: "q < ?s" using q(1) by (rule des)
    have prev: "p - 1 < ?s" "p - 1 < p" using q by auto
    show ?thesis
    proof (cases "p = ?start q")
      case True
      then have "?lt (srt ! (p - 1)) (srt ! q)" "\<not> ?lt (srt ! p) (srt ! q)"
        using at_start[OF qs prev(1)] at_start[OF qs q(3)] prev(2) by (auto simp del: not_less)
      then show ?thesis using strict_weak_order.lt_split[OF swo] by blast
    next
      case False
      then have "p = ?stop q" using q(4) by blast
      then have "\<not> ?lt (srt ! q) (srt ! (p - 1))" "?lt (srt ! q) (srt ! p)"
        using at_stop[OF qs prev(1)] at_stop[OF qs q(3)] prev(2) by (auto simp del: not_less)
      then show ?thesis using strict_weak_order.lt_split[OF swo] by blast
    qed
  qed
  then show ?thesis using spec chosen by (simp add: split_spec_def separated_def)
qed

text \<open>What the loop over the split positions builds.\<close>

definition splits_built ::
    "'a sort_key \<Rightarrow> 'a list \<Rightarrow> u64 list \<Rightarrow> nat list \<Rightarrow> nat list \<Rightarrow> 'a layout \<Rightarrow> bool" where
  "splits_built k items keys srt ps ly \<longleftrightarrow>
     boundaries ly = (if has_key k then map (\<lambda>p. keys ! (srt ! p)) ps else [])
     \<and> split_element ly = (if has_key k
          then map (\<lambda>i. if needs_element k keys srt (ps ! i)
                        then Some (length (filter (needs_element k keys srt) (take i ps))) else None)
                 [0..<length ps]
          else [])
     \<and> splitters ly = map (\<lambda>p. items ! (srt ! p)) (filter (needs_element k keys srt) ps)
     \<and> splitter_positions ly = map (\<lambda>p. srt ! p) (filter (needs_element k keys srt) ps)"

lemma splits_built_fold:
  assumes "boundaries ly = []" "split_element ly = []" "splitters ly = []" "splitter_positions ly = []"
  shows "splits_built k items keys srt ps (fold (add_split k items keys srt) ps ly)"
proof (induction ps rule: rev_induct)
  case Nil
  then show ?case using assms by (simp add: splits_built_def)
next
  case (snoc p ps)
  have "map (\<lambda>i. if needs_element k keys srt ((ps @ [p]) ! i)
                 then Some (length (filter (needs_element k keys srt) (take i (ps @ [p])))) else None) [0..<length ps]
      = map (\<lambda>i. if needs_element k keys srt (ps ! i)
                 then Some (length (filter (needs_element k keys srt) (take i ps))) else None) [0..<length ps]"
    by (intro map_cong) (auto simp: nth_append)
  then show ?case using snoc
    by (cases "has_key k") (auto simp: splits_built_def add_split_def Let_def needs_element_def)
qed

lemma expected_fold: "length (fst (fold (expected_step s n) ps (e, prev))) = length e + length ps"
  by (induction ps arbitrary: e prev) (auto simp: expected_step_def)

lemma layout_ok_built:
  assumes samp: "sampled k items keys g (set srt)" and law: "lawful_key k"
    and srt: "sorted_by (item_less k items) srt" and sep: "separated (item_less k items) srt ps"
    and built: "splits_built k items keys srt ps ly" and len: "length (expected_sizes ly) = length ps + 1"
  shows "layout_ok k g ly"
proof -
  let ?need = "needs_element k keys srt" and ?e = "\<lambda>p. items ! (srt ! p)"
  note swo = item_less_swo[OF law, of items]
  have p: "p < length srt" "0 < p" "srt ! p \<in> set srt" if "p \<in> set ps" for p
    using sep that by (auto simp: separated_def)
  have valid: "valid_item k (?e p)" "group_number k (?e p) = g" "has_key k \<Longrightarrow> keys ! (srt ! p) = key_of k (?e p)"
    if "p < length srt" for p
    using samp that by (auto simp: sampled_def)
  have less: "order_cmp k (?e (ps ! i)) (?e (ps ! j)) < 0" if "i < j" "j < length ps" for i j
  proof -
    have "ps ! i < ps ! j" using sep that by (auto simp: separated_def sorted_wrt_iff_nth_less)
    then show ?thesis using separated_less[OF swo srt sep, of "ps ! j" "ps ! i" "ps ! j"] p that by simp
  qed
  have splitters: "valid_item k x \<and> group_number k x = g" if "x \<in> set (splitters ly)" for x
    using that built p valid by (auto simp: splits_built_def)
  show ?thesis
  proof (cases "has_key k")
    case True
    have b: "boundaries ly = map (\<lambda>p. keys ! (srt ! p)) ps" using built True by (simp add: splits_built_def)
    have key: "keys ! (srt ! (ps ! i)) = key_of k (?e (ps ! i))" if "i < length ps" for i
      using valid(3)[OF p(1) True] that by simp
    have se: "split_element ly ! i =
        (if ?need (ps ! i) then Some (length (filter ?need (take i ps))) else None)" if "i < length ps" for i
      using built True that by (simp add: splits_built_def)
    have elem: "e < length (splitters ly) \<and> splitters ly ! e = ?e (ps ! i)"
      if "i < length ps" "split_element ly ! i = Some e" for i e
    proof -
      have "?need (ps ! i)" "e = length (filter ?need (take i ps))" using se that by (auto split: if_splits)
      then show ?thesis using built that(1) nth_filter_index[of i ps ?need] length_filter_take_less[of i ps ?need]
        by (simp add: splits_built_def)
    qed
    have mono: "boundaries ly ! i \<le> boundaries ly ! j" if "i < j" "j < length ps" for i j
      using less[OF that] order_cmp_key_le[OF True] valid(2) p that by (simp add: b key)
    have stored: "split_element ly ! j \<noteq> None"
      if ij: "i < j" "j < length ps" and eq: "boundaries ly ! i = boundaries ly ! j" for i j
    proof -
      let ?q = "ps ! j - 1"
      have "ps ! i < ps ! j" using sep ij by (simp add: separated_def sorted_wrt_iff_nth_less)
      moreover have "ps ! j < length srt" using p(1) ij by simp
      ultimately have q: "?q < length srt" "0 < ps ! j" "ps ! i \<le> ?q" by linarith+
      have "\<not> item_less k items (srt ! ?q) (srt ! (ps ! i))"
        using srt q strict_weak_order.lt_irrefl[OF swo]
        by (cases "ps ! i = ?q") (auto simp: sorted_wrt_iff_nth_less)
      then have "order_cmp k (?e (ps ! i)) (?e ?q) \<le> 0"
        using three_way.cmp_not_less[OF law[unfolded lawful_key_def]] by blast
      then have lo: "key_of k (?e (ps ! i)) \<le> key_of k (?e ?q)"
        using order_cmp_key_le[OF True] valid(2) q p ij by simp
      have "order_cmp k (?e ?q) (?e (ps ! j)) < 0" using sep ij by (simp add: separated_def)
      then have hi: "key_of k (?e ?q) \<le> key_of k (?e (ps ! j))"
        using order_cmp_key_le[OF True] valid(2) q p ij by simp
      have "key_of k (?e ?q) = key_of k (?e (ps ! j))"
        using lo hi eq ij by (simp add: b key)
      then have "?need (ps ! j)"
        using ij valid(3)[OF q(1) True] by (simp add: needs_element_def key)
      then show ?thesis using se ij by simp
    qed
    have order: "order_cmp k (splitters ly ! e) (splitters ly ! e') \<le> 0"
      if "i < j" "j < length ps" "split_element ly ! i = Some e" "split_element ly ! j = Some e'" for i j e e'
    proof -
      have "i < length ps" using that by simp
      then show ?thesis using less[OF that(1,2)] elem[OF _ that(3)] elem[OF that(2,4)] by simp
    qed
    have "keyed_splits_ok k ly"
      unfolding keyed_splits_ok_def
    proof (intro conjI allI impI)
      show "length (split_element ly) = length (boundaries ly)"
        using built True by (simp add: splits_built_def)
    qed (use elem key mono stored order in \<open>simp_all add: b\<close>)
    then show ?thesis using True splitters len b by (auto simp: layout_ok_def split_count_def)
  next
    case False
    then have "filter ?need ps = ps" by (simp add: needs_element_def)
    then have s: "splitters ly = map ?e ps" using built by (simp add: splits_built_def)
    then have "sorted_wrt (\<lambda>a b. order_cmp k a b \<le> 0) (splitters ly)"
      using less by (auto simp: sorted_wrt_iff_nth_less less_imp_le)
    then show ?thesis using False splitters len s by (auto simp: layout_ok_def split_count_def)
  qed
qed

definition estimate_domain :: "'a list \<Rightarrow> nat list option \<Rightarrow> nat list" where
  "estimate_domain items sub = (case sub of Some is \<Rightarrow> is | None \<Rightarrow> [0..<length items])"

lemma wf_plan_sample:
  assumes "wf_plan plan" and "n < 2 ^ 32"
  shows "0 < sample_size plan" and "min n (sample_size plan) * n < 2 ^ 64" and "sample_size plan * n < 2 ^ 64"
    and "n \<le> 2 ^ 63"
proof -
  show "0 < sample_size plan" using assms(1) by (auto simp: wf_plan_def)
  have "sample_size plan * n \<le> 2 ^ 20 * 2 ^ 32"
    using assms by (intro mult_le_mono) (auto simp: wf_plan_def max_sample_size_def)
  then show lt: "sample_size plan * n < 2 ^ 64" by simp
  have "min n (sample_size plan) * n \<le> sample_size plan * n" by (intro mult_le_mono1) simp
  then show "min n (sample_size plan) * n < 2 ^ 64" using lt by linarith
  show "n \<le> 2 ^ 63" using assms(2) by simp
qed

text \<open>The estimated layout: well formed, within the bucket limit, splitters taken from the data.\<close>

lemma estimate_ok:
  assumes law: "lawful_key k" and plan: "wf_plan plan"
    and small: "length (estimate_domain items sub) < 2 ^ 32"
    and samp: "sampled k items keys g (set (estimate_domain items sub))"
  shows "\<exists>ly. estimate k items keys plan sub = Inr ly \<and> layout_ok k g ly
    \<and> layout_bucket_count ly \<le> max_buckets plan
    \<and> set (splitter_positions ly) \<subseteq> set (estimate_domain items sub)"
proof -
  let ?D = "estimate_domain items sub"
  let ?n = "length ?D"
  let ?targets = "target_sizes plan ?n"
  let ?idx = "sample_indices ?n (sample_size plan) (seed plan)"
  let ?sample = "map ((!) ?D) ?idx"
  let ?s = "length ?sample"
  let ?srt = "stable_sort (item_less k items) ?sample"
  let ?desired = "desired_positions ?s ?n ?targets"
  have n: "(case sub of Some is \<Rightarrow> length is | None \<Rightarrow> length items) = ?n"
    by (simp add: estimate_domain_def split: option.splits)
  note bounds = wf_plan_sample[OF plan small]
  show ?thesis
  proof (cases "length ?targets \<le> 1")
    case True
    have "1 \<le> max_buckets plan" using plan by (simp add: wf_plan_def)
    then show ?thesis using True
      by (auto simp: estimate_def n Let_def empty_layout_def layout_ok_def split_count_def layout_bucket_count_def
          keyed_splits_ok_def)
  next
    case False
    then have pos: "0 < ?n" by (cases "?n = 0") (auto simp: target_sizes_def)
    note good = good_target_sizes[OF plan pos bounds(4)]
    have idx: "x < ?n" if "x \<in> set ?idx" for x
      using sample_indices_increasing[OF bounds(1,3)] that by blast
    have sample_eq: "(case sub of Some is \<Rightarrow> map (\<lambda>i. is ! i) ?idx | None \<Rightarrow> ?idx) = ?sample"
    proof (cases sub)
      case None
      have "map ((!) ?D) ?idx = map (\<lambda>i. i) ?idx"
        using idx None by (intro map_cong) (auto simp: estimate_domain_def)
      then show ?thesis using None by simp
    qed (simp add: estimate_domain_def)
    have sub_D: "set ?srt \<subseteq> set ?D" using idx by auto
    then have samp': "sampled k items keys g (set ?srt)" using samp by (auto simp: sampled_def)
    have sorted: "stable_sort_exn (sample_less k items keys) ?sample = Inr ?srt"
      using idx by (intro stable_sort_exn_ok sample_less_eq[OF samp]) auto
    have srt: "sorted_by (item_less k items) ?srt"
      using strict_weak_order.sorted_stable_sort[OF item_less_swo[OF law, of items]] by simp
    have s: "?s = min ?n (sample_size plan)" by simp
    have "0 < ?s" "?s * ?n < 2 ^ 64" using pos bounds by (simp_all only: s min_less_iff_conj)
    then have "q < ?s" if "q \<in> set ?desired" for q
      using desired_positions_less[OF good, of ?s q] that by blast
    then have desired: "q < length ?srt" if "q \<in> set ?desired" for q
      using that by (simp only: length_stable_sort)
    obtain ps where chosen: "split_positions k items keys ?srt ?desired = Inr ps"
      and sep: "separated (item_less k items) ?srt ps" and len: "length ps \<le> length ?desired"
      using split_positions_separated[OF samp' law srt desired] by auto
    define ly where "ly = (fold (add_split k items keys ?srt) ps (empty_layout\<lparr>estimated_from := ?n\<rparr>))
          \<lparr>expected_sizes := fst (fold (expected_step ?s ?n) (ps @ [?s]) ([], 0))\<rparr>"
    have est: "estimate k items keys plan sub = Inr ly"
      using False unfolding estimate_def n Let_def sample_eq sorted bind_exn_simps chosen ly_def
      by (simp only: if_False)
    have "splits_built k items keys ?srt ps (fold (add_split k items keys ?srt) ps (empty_layout\<lparr>estimated_from := ?n\<rparr>))"
      by (rule splits_built_fold) (simp_all add: empty_layout_def)
    then have built: "splits_built k items keys ?srt ps ly"
      unfolding ly_def by (simp add: splits_built_def)
    have elen: "length (expected_sizes ly) = length ps + 1"
      unfolding ly_def by (simp add: expected_fold del: fold_append)
    have "layout_ok k g ly"
      by (rule layout_ok_built[OF samp' law srt sep built elen])
    moreover have "length ps + 1 \<le> max_buckets plan"
    proof -
      have "length ?targets \<le> max_buckets plan" using good by (simp add: good_targets_def)
      then show ?thesis using len False unfolding length_desired_positions by linarith
    qed
    moreover have "set (splitter_positions ly) \<subseteq> set ?D"
    proof
      fix x assume "x \<in> set (splitter_positions ly)"
      then obtain p where "p \<in> set ps" and x: "x = ?srt ! p"
        using built[unfolded splits_built_def] by auto
      then have "p < length ?srt" using sep unfolding separated_def by blast
      then show "x \<in> set ?D" using sub_D nth_mem unfolding x by blast
    qed
    ultimately show ?thesis using est by (simp add: layout_bucket_count_def elen)
  qed
qed

section \<open>Properties of sampling and layouts\<close>

text \<open>A small layout for the examples: the split points 4 and 8.\<close>

definition two_splits :: "u64 layout" where
  "two_splits = \<lparr>boundaries = [4, 8], split_element = [None, None], splitters = [],
     splitter_positions = [], expected_sizes = [1, 1, 1], estimated_from = 3\<rparr>"

lemma two_splits_ok: "layout_ok number_key 0 two_splits"
  unfolding layout_ok_def two_splits_def split_count_def keyed_splits_ok_def
  by (auto simp: less_Suc_eq)

lemma two_splits_count [simp]: "layout_bucket_count two_splits = 3"
  by (simp add: layout_bucket_count_def two_splits_def)

text \<open>
  C37: The sample is stratified: it has \<open>min n sample_size\<close> positions, strictly increasing and
  all below \<open>n\<close>; when it is a proper sample, position \<open>j\<close> lies in the \<open>j\<close>-th of the equal
  strides, whatever the seed. The modulo never divides by zero and no product wraps.
\<close>

theorem sample_is_stratified:
  assumes "0 < ssize" and "ssize * n < 2 ^ 64"
  shows "length (sample_indices n ssize sd) = min n ssize
    \<and> sorted_wrt (<) (sample_indices n ssize sd) \<and> (\<forall>x\<in>set (sample_indices n ssize sd). x < n)
    \<and> (if n \<le> ssize then sample_indices n ssize sd = [0..<n]
       else \<forall>j < ssize. sample_indices n ssize sd ! j \<in> {j * n div ssize ..< (j + 1) * n div ssize})"
  using sample_indices_increasing[OF assms] sample_indices_stride[OF _ assms, of _ sd] sample_all[of n ssize sd]
  by (simp add: stride_def not_le del: mult_Suc)

theorem sample_is_stratified_witness:
  "sorted_wrt (<) (sample_indices 1000 10 7)"
  using sample_is_stratified[of 10 1000 7] by simp

text \<open>
  The golden sample every port has to reproduce: SplitMix64 seeded with 42 picks these 8
  of 100000 positions.
\<close>

theorem golden_sample:
  "sample_indices 100000 8 42 = [413, 17291, 26358, 43264, 50750, 64062, 87425, 88408]"
proof -
  have zeros: "replicate 8 (0::nat) = [0, 0, 0, 0, 0, 0, 0, 0]" by (simp add: numeral_eq_Suc)
  show ?thesis by (simp add: sample_indices_def sample_step_def splitmix_next_def Let_def upt_rec zeros)
qed

text \<open>
  C38: Choosing split positions: whatever the runs of equal elements look like, as long as each
  desired position \<open>q\<close> lies inside the sample and not before its run, the recorded positions
  are strictly increasing, strictly inside the sample, no more than desired, and each one is
  an end of the run of some desired position, so no run of ties is cut.
\<close>

theorem split_positions_cut_no_run:
  assumes "\<And>q. q \<in> set desired \<Longrightarrow> run_start q \<le> q \<and> q < s"
  shows "sorted_wrt (<) (choose_split_positions desired s run_start run_end)
    \<and> length (choose_split_positions desired s run_start run_end) \<le> length desired
    \<and> (\<forall>p\<in>set (choose_split_positions desired s run_start run_end).
         0 < p \<and> p < s \<and> (\<exists>q\<in>set desired. p = run_start q \<or> p = run_end q))"
  using choose_split_positions_spec[of desired run_start s run_end] assms unfolding split_spec_def by blast

theorem split_positions_cut_no_run_witness:
  "sorted_wrt (<) (choose_split_positions [2, 5] 8 (\<lambda>q. q - 1) (\<lambda>q. q + 2))"
  using split_positions_cut_no_run[of "[2, 5]" "\<lambda>q. q - 1" 8 "\<lambda>q. q + 2"] by fastforce

text \<open>
  C30: Estimating a layout from the elements of one group, all kinds of sort keys and plans
  included, throws no exception; the result satisfies the layout invariant, has at most
  \<open>max_buckets\<close> buckets, and its splitters are copies of elements of the group.
\<close>

theorem estimated_layout_well_formed:
  assumes "lawful_key k" and "wf_plan plan" and "length (estimate_domain items sub) < 2 ^ 32"
    and "sampled k items keys g (set (estimate_domain items sub))"
  shows "\<exists>ly. estimate k items keys plan sub = Inr ly \<and> layout_ok k g ly
    \<and> layout_bucket_count ly \<le> max_buckets plan
    \<and> set (splitter_positions ly) \<subseteq> set (estimate_domain items sub)"
  using estimate_ok[OF assms] .

theorem estimated_layout_well_formed_witness:
  "\<exists>ly. estimate number_key [5, 3, 9] [5, 3, 9] (mk_plan Uniform) None = Inr ly \<and> layout_ok number_key 0 ly"
  using estimated_layout_well_formed[OF number_key_ok(2) wf_mk_plan(3), of "[5, 3, 9]" None "[5, 3, 9]" 0]
  by (auto simp: estimate_domain_def sampled_def less_Suc_eq_0_disj numeral_3_eq_3)

text \<open>
  C32: The bucket of a value is the number of split points at or below it (S6 of the
  specification), for both code paths of the search, and it is a valid bucket number. The
  value need not be in the collection.
\<close>

theorem bucket_is_split_point_count:
  assumes "layout_ok k g ly" and "lawful_key k" and "valid_item k x" and "group_number k x = g"
  shows "\<exists>b. layout_bucket_of ly x k = Inr b \<and> b < layout_bucket_count ly
    \<and> b = length (filter (at_or_above k ly x) [0..<layout_bucket_count ly - 1])"
  using layout_bucket_of_ok[OF assms(1,3)] split_bucket_count[OF assms] split_bucket_less[OF assms(1), of x] assms(1)
  by (simp add: layout_bucket_count_def layout_ok_def)

theorem bucket_is_split_point_count_witness:
  "\<exists>b. layout_bucket_of two_splits 5 number_key = Inr b \<and> b < 3"
  using bucket_is_split_point_count[OF two_splits_ok number_key_ok(2,3,4), of 5] by auto

text \<open>
  C31: Buckets respect the exact order: if one value's bucket comes before another's, the first
  value is strictly smaller, ties never fall into different buckets.
\<close>

theorem buckets_follow_order:
  assumes "layout_ok k g ly" and "lawful_key k" and "valid_item k x" "group_number k x = g"
    and "valid_item k y" "group_number k y = g"
    and "layout_bucket_of ly x k = Inr b" "layout_bucket_of ly y k = Inr c" "b < c"
  shows "order_cmp k x y < 0"
  using split_bucket_mono[OF assms(1,2,5,6,3,4)] assms(7-9) layout_bucket_of_ok[OF assms(1,3)]
    layout_bucket_of_ok[OF assms(1,5)] three_way.cmp_not_less[OF assms(2)[unfolded lawful_key_def]]
  by (metis not_le sum.inject(2))

theorem buckets_follow_order_witness:
  "order_cmp number_key 3 5 < 0"
  by (rule buckets_follow_order[OF two_splits_ok, of _ _ 0 1])
    (simp_all add: layout_bucket_of_def layout_bucket_of_keyed_def upper_bound_def bisect.simps two_splits_def)

end
