(* ===== verification/Key_States.thy ===== *)
theory Key_States
  imports Bucket_Layouts
begin

text \<open>
  The per-key state of \<open>BucketIndex\<close> (\<open>struct KeyState\<close> of \<open>bucket_index.hpp\<close>) and the
  private operations on it: assigning buckets (\<open>relayout\<close>, \<open>append\<close>, \<open>rekey\<close>), the cached
  grouping (\<open>build_order\<close>, \<open>regroup\<close>, \<open>compact\<close>, \<open>sort_bucket\<close>) and the automatic
  rebalancing. Every loop of the source is a \<open>fold\<close> or, where its body may throw, a
  \<open>for_do\<close>; vectors are lists updated by index.
\<close>

section \<open>State\<close>

text \<open>\<open>Slot\<close> is 32 bits wide, \<open>BucketId\<close> 16 bits; the casts truncate.\<close>

definition slot_cast :: "nat \<Rightarrow> nat" where
  "slot_cast n = n mod 2 ^ 32"

definition bucket_id_cast :: "nat \<Rightarrow> nat" where
  "bucket_id_cast n = n mod 2 ^ 16"

definition removed_slot :: nat where
  "removed_slot = 2 ^ 32 - 1"

text \<open>\<open>stale_checked_at\<close> is \<open>None\<close> for \<open>npos\<close>.\<close>

record 'a key_state =
  ks_key :: "'a sort_key"
  ks_keys :: "u64 list"
  ks_buckets :: "nat list"
  ks_layouts :: "'a layout list"
  ks_group_offset :: "nat list"
  ks_expected :: "nat list"
  ks_estimated_from :: nat
  ks_counts :: "nat list"
  ks_churn :: nat
  ks_stale_checked_at :: "nat option"
  ks_splitter_slots :: "nat list"
  ks_splitter_changed :: bool
  ks_has_order :: bool
  ks_order_stale :: bool
  ks_order :: "nat list"
  ks_start :: "nat list"
  ks_sorted_len :: "nat list"
  ks_ordered_slots :: nat
  ks_moved :: "bool list"

definition new_key_state :: "'a sort_key \<Rightarrow> 'a key_state" where
  "new_key_state k =
     \<lparr>ks_key = k, ks_keys = [], ks_buckets = [], ks_layouts = [], ks_group_offset = [],
      ks_expected = [], ks_estimated_from = 0, ks_counts = [], ks_churn = 0,
      ks_stale_checked_at = None, ks_splitter_slots = [], ks_splitter_changed = False,
      ks_has_order = False, ks_order_stale = False, ks_order = [], ks_start = [],
      ks_sorted_len = [], ks_ordered_slots = 0, ks_moved = []\<rparr>"

definition bucket_total :: "'a key_state \<Rightarrow> nat" where
  "bucket_total st = last (ks_group_offset st)"

text \<open>\<open>std::vector::resize\<close> with value-initialised new elements.\<close>

definition resize :: "nat \<Rightarrow> 'b \<Rightarrow> 'b list \<Rightarrow> 'b list" where
  "resize n d xs = take n xs @ replicate (n - length xs) d"

section \<open>Assigning buckets\<close>

definition bucket_for :: "'a key_state \<Rightarrow> 'a \<Rightarrow> u64 \<Rightarrow> exn + nat" where
  "bucket_for st item item_key =
     (case (if 1 < length (ks_layouts st) then group_of (ks_key st) item else Inr 0) of
        Inl e \<Rightarrow> Inl e
      | Inr g \<Rightarrow>
          let ly = ks_layouts st ! g;
              k = ks_key st;
              local_id = (if has_key k then Inr (layout_bucket_of_keyed ly item item_key k)
                          else layout_bucket_of ly item k)
          in map_sum id (\<lambda>b. ks_group_offset st ! g + b) local_id)"

definition member_step :: "'a sort_key \<Rightarrow> 'a list \<Rightarrow> nat \<Rightarrow> nat list list \<Rightarrow> (nat list list, unit) run" where
  "member_step k items slot members =
     (case group_of k (items ! slot) of
        Inl e \<Rightarrow> (Inl e, members)
      | Inr g \<Rightarrow> (Inr (), members[g := members ! g @ [slot]]))"

definition estimate_layouts :: "'a key_state \<Rightarrow> 'a list \<Rightarrow> bucket_plan \<Rightarrow> exn + 'a layout list" where
  "estimate_layouts st items plan =
     (let k = ks_key st; groups = sk_groups k
      in if groups = 1 then map_sum id (\<lambda>ly. [ly]) (estimate k items (ks_keys st) plan None)
         else
           case for_do (member_step k items) [0..<length items] (replicate groups []) of
             (Inl e, _) \<Rightarrow> Inl e
           | (Inr _, members) \<Rightarrow>
               (case with_max_buckets plan (min (max_buckets plan) (max_bucket_limit div groups)) of
                  Inl e \<Rightarrow> Inl e
                | Inr per_group \<Rightarrow>
                    map_exn (\<lambda>slots. estimate k items (ks_keys st) per_group (Some slots)) members))"

definition add_layout :: "'a layout \<Rightarrow> 'a key_state \<Rightarrow> 'a key_state" where
  "add_layout ly st =
     st\<lparr>ks_group_offset := ks_group_offset st @ [last (ks_group_offset st) + layout_bucket_count ly],
        ks_expected := ks_expected st @ expected_sizes ly,
        ks_splitter_slots := ks_splitter_slots st @ map slot_cast (splitter_positions ly)\<rparr>"

definition assign_bucket :: "'a list \<Rightarrow> nat \<Rightarrow> 'a key_state \<Rightarrow> ('a key_state, unit) run" where
  "assign_bucket items slot st =
     (case bucket_for st (items ! slot) (if has_key (ks_key st) then ks_keys st ! slot else 0) of
        Inl e \<Rightarrow> (Inl e, st)
      | Inr b \<Rightarrow> (Inr (), st\<lparr>ks_buckets := (ks_buckets st)[slot := bucket_id_cast b],
                             ks_counts := (ks_counts st)[b := ks_counts st ! b + 1]\<rparr>))"

definition reset_order :: "'a key_state \<Rightarrow> 'a key_state" where
  "reset_order st =
     st\<lparr>ks_churn := 0, ks_stale_checked_at := None, ks_has_order := False, ks_order_stale := False,
        ks_order := [], ks_start := [], ks_sorted_len := [], ks_moved := [], ks_ordered_slots := 0\<rparr>"

text \<open>\<open>relayout\<close> up to the loop that assigns the buckets.\<close>

definition install_layouts :: "'a layout list \<Rightarrow> 'a list \<Rightarrow> 'a key_state \<Rightarrow> 'a key_state" where
  "install_layouts layouts items st =
     (let st = st\<lparr>ks_layouts := layouts, ks_group_offset := [0], ks_expected := [], ks_splitter_slots := []\<rparr>;
          st = fold add_layout layouts st;
          st = st\<lparr>ks_splitter_slots := sort (ks_splitter_slots st), ks_splitter_changed := False,
                  ks_estimated_from := length items\<rparr>
      in st\<lparr>ks_counts := replicate (bucket_total st) 0,
            ks_buckets := resize (length items) 0 (ks_buckets st)\<rparr>)"

definition relayout :: "bucket_plan \<Rightarrow> 'a list \<Rightarrow> 'a key_state \<Rightarrow> ('a key_state, unit) run" where
  "relayout plan items st =
     (case estimate_layouts st items plan of
        Inl e \<Rightarrow> (Inl e, st)
      | Inr layouts \<Rightarrow>
          (case for_do (assign_bucket items) [0..<length items] (install_layouts layouts items st) of
             (Inl e, st) \<Rightarrow> (Inl e, st)
           | (Inr _, st) \<Rightarrow> (Inr (), reset_order st)))"

text \<open>The part of \<open>append\<close> that updates one key state for the new item.\<close>

definition append_state :: "'a \<Rightarrow> 'a key_state \<Rightarrow> ('a key_state, unit) run" where
  "append_state item st =
     (let keyed = has_key (ks_key st);
          k = (if keyed then key_of (ks_key st) item else 0);
          st = (if keyed then st\<lparr>ks_keys := ks_keys st @ [k]\<rparr> else st)
      in case bucket_for st item k of
           Inl e \<Rightarrow> (Inl e, st)
         | Inr b \<Rightarrow>
             (Inr (), st\<lparr>ks_buckets := ks_buckets st @ [bucket_id_cast b],
                         ks_counts := (ks_counts st)[b := ks_counts st ! b + 1],
                         ks_churn := ks_churn st + 1,
                         ks_order_stale := (ks_has_order st \<or> ks_order_stale st)\<rparr>))"

definition is_splitter :: "'a key_state \<Rightarrow> nat \<Rightarrow> bool" where
  "is_splitter st slot = binary_search (ks_splitter_slots st) (slot_cast slot)"

definition rekey :: "'a list \<Rightarrow> nat \<Rightarrow> 'a key_state \<Rightarrow> ('a key_state, unit) run" where
  "rekey items slot st =
     (let keyed = has_key (ks_key st);
          st = (if keyed then st\<lparr>ks_keys := (ks_keys st)[slot := key_of (ks_key st) (items ! slot)]\<rparr> else st)
      in case bucket_for st (items ! slot) (if keyed then ks_keys st ! slot else 0) of
           Inl e \<Rightarrow> (Inl e, st)
         | Inr b \<Rightarrow>
             let old = ks_buckets st ! slot;
                 counts = (ks_counts st)[old := ks_counts st ! old - 1];
                 st = st\<lparr>ks_counts := counts[b := counts ! b + 1],
                         ks_buckets := (ks_buckets st)[slot := bucket_id_cast b],
                         ks_churn := ks_churn st + 1\<rparr>;
                 st = (if is_splitter st slot then st\<lparr>ks_splitter_changed := True\<rparr> else st)
             in (Inr (), if ks_has_order st \<and> slot < ks_ordered_slots st
                         then st\<lparr>ks_moved := (ks_moved st)[slot := True], ks_order_stale := True\<rparr>
                         else st))"

section \<open>The cached grouping\<close>

text \<open>\<open>order[fill[buckets[slot]]++] = slot\<close>.\<close>

definition place :: "nat list \<Rightarrow> nat \<Rightarrow> nat list \<times> nat list \<Rightarrow> nat list \<times> nat list" where
  "place buckets slot = (\<lambda>(fill, order).
     let b = buckets ! slot in (fill[b := fill ! b + 1], order[fill ! b := slot_cast slot]))"

text \<open>\<open>start[b + 1] = start[b] + counts[b]\<close> for every bucket.\<close>

definition start_of_counts :: "nat \<Rightarrow> nat list \<Rightarrow> nat list" where
  "start_of_counts k counts =
     fold (\<lambda>b start. start[b + 1 := start ! b + counts ! b]) [0..<k] (replicate (k + 1) 0)"

definition build_order :: "nat \<Rightarrow> 'a key_state \<Rightarrow> 'a key_state" where
  "build_order n st =
     (let k = bucket_total st;
          start = start_of_counts k (ks_counts st);
          (fill, order) = fold (place (ks_buckets st)) [0..<n] (butlast start, replicate n 0)
      in st\<lparr>ks_start := start, ks_order := order, ks_sorted_len := replicate k 0,
            ks_moved := replicate n False, ks_ordered_slots := n, ks_has_order := True,
            ks_order_stale := False\<rparr>)"

text \<open>
  The first loop of \<open>regroup\<close>: slots that stayed keep their place in their bucket, moved
  ones are deferred. The accumulator is \<open>(fill, sorted_len, order, deferred)\<close>.
\<close>

definition keep_step :: "'a key_state \<Rightarrow> nat \<Rightarrow> nat \<Rightarrow>
    nat list \<times> nat list \<times> nat list \<times> nat list \<Rightarrow> nat list \<times> nat list \<times> nat list \<times> nat list" where
  "keep_step st b i = (\<lambda>(fill, sorted_len, order, deferred).
     let slot = ks_order st ! i;
         prefix_end = ks_start st ! b + ks_sorted_len st ! b
     in if ks_moved st ! slot then (fill, sorted_len, order, deferred @ [slot])
        else (fill[b := fill ! b + 1],
              if i < prefix_end then sorted_len[b := sorted_len ! b + 1] else sorted_len,
              order[fill ! b := slot], deferred))"

definition regroup :: "nat \<Rightarrow> 'a key_state \<Rightarrow> 'a key_state" where
  "regroup n st =
     (let k = bucket_total st;
          start = start_of_counts k (ks_counts st);
          (fill, sorted_len, order, deferred) =
            fold (\<lambda>b. fold (keep_step st b) [ks_start st ! b..<ks_start st ! (b + 1)]) [0..<k]
              (butlast start, replicate k 0, replicate n 0, []);
          (fill, order) = fold (place (ks_buckets st)) deferred (fill, order);
          (fill, order) = fold (place (ks_buckets st)) [ks_ordered_slots st..<n] (fill, order)
      in st\<lparr>ks_order := order, ks_start := start, ks_sorted_len := sorted_len,
            ks_moved := replicate n False, ks_ordered_slots := n, ks_order_stale := False\<rparr>)"

text \<open>
  The first loop of \<open>compact\<close>: counts lose the removed slots, keys and bucket ids move down.
  A removed slot is \<open>None\<close> in \<open>remap\<close>.
\<close>

definition compact_step :: "nat option list \<Rightarrow> nat \<Rightarrow> nat \<times> 'a key_state \<Rightarrow> nat \<times> 'a key_state" where
  "compact_step remap slot = (\<lambda>(write, st).
     if remap ! slot = None
     then let b = ks_buckets st ! slot
          in (write, st\<lparr>ks_counts := (ks_counts st)[b := ks_counts st ! b - 1]\<rparr>)
     else (write + 1,
           st\<lparr>ks_keys := (if has_key (ks_key st) then (ks_keys st)[write := ks_keys st ! slot] else ks_keys st),
              ks_buckets := (ks_buckets st)[write := ks_buckets st ! slot]\<rparr>))"

text \<open>
  The loop over the splitter slots: stops at a removed one (\<open>False\<close>), with the slots before
  it already renumbered.
\<close>

fun remap_splitters :: "nat option list \<Rightarrow> nat list \<Rightarrow> bool \<times> nat list" where
  "remap_splitters remap [] = (True, [])"
| "remap_splitters remap (s # ss) =
     (case remap ! s of
        None \<Rightarrow> (False, s # ss)
      | Some t \<Rightarrow> (case remap_splitters remap ss of (ok, ss') \<Rightarrow> (ok, t # ss')))"

text \<open>The last loop of \<open>compact\<close> filters the order in place; \<open>(out, srt, order)\<close>.\<close>

definition filter_step :: "nat option list \<Rightarrow> nat \<Rightarrow> nat \<Rightarrow> nat \<times> nat \<times> nat list \<Rightarrow> nat \<times> nat \<times> nat list" where
  "filter_step remap prefix_end i = (\<lambda>(out, srt, order).
     case remap ! (order ! i) of
       None \<Rightarrow> (out, srt, order)
     | Some mapped \<Rightarrow> (out + 1, if i < prefix_end then srt + 1 else srt, order[out := mapped]))"

definition filter_bucket :: "'a key_state \<Rightarrow> nat option list \<Rightarrow> nat \<Rightarrow>
    nat \<times> nat list \<times> nat list \<times> nat list \<Rightarrow> nat \<times> nat list \<times> nat list \<times> nat list" where
  "filter_bucket st remap b = (\<lambda>(out, order, start, sorted_len).
     let prefix_end = ks_start st ! b + sorted_len ! b;
         (out, srt, order) =
           fold (filter_step remap prefix_end) [ks_start st ! b..<ks_start st ! (b + 1)] (out, 0, order)
     in (out, order, start[b + 1 := out], sorted_len[b := srt]))"

definition compact ::
    "bucket_plan \<Rightarrow> 'a list \<Rightarrow> nat option list \<Rightarrow> nat \<Rightarrow> 'a key_state \<Rightarrow> ('a key_state, unit) run" where
  "compact plan items remap kept st =
     (let n = length remap;
          (_, st) = fold (compact_step remap) [0..<n] (0, st);
          st = st\<lparr>ks_keys := resize (if has_key (ks_key st) then kept else 0) 0 (ks_keys st),
                  ks_buckets := resize kept 0 (ks_buckets st),
                  ks_churn := ks_churn st + (n - kept)\<rparr>;
          (ok, slots) = remap_splitters remap (ks_splitter_slots st);
          st = st\<lparr>ks_splitter_slots := slots\<rparr>
      in if \<not> ok then relayout plan items st
         else if \<not> ks_has_order st then (Inr (), st)
         else
           let k = bucket_total st;
               (out, order, start, sorted_len) =
                 fold (filter_bucket st remap) [0..<k] (0, ks_order st, replicate (k + 1) 0, ks_sorted_len st)
           in (Inr (), st\<lparr>ks_order := resize kept 0 order, ks_start := start, ks_sorted_len := sorted_len,
                          ks_moved := replicate kept False, ks_ordered_slots := kept\<rparr>))"

section \<open>Lazy sorting\<close>

text \<open>The comparison of two slots: key, tie-breaker, slot number.\<close>

definition bucket_less :: "'a key_state \<Rightarrow> 'a list \<Rightarrow> nat \<Rightarrow> nat \<Rightarrow> exn + bool" where
  "bucket_less st items a b =
     (let k = ks_key st
      in if has_key k then
           if ks_keys st ! a \<noteq> ks_keys st ! b then Inr (ks_keys st ! a < ks_keys st ! b)
           else let c = tie_break k (items ! a) (items ! b) in Inr (if c \<noteq> 0 then c < 0 else a < b)
         else map_sum id (\<lambda>c. if c \<noteq> 0 then c < 0 else a < b) (compare_values k (items ! a) (items ! b)))"

text \<open>
  \<open>finish\<close>: sort the tail unless it is in order, then merge it into the prefix unless the
  two are already in order. The first exception of a comparison ends it.
\<close>

definition finish_bucket :: "(nat \<Rightarrow> nat \<Rightarrow> exn + bool) \<Rightarrow> nat list \<Rightarrow> nat list \<Rightarrow> exn + nat list" where
  "finish_bucket lt prefix tail =
     bind_exn (is_sorted_exn lt tail) (\<lambda>ordered.
     bind_exn (if ordered then Inr tail else stable_sort_exn lt tail) (\<lambda>tail.
     bind_exn (if prefix = [] then Inr False else lt (hd tail) (last prefix)) (\<lambda>overlap.
       if overlap then merge_exn lt prefix tail else Inr (prefix @ tail))))"

text \<open>
  A comparison that throws leaves \<open>sorted_len\<close> as it was. The C++ standard does not say in
  which order an interrupted \<open>std::stable_sort\<close> or \<open>std::inplace_merge\<close> leaves its range;
  the model keeps the order from before.
\<close>

definition sort_bucket :: "'a list \<Rightarrow> nat \<Rightarrow> 'a key_state \<Rightarrow> ('a key_state, unit) run" where
  "sort_bucket items bucket st =
     (let lo = ks_start st ! bucket;
          hi = ks_start st ! (bucket + 1);
          len = hi - lo;
          srt = ks_sorted_len st ! bucket
      in if srt = len then (Inr (), st)
         else
           let segment = take len (drop lo (ks_order st))
           in case finish_bucket (bucket_less st items) (take srt segment) (drop srt segment) of
                Inl e \<Rightarrow> (Inl e, st)
              | Inr finished \<Rightarrow>
                  (Inr (), st\<lparr>ks_order := take lo (ks_order st) @ finished @ drop hi (ks_order st),
                              ks_sorted_len := (ks_sorted_len st)[bucket := len]\<rparr>))"

definition bucket_at :: "'a key_state \<Rightarrow> nat \<Rightarrow> nat" where
  "bucket_at st ascending_position = upper_bound (<) (ks_start st) ascending_position - 1"

section \<open>Staleness and preparation\<close>

definition skew_floor :: "bucket_plan \<Rightarrow> 'a key_state \<Rightarrow> nat \<Rightarrow> nat" where
  "skew_floor plan st bucket = max (max (ks_expected st ! bucket) (page_size plan)) 1"

definition is_stale :: "bucket_plan \<Rightarrow> nat \<Rightarrow> 'a key_state \<Rightarrow> bool" where
  "is_stale plan n st \<longleftrightarrow>
     size_t (2 * max (ks_estimated_from st) (page_size plan)) < n
     \<or> (\<exists>b\<in>set [0..<length (ks_counts st)].
          f64_lt (f64_mul (rebalance_skew plan) (f64_of_nat (skew_floor plan st b)))
                 (f64_of_nat (ks_counts st ! b)))"

definition maybe_auto_rebalance :: "bucket_plan \<Rightarrow> 'a list \<Rightarrow> 'a key_state \<Rightarrow> ('a key_state, unit) run" where
  "maybe_auto_rebalance plan items st =
     (if \<not> auto_rebalance plan \<or> ks_stale_checked_at st = Some (ks_churn st) then (Inr (), st)
      else
        let st = st\<lparr>ks_stale_checked_at := Some (ks_churn st)\<rparr>
        in if max (page_size plan) (ks_estimated_from st div 8) \<le> ks_churn st \<and> is_stale plan (length items) st
           then relayout plan items st
           else (Inr (), st))"

definition prepare :: "bucket_plan \<Rightarrow> 'a list \<Rightarrow> 'a key_state \<Rightarrow> ('a key_state, unit) run" where
  "prepare plan items st =
     (case maybe_auto_rebalance plan items st of
        (Inl e, st) \<Rightarrow> (Inl e, st)
      | (Inr _, st) \<Rightarrow>
          (Inr (), if \<not> ks_has_order st then build_order (length items) st
                   else if ks_order_stale st then regroup (length items) st
                   else st))"

end
