(* ===== verification/Segments.thy ===== *)
theory Segments
  imports Key_States
begin

text \<open>
  The list-level facts behind the cached grouping: an order that is the concatenation of
  segments, the offsets at which they start, placing slots through fill pointers (the
  counting sort of \<open>build_order\<close> and \<open>regroup\<close>) and filtering segments in place
  (\<open>compact\<close>).
\<close>

section \<open>Offsets\<close>

definition offsets :: "nat list \<Rightarrow> nat list" where
  "offsets xs = map (\<lambda>i. sum_list (take i xs)) [0..<Suc (length xs)]"

lemma length_offsets [simp]: "length (offsets xs) = Suc (length xs)"
  by (simp add: offsets_def)

lemma offsets_nth [simp]: "i \<le> length xs \<Longrightarrow> offsets xs ! i = sum_list (take i xs)"
  unfolding offsets_def by (subst nth_map) (auto simp del: upt_Suc)

lemma offsets_Nil [simp]: "offsets [] = [0]"
  by (simp add: offsets_def)

lemma offsets_snoc: "offsets (xs @ [x]) = offsets xs @ [sum_list xs + x]"
  by (simp add: offsets_def)

lemma last_offsets [simp]: "last (offsets xs) = sum_list xs"
  by (simp add: offsets_def last_map)

lemma offsets_neq_Nil [simp]: "offsets xs \<noteq> []"
  by (simp add: offsets_def)

lemma sum_take_Suc: "i < length xs \<Longrightarrow> sum_list (take (Suc i) xs) = sum_list (take i xs) + xs ! i"
  for xs :: "nat list"
  by (simp add: take_Suc_conv_app_nth)

lemma sum_take_mono: "i \<le> j \<Longrightarrow> sum_list (take i xs) \<le> sum_list (take j xs)" for xs :: "nat list"
  by (metis append_take_drop_id le_add1 min.absorb1 sum_list_append take_take)

lemma sum_take_le: "sum_list (take i xs) \<le> sum_list xs" for xs :: "nat list"
  by (metis append_take_drop_id le_add1 sum_list_append)

lemma offsets_mono: "i \<le> j \<Longrightarrow> j \<le> length xs \<Longrightarrow> offsets xs ! i \<le> offsets xs ! j"
  by (simp add: sum_take_mono)

lemma sorted_offsets: "sorted (offsets xs)"
  unfolding sorted_iff_nth_mono by (auto simp: sum_take_mono)

lemma start_of_counts: "length counts = k \<Longrightarrow> start_of_counts k counts = offsets counts"
proof -
  assume len: "length counts = k"
  have "fold (\<lambda>b start. start[b + 1 := start ! b + counts ! b]) [0..<m] (replicate (k + 1) 0)
      = offsets (take m counts) @ replicate (k - m) 0" if "m \<le> k" for m
    using that
  proof (induction m)
    case 0
    show ?case by simp
  next
    case (Suc m)
    have "k - m = Suc (k - Suc m)" using Suc.prems by simp
    then show ?case using Suc len
      by (simp add: take_Suc_conv_app_nth offsets_snoc nth_append list_update_append min_def
          del: replicate.simps) simp
  qed
  from this[of k] len show ?thesis by (simp add: start_of_counts_def)
qed

text \<open>The segment a position falls into.\<close>

lemma offsets_upper_bound:
  assumes "b < length xs" and "offsets xs ! b \<le> p" and "p < offsets xs ! Suc b"
  shows "upper_bound (<) (offsets xs) p = Suc b"
  unfolding upper_bound_def
proof (rule bisect_unique)
  show "Suc b \<le> length (offsets xs)" using assms(1) by simp
  show "\<not> p < offsets xs ! i" if "i < Suc b" for i
    using offsets_mono[of i b xs] that assms by simp
  show "\<not> \<not> p < offsets xs ! i" if "Suc b \<le> i" "i < length (offsets xs)" for i
    using offsets_mono[of "Suc b" i xs] that assms by simp
qed

lemma offsets_locate:
  assumes "p < sum_list xs"
  obtains b where "b < length xs" "offsets xs ! b \<le> p" "p < offsets xs ! Suc b"
proof -
  let ?P = "\<lambda>b. b \<le> length xs \<and> p < sum_list (take b xs)"
  have ex: "?P (length xs)" using assms by simp
  define m where "m = (LEAST b. ?P b)"
  have m: "?P m" unfolding m_def by (rule LeastI[of ?P, OF ex])
  then have "m \<noteq> 0" by (cases m) auto
  then have "\<not> ?P (m - 1)" unfolding m_def by (intro not_less_Least) (simp add: m_def)
  then show thesis using m \<open>m \<noteq> 0\<close> by (intro that[of "m - 1"]) auto
qed

section \<open>Concatenated segments\<close>

abbreviation seg_starts :: "'a list list \<Rightarrow> nat list" where
  "seg_starts segs \<equiv> offsets (map length segs)"

lemma sum_lengths: "sum_list (take b (map length segs)) = length (concat (take b segs))"
  by (simp add: length_concat take_map)

lemma length_concat_Suc:
  "b < length segs \<Longrightarrow> length (concat (take (Suc b) segs)) = length (concat (take b segs)) + length (segs ! b)"
  by (simp add: take_Suc_conv_app_nth)

lemma segment_take_drop:
  assumes "b < length segs"
  shows "take (seg_starts segs ! Suc b - seg_starts segs ! b) (drop (seg_starts segs ! b) (concat segs)) = segs ! b"
proof -
  have "concat segs = concat (take b segs) @ segs ! b @ concat (drop (Suc b) segs)"
    using assms by (metis append_take_drop_id concat.simps(2) concat_append Cons_nth_drop_Suc)
  then show ?thesis using assms by (simp add: sum_lengths length_concat_Suc)
qed

lemma segment_nth:
  assumes "b < length segs" and "j < length (segs ! b)"
  shows "concat segs ! (seg_starts segs ! b + j) = segs ! b ! j"
proof -
  have "concat segs = concat (take b segs) @ segs ! b @ concat (drop (Suc b) segs)"
    using assms by (metis append_take_drop_id concat.simps(2) concat_append Cons_nth_drop_Suc)
  then show ?thesis using assms by (simp add: sum_lengths nth_append)
qed

lemma segment_map:
  assumes "b < length segs"
  shows "segs ! b = map ((!) (concat segs)) [seg_starts segs ! b..<seg_starts segs ! Suc b]"
proof (rule nth_equalityI)
  have len: "seg_starts segs ! Suc b = seg_starts segs ! b + length (segs ! b)"
    using assms by (simp add: sum_take_Suc)
  then show "length (segs ! b) = length (map ((!) (concat segs)) [seg_starts segs ! b..<seg_starts segs ! Suc b])"
    by simp
  show "segs ! b ! j = map ((!) (concat segs)) [seg_starts segs ! b..<seg_starts segs ! Suc b] ! j"
    if "j < length (segs ! b)" for j
    using segment_nth[OF assms that] that len by simp
qed

lemma segment_update:
  assumes "b < length segs" and "length seg = length (segs ! b)"
  shows "take (seg_starts segs ! b) (concat segs) @ seg @ drop (seg_starts segs ! Suc b) (concat segs)
    = concat (segs[b := seg])" and "seg_starts (segs[b := seg]) = seg_starts segs"
proof -
  have c: "concat segs = concat (take b segs) @ segs ! b @ concat (drop (Suc b) segs)"
    using assms by (metis append_take_drop_id concat.simps(2) concat_append Cons_nth_drop_Suc)
  have "concat (segs[b := seg]) = concat (take b segs) @ seg @ concat (drop (Suc b) segs)"
    using assms by (simp add: upd_conv_take_nth_drop)
  then show "take (seg_starts segs ! b) (concat segs) @ seg @ drop (seg_starts segs ! Suc b) (concat segs)
    = concat (segs[b := seg])"
    using assms by (subst (1 2) c) (simp add: sum_lengths length_concat_Suc)
  have "map length (segs[b := seg]) = map length segs"
    using assms by (simp add: map_update list_update_same_conv)
  then show "seg_starts (segs[b := seg]) = seg_starts segs" by simp
qed

text \<open>A list that has the right elements at the offsets is the concatenation.\<close>

lemma eq_concat:
  assumes "length xs = sum_list (map length segs)"
    and "\<And>b j. b < length segs \<Longrightarrow> j < length (segs ! b) \<Longrightarrow> xs ! (seg_starts segs ! b + j) = segs ! b ! j"
  shows "xs = concat segs"
proof (rule nth_equalityI)
  show "length xs = length (concat segs)" using assms(1) by (simp add: length_concat)
  fix p assume "p < length xs"
  then have "p < sum_list (map length segs)" using assms(1) by simp
  then obtain b where b: "b < length (map length segs)" "seg_starts segs ! b \<le> p" "p < seg_starts segs ! Suc b"
    by (rule offsets_locate)
  define j where "j = p - seg_starts segs ! b"
  have "j < length (segs ! b)" using b by (simp add: j_def sum_take_Suc)
  moreover have "p = seg_starts segs ! b + j" using b by (simp add: j_def)
  ultimately show "xs ! p = concat segs ! p" using b(1) assms(2)[of b j] segment_nth[of b segs j] by simp
qed

section \<open>Placing slots through fill pointers\<close>

lemma offset_position:
  assumes "b < length counts" and "j < counts ! b"
  shows "offsets counts ! b + j < sum_list counts"
  using assms sum_take_Suc[of b counts] sum_take_le[of "Suc b" counts] by simp

lemma offset_position_inj:
  assumes "b < length counts" "j < counts ! b" and "b' < length counts" "j' < counts ! b'"
    and eq: "offsets counts ! b + j = offsets counts ! b' + j'"
  shows "b = b' \<and> j = j'"
proof -
  have "False" if "c < c'" "c' < length counts" "i < counts ! c" "offsets counts ! c + i = offsets counts ! c' + i'" for c c' i i'
    using offsets_mono[of "Suc c" c' counts] sum_take_Suc[of c counts] that by simp
  from this[of b b' j j'] this[of b' b j' j] show ?thesis using assms by (cases b b' rule: linorder_cases) auto
qed

lemma offsets_butlast_nth: "b < length counts \<Longrightarrow> butlast (offsets counts) ! b = offsets counts ! b"
  by (simp add: nth_butlast)

text \<open>After placing the slots \<open>L\<close>, bucket \<open>b\<close> holds those of them with bucket id \<open>b\<close>, in order.\<close>

abbreviation bucket_slots :: "nat list \<Rightarrow> nat list \<Rightarrow> nat \<Rightarrow> nat list" where
  "bucket_slots B L b \<equiv> filter (\<lambda>s. B ! s = b) L"

lemma place_fold:
  assumes "length order0 = sum_list counts"
    and "\<And>s. s \<in> set L \<Longrightarrow> B ! s < length counts \<and> s < 2 ^ 32"
    and "\<And>b. b < length counts \<Longrightarrow> length (bucket_slots B L b) \<le> counts ! b"
  shows "\<exists>order. fold (place B) L (butlast (offsets counts), order0)
      = (map (\<lambda>b. offsets counts ! b + length (bucket_slots B L b)) [0..<length counts], order)
    \<and> length order = sum_list counts
    \<and> (\<forall>b<length counts. \<forall>j<length (bucket_slots B L b).
         order ! (offsets counts ! b + j) = bucket_slots B L b ! j)"
  using assms
proof (induction L rule: rev_induct)
  case Nil
  have "butlast (offsets counts) = map (\<lambda>b. offsets counts ! b) [0..<length counts]"
    by (rule nth_equalityI) (simp_all add: offsets_butlast_nth)
  then show ?case using Nil by simp
next
  case (snoc s L)
  let ?n = "length counts" and ?b = "B ! s"
  let ?fill = "map (\<lambda>b. offsets counts ! b + length (bucket_slots B L b)) [0..<?n]"
  have cap: "length (bucket_slots B L b) \<le> counts ! b" if "b < ?n" for b
    using snoc.prems(3)[OF that] by (simp split: if_splits)
  obtain order where f: "fold (place B) L (butlast (offsets counts), order0) = (?fill, order)"
    and len: "length order = sum_list counts"
    and IH: "\<And>b j. b < ?n \<Longrightarrow> j < length (bucket_slots B L b) \<Longrightarrow>
        order ! (offsets counts ! b + j) = bucket_slots B L b ! j"
    using snoc.IH[OF snoc.prems(1)] snoc.prems(2) cap by auto
  have b: "?b < ?n" and s: "s < 2 ^ 32" using snoc.prems(2)[of s] by auto
  have room: "length (bucket_slots B L ?b) < counts ! ?b" using snoc.prems(3)[OF b] by simp
  let ?at = "offsets counts ! ?b + length (bucket_slots B L ?b)"
  have at: "?fill ! ?b = ?at" using b by simp
  have "fold (place B) (L @ [s]) (butlast (offsets counts), order0) = (?fill[?b := ?at + 1], order[?at := s])"
    using b s by (simp add: f place_def Let_def slot_cast_def)
  moreover have "?fill[?b := ?at + 1]
      = map (\<lambda>b. offsets counts ! b + length (bucket_slots B (L @ [s]) b)) [0..<?n]"
    by (rule nth_equalityI) (auto simp: nth_list_update)
  moreover have "order[?at := s] ! (offsets counts ! b + j) = bucket_slots B (L @ [s]) b ! j"
    if bj: "b < ?n" "j < length (bucket_slots B (L @ [s]) b)" for b j
  proof (cases "b = ?b \<and> j = length (bucket_slots B L b)")
    case True
    then have "?at < length order" using offset_position[OF b room] len by simp
    then show ?thesis using True by (auto simp: nth_append)
  next
    case False
    have j: "j < length (bucket_slots B L b)" using bj False by (auto split: if_splits)
    have "j < counts ! b" using snoc.prems(3)[OF bj(1)] bj(2) by linarith
    then have "offsets counts ! b + j \<noteq> ?at"
      using offset_position_inj[OF bj(1) _ b room, of j] False by auto
    moreover have "bucket_slots B (L @ [s]) b ! j = bucket_slots B L b ! j" using j by (simp add: nth_append)
    ultimately show ?thesis using IH[OF bj(1) j] by simp
  qed
  ultimately show ?case using len by auto
qed

lemma place_all:
  assumes "length order0 = sum_list counts"
    and "\<And>s. s \<in> set L \<Longrightarrow> B ! s < length counts \<and> s < 2 ^ 32"
    and "\<And>b. b < length counts \<Longrightarrow> length (bucket_slots B L b) = counts ! b"
  shows "snd (fold (place B) L (butlast (offsets counts), order0))
      = concat (map (bucket_slots B L) [0..<length counts])"
    and "seg_starts (map (bucket_slots B L) [0..<length counts]) = offsets counts"
proof -
  let ?segs = "map (bucket_slots B L) [0..<length counts]"
  have lens: "map length ?segs = counts" using assms(3) by (intro nth_equalityI) auto
  then show starts: "seg_starts ?segs = offsets counts" by simp
  obtain order where f: "snd (fold (place B) L (butlast (offsets counts), order0)) = order"
    and len: "length order = sum_list counts"
    and at: "\<And>b j. b < length counts \<Longrightarrow> j < length (bucket_slots B L b) \<Longrightarrow>
         order ! (offsets counts ! b + j) = bucket_slots B L b ! j"
    using place_fold[OF assms(1,2)] assms(3) by fastforce
  have "order = concat ?segs"
    using len at by (intro eq_concat) (simp_all only: lens, simp_all)
  then show "snd (fold (place B) L (butlast (offsets counts), order0)) = concat ?segs" using f by simp
qed

section \<open>The loop of \<open>regroup\<close> over the old order\<close>

text \<open>
  Keeping the slots that did not move is placing them; the sorted prefix of every bucket
  shrinks by the moved slots in it, and the moved slots are deferred in order.
\<close>

lemma place_pair: "place B s fo = (fst (place B s fo), snd (place B s fo))"
  by simp

lemma keep_segment:
  assumes order: "ks_order st = concat segs" and start: "ks_start st = seg_starts segs" and b: "b < length segs"
    and home: "\<And>s. s \<in> set (segs ! b) \<Longrightarrow> \<not> ks_moved st ! s \<Longrightarrow> ks_buckets st ! s = b \<and> s < 2 ^ 32"
    and m: "m \<le> length (segs ! b)" and sl: "b < length sl"
  shows "fold (keep_step st b) [seg_starts segs ! b..<seg_starts segs ! b + m] (fill, sl, order0, deferred)
    = (let kept = filter (\<lambda>s. \<not> ks_moved st ! s) (take m (segs ! b));
           (fill, order0) = fold (place (ks_buckets st)) kept (fill, order0)
       in (fill, sl[b := sl ! b + length (filter (\<lambda>s. \<not> ks_moved st ! s) (take (min m (ks_sorted_len st ! b)) (segs ! b)))],
           order0, deferred @ filter ((!) (ks_moved st)) (take m (segs ! b))))"
  using m
proof (induction m)
  case 0
  then show ?case by simp
next
  case (Suc m)
  let ?nm = "\<lambda>s. \<not> ks_moved st ! s" and ?s = "segs ! b ! m" and ?len = "ks_sorted_len st ! b"
  have at: "concat segs ! (seg_starts segs ! b + m) = ?s" using segment_nth[OF b] Suc.prems by simp
  have mem: "?s \<in> set (segs ! b)" using Suc.prems by simp
  have tk: "take (Suc m) (segs ! b) = take m (segs ! b) @ [?s]"
    using Suc.prems by (simp add: take_Suc_conv_app_nth)
  have mn: "take (min (Suc m) ?len) (segs ! b) = take (min m ?len) (segs ! b) @ (if m < ?len then [?s] else [])"
    using Suc.prems tk by (simp add: min_def)
  have st_b: "ks_start st ! b = seg_starts segs ! b" by (simp add: start)
  obtain fill' order' where f: "fold (place (ks_buckets st)) (filter ?nm (take m (segs ! b))) (fill, order0) = (fill', order')"
    by fastforce
  show ?case
  proof (cases "ks_moved st ! ?s")
    case True
    then show ?thesis using Suc at tk mn st_b
      by (simp add: f keep_step_def order start Let_def)
  next
    case False
    then have hm: "ks_buckets st ! ?s = b" "slot_cast ?s = ?s" using home[OF mem] by (auto simp: slot_cast_def)
    have "place (ks_buckets st) ?s (fill', order') = (fill'[b := fill' ! b + 1], order'[fill' ! b := ?s])"
      using hm by (simp add: place_def)
    then show ?thesis using Suc False at tk mn st_b sl
      by (simp add: f keep_step_def order start Let_def)
  qed
qed

lemma keep_loop:
  assumes order: "ks_order st = concat segs" and start: "ks_start st = seg_starts segs"
    and home: "\<And>b s. b < length segs \<Longrightarrow> s \<in> set (segs ! b) \<Longrightarrow> \<not> ks_moved st ! s \<Longrightarrow> ks_buckets st ! s = b \<and> s < 2 ^ 32"
    and k: "k \<le> length segs"
  shows "fold (\<lambda>b. fold (keep_step st b) [ks_start st ! b..<ks_start st ! Suc b]) [0..<k]
      (fill, replicate (length segs) 0, order0, [])
    = (let (fill, order0) = fold (place (ks_buckets st)) (filter (\<lambda>s. \<not> ks_moved st ! s) (concat (take k segs))) (fill, order0)
       in (fill, map (\<lambda>b. if b < k then length (filter (\<lambda>s. \<not> ks_moved st ! s) (take (ks_sorted_len st ! b) (segs ! b))) else 0)
                   [0..<length segs],
           order0, filter ((!) (ks_moved st)) (concat (take k segs))))"
  using k
proof (induction k)
  case 0
  show ?case by (simp add: map_replicate_const)
next
  case (Suc k)
  let ?nm = "\<lambda>s. \<not> ks_moved st ! s"
  let ?sl = "\<lambda>k. map (\<lambda>b. if b < k then length (filter ?nm (take (ks_sorted_len st ! b) (segs ! b))) else 0) [0..<length segs]"
  have b: "k < length segs" using Suc.prems by simp
  obtain fill' order' where f:
    "fold (place (ks_buckets st)) (filter ?nm (concat (take k segs))) (fill, order0) = (fill', order')"
    by fastforce
  have IH: "fold (\<lambda>b. fold (keep_step st b) [ks_start st ! b..<ks_start st ! Suc b]) [0..<k]
      (fill, replicate (length segs) 0, order0, []) = (fill', ?sl k, order', filter ((!) (ks_moved st)) (concat (take k segs)))"
    using Suc by (simp add: f)
  have range: "[ks_start st ! k..<ks_start st ! Suc k] = [seg_starts segs ! k..<seg_starts segs ! k + length (segs ! k)]"
    using b by (simp add: start sum_take_Suc)
  have sl: "(?sl k)[k := length (filter ?nm (take (min (length (segs ! k)) (ks_sorted_len st ! k)) (segs ! k)))] = ?sl (Suc k)"
    using b by (intro nth_equalityI) (auto simp: nth_list_update less_Suc_eq min_def)
  show ?case
    using keep_segment[OF order start b home[OF b] order_refl, of "?sl k" fill' order'] b
    by (simp add: IH range sl take_Suc_conv_app_nth f split: prod.splits)
qed

section \<open>Filtering the order in place\<close>

abbreviation renumber :: "nat option list \<Rightarrow> nat list \<Rightarrow> nat list" where
  "renumber remap \<equiv> List.map_filter (\<lambda>s. remap ! s)"

lemma map_filter_append: "List.map_filter f (xs @ ys) = List.map_filter f xs @ List.map_filter f ys"
  by (simp add: List.map_filter_def)

lemma map_filter_concat: "List.map_filter f (concat xss) = concat (map (List.map_filter f) xss)"
  by (induction xss) (simp_all add: map_filter_append List.map_filter_def)

lemma filter_fold:
  assumes "out \<le> p" and "p + m \<le> length xs"
  shows "\<exists>xs'. fold (filter_step remap pe) [p..<p + m] (out, srt, xs)
      = (out + length (renumber remap (take m (drop p xs))),
         srt + length (renumber remap (take (min m (pe - p)) (drop p xs))), xs')
    \<and> length xs' = length xs
    \<and> take (out + length (renumber remap (take m (drop p xs)))) xs' = take out xs @ renumber remap (take m (drop p xs))
    \<and> drop (p + m) xs' = drop (p + m) xs"
  using assms(2)
proof (induction m)
  case 0
  show ?case by (simp add: List.map_filter_def)
next
  case (Suc m)
  let ?ms = "renumber remap (take m (drop p xs))" and ?s = "xs ! (p + m)"
  obtain xs' where f: "fold (filter_step remap pe) [p..<p + m] (out, srt, xs)
      = (out + length ?ms, srt + length (renumber remap (take (min m (pe - p)) (drop p xs))), xs')"
    and len: "length xs' = length xs" and tk: "take (out + length ?ms) xs' = take out xs @ ?ms"
    and dr: "drop (p + m) xs' = drop (p + m) xs"
    using Suc by auto
  have pm: "p + m < length xs" using Suc.prems by simp
  have s: "xs' ! (p + m) = ?s" using dr pm len by (metis drop_eq_nths hd_drop_conv_nth)
  have ms: "length ?ms \<le> m" by (simp add: List.map_filter_def order.trans[OF length_filter_le])
  have tS: "take (Suc m) (drop p xs) = take m (drop p xs) @ [?s]"
    using pm by (simp add: take_Suc_conv_app_nth)
  have tm: "take (min (Suc m) (pe - p)) (drop p xs)
      = take (min m (pe - p)) (drop p xs) @ (if p + m < pe then [?s] else [])"
  proof (cases "p + m < pe")
    case True
    then have "min (Suc m) (pe - p) = Suc m" "min m (pe - p) = m" by simp_all
    then show ?thesis using tS True by simp
  next
    case False
    then have "min (Suc m) (pe - p) = min m (pe - p)" by simp
    then show ?thesis using False by simp
  qed
  have dr': "drop (p + Suc m) xs' = drop (p + Suc m) xs"
    using arg_cong[OF dr, of "drop 1"] by simp
  show ?case
  proof (cases "remap ! ?s")
    case None
    then have "filter_step remap pe (p + m) (a, b, xs') = (a, b, xs')" for a b
      using s by (simp add: filter_step_def)
    moreover have "renumber remap [?s] = []" using None by (simp add: List.map_filter_def)
    ultimately show ?thesis using f len tk dr' by (simp add: tS tm map_filter_append List.map_filter_simps(2))
  next
    case (Some t)
    have at: "out + length ?ms < length xs'" using ms assms(1) pm len by simp
    have "filter_step remap pe (p + m) (a, b, xs') = (Suc a, if p + m < pe then Suc b else b, xs'[a := t])" for a b
      using s Some by (simp add: filter_step_def)
    moreover have "take (Suc (out + length ?ms)) (xs'[out + length ?ms := t]) = take out xs @ ?ms @ [t]"
      using at tk by (simp add: take_Suc_conv_app_nth)
    moreover have "drop (p + Suc m) (xs'[out + length ?ms := t]) = drop (p + Suc m) xs"
      using ms assms(1) dr' by (simp add: drop_update_cancel)
    moreover have "renumber remap [?s] = [t]" using Some by (simp add: List.map_filter_def)
    ultimately show ?thesis using f len by (simp add: tS tm map_filter_append List.map_filter_simps(2))
  qed
qed

lemma filter_buckets:
  assumes start: "ks_start st = seg_starts segs" and "length sl = length segs" and "k \<le> length segs"
  shows "\<exists>xs. fold (filter_bucket st remap) [0..<k] (0, concat segs, replicate (Suc (length segs)) 0, sl)
      = (length (concat (map (renumber remap) (take k segs))), xs,
         seg_starts (map (renumber remap) (take k segs)) @ replicate (length segs - k) 0,
         map (\<lambda>b. if b < k then length (renumber remap (take (sl ! b) (segs ! b))) else sl ! b) [0..<length segs])
    \<and> length xs = length (concat segs)
    \<and> take (length (concat (map (renumber remap) (take k segs)))) xs = concat (map (renumber remap) (take k segs))
    \<and> drop (seg_starts segs ! k) xs = drop (seg_starts segs ! k) (concat segs)"
  using assms(3)
proof (induction k)
  case 0
  have "map (\<lambda>b. sl ! b) [0..<length segs] = sl" using assms(2) map_nth[of sl] by simp
  then show ?case by simp
next
  case (Suc k)
  let ?ren = "renumber remap" and ?n = "length segs"
  let ?done = "concat (map ?ren (take k segs))" and ?p = "seg_starts segs ! k" and ?seg = "segs ! k"
  let ?sl = "\<lambda>k. map (\<lambda>b. if b < k then length (?ren (take (sl ! b) (segs ! b))) else sl ! b) [0..<?n]"
  let ?st = "\<lambda>k. seg_starts (map ?ren (take k segs)) @ replicate (?n - k) 0"
  obtain xs where f: "fold (filter_bucket st remap) [0..<k] (0, concat segs, replicate (Suc ?n) 0, sl)
      = (length ?done, xs, ?st k, ?sl k)"
    and len: "length xs = length (concat segs)" and tk: "take (length ?done) xs = ?done"
    and dr: "drop ?p xs = drop ?p (concat segs)"
    using Suc by auto
  have k: "k < ?n" using Suc.prems by simp
  have range: "[ks_start st ! k..<ks_start st ! Suc k] = [?p..<?p + length ?seg]"
    using k by (simp add: start sum_take_Suc)
  have p: "?p = length (concat (take k segs))" using k by (simp add: sum_lengths)
  have "length ?done \<le> ?p"
    unfolding p map_filter_concat[symmetric] by (simp add: List.map_filter_def order.trans[OF length_filter_le])
  moreover have "?p + length ?seg \<le> length xs"
    using sum_take_le[of "Suc k" "map length segs"] k by (simp add: len length_concat sum_take_Suc)
  moreover have seg: "take (length ?seg) (drop ?p xs) = ?seg"
  proof -
    have "seg_starts segs ! Suc k - ?p = length ?seg" using k by (simp add: sum_take_Suc)
    then show ?thesis using segment_take_drop[OF k] by (simp only: dr)
  qed
  moreover have pre: "take (min (length ?seg) (ks_start st ! k + sl ! k - ?p)) (drop ?p xs) = take (sl ! k) ?seg"
    using seg k by (simp add: start) (metis min.commute take_take)
  ultimately obtain xs' where g: "fold (filter_step remap (ks_start st ! k + sl ! k)) [?p..<?p + length ?seg] (length ?done, 0, xs)
      = (length ?done + length (?ren ?seg), length (?ren (take (sl ! k) ?seg)), xs')"
    and len': "length xs' = length xs" and tk': "take (length ?done + length (?ren ?seg)) xs' = ?done @ ?ren ?seg"
    and dr': "drop (?p + length ?seg) xs' = drop (?p + length ?seg) xs"
    using filter_fold[of "length ?done" ?p "length ?seg" xs remap "ks_start st ! k + sl ! k" 0] tk by auto
  have "?sl k ! k = sl ! k" using k by simp
  then have step: "filter_bucket st remap k (length ?done, xs, ?st k, ?sl k)
      = (length ?done + length (?ren ?seg), xs', (?st k)[Suc k := length ?done + length (?ren ?seg)],
         (?sl k)[k := length (?ren (take (sl ! k) ?seg))])"
    using g by (simp add: filter_bucket_def Let_def range del: upt_Suc)
  have "?n - k = Suc (?n - Suc k)" using k by simp
  then have "(?st k)[Suc k := length ?done + length (?ren ?seg)] = ?st (Suc k)"
    using k by (simp add: take_Suc_conv_app_nth offsets_snoc length_concat list_update_append)
  moreover have "(?sl k)[k := length (?ren (take (sl ! k) ?seg))] = ?sl (Suc k)"
    using k by (intro nth_equalityI) (auto simp: nth_list_update)
  moreover have "concat (map ?ren (take (Suc k) segs)) = ?done @ ?ren ?seg"
    using k by (simp add: take_Suc_conv_app_nth)
  moreover have "?p + length ?seg = seg_starts segs ! Suc k" using k by (simp add: sum_take_Suc)
  moreover have "drop (?p + length ?seg) xs = drop (?p + length ?seg) (concat segs)"
    using arg_cong[OF dr, of "drop (length ?seg)"] by (simp add: add.commute)
  ultimately show ?case using f step tk' dr' len len' by simp
qed

end
