(* ===== verification/Key_Invariants.thy ===== *)
theory Key_Invariants
  imports Segments
begin

text \<open>
  The invariant of one sort key's state and its preservation by the private operations of
  \<open>BucketIndex\<close>: layouts and bucket assignment first, then the cached grouping. \<open>key_inv\<close> is
  the whole invariant.
\<close>

section \<open>Layouts and buckets\<close>

text \<open>The bucket an element belongs to under the current layouts.\<close>

definition home :: "'a key_state \<Rightarrow> 'a \<Rightarrow> nat" where
  "home st x =
     (let k = ks_key st; g = group_number k x
      in ks_group_offset st ! g + split_bucket k (ks_layouts st ! g) x)"

definition layouts_wf :: "'a key_state \<Rightarrow> bool" where
  "layouts_wf st \<longleftrightarrow>
     length (ks_layouts st) = sk_groups (ks_key st)
     \<and> (\<forall>g < sk_groups (ks_key st). layout_ok (ks_key st) g (ks_layouts st ! g))
     \<and> ks_group_offset st = offsets (map layout_bucket_count (ks_layouts st))
     \<and> bucket_total st \<le> 65535 \<and> length (ks_expected st) = bucket_total st"

text \<open>What relayouting relies on: a lawful sort key, elements in its domain, keys up to date.\<close>

definition key_base :: "'a list \<Rightarrow> 'a key_state \<Rightarrow> bool" where
  "key_base items st \<longleftrightarrow>
     wf_key (ks_key st) \<and> lawful_key (ks_key st) \<and> (\<forall>x\<in>set items. valid_item (ks_key st) x)
     \<and> length items < 2 ^ 32
     \<and> (has_key (ks_key st) \<longrightarrow> ks_keys st = map (key_of (ks_key st)) items)"

definition assigned :: "'a list \<Rightarrow> 'a key_state \<Rightarrow> bool" where
  "assigned items st \<longleftrightarrow>
     ks_buckets st = map (home st) items
     \<and> ks_counts st = map (\<lambda>b. length (filter (\<lambda>x. home st x = b) items)) [0..<bucket_total st]"

definition splitters_wf :: "nat \<Rightarrow> 'a key_state \<Rightarrow> bool" where
  "splitters_wf n st \<longleftrightarrow> sorted (ks_splitter_slots st) \<and> (\<forall>s\<in>set (ks_splitter_slots st). s < n)"

lemma bucket_total_sum: "layouts_wf st \<Longrightarrow> bucket_total st = sum_list (map layout_bucket_count (ks_layouts st))"
  by (simp add: layouts_wf_def bucket_total_def)

lemma layout_count_pos: "layout_ok k g ly \<Longrightarrow> 0 < layout_bucket_count ly"
  by (simp add: layout_ok_def layout_bucket_count_def)

lemma home_bounds:
  assumes "layouts_wf st" and "wf_key (ks_key st)" and "valid_item (ks_key st) x"
  shows "ks_group_offset st ! group_number (ks_key st) x \<le> home st x"
    and "home st x < ks_group_offset st ! Suc (group_number (ks_key st) x)"
    and "home st x < bucket_total st"
proof -
  let ?g = "group_number (ks_key st) x"
  have g: "?g < sk_groups (ks_key st)" using assms by (intro group_number_less)
  then have "split_bucket (ks_key st) (ks_layouts st ! ?g) x < layout_bucket_count (ks_layouts st ! ?g)"
    using assms(1) by (intro split_bucket_less[of "ks_key st" ?g]) (simp add: layouts_wf_def)
  then show lt: "home st x < ks_group_offset st ! Suc ?g" and "ks_group_offset st ! ?g \<le> home st x"
    using g assms(1) by (simp_all add: home_def layouts_wf_def Let_def sum_take_Suc)
  have "ks_group_offset st ! Suc ?g \<le> bucket_total st"
    using g assms(1) by (simp add: layouts_wf_def bucket_total_def sum_take_le)
  then show "home st x < bucket_total st" using lt by linarith
qed

lemma bucket_for_home:
  assumes "layouts_wf st" and "wf_key (ks_key st)" and "valid_item (ks_key st) x"
    and "has_key (ks_key st) \<Longrightarrow> key = key_of (ks_key st) x"
  shows "bucket_for st x key = Inr (home st x)"
proof -
  let ?k = "ks_key st"
  have g: "group_number ?k x < sk_groups ?k" using assms by (intro group_number_less)
  have len: "length (ks_layouts st) = sk_groups ?k" using assms(1) by (simp add: layouts_wf_def)
  have "(if 1 < length (ks_layouts st) then group_of ?k x else Inr 0) = Inr (group_number ?k x)"
    using g assms(3) len by (auto simp: group_of_valid)
  moreover have "(if has_key ?k then Inr (layout_bucket_of_keyed ly x key ?k) else layout_bucket_of ly x ?k)
      = layout_bucket_of ly x ?k" for ly
    using assms(4) by (simp add: layout_bucket_of_def)
  moreover have "layout_ok ?k (group_number ?k x) (ks_layouts st ! group_number ?k x)"
    using assms(1) g by (simp add: layouts_wf_def)
  then have "layout_bucket_of (ks_layouts st ! group_number ?k x) x ?k
      = Inr (split_bucket ?k (ks_layouts st ! group_number ?k x) x)"
    using assms(3) by (rule layout_bucket_of_ok)
  ultimately show ?thesis by (simp add: bucket_for_def home_def Let_def)
qed

text \<open>Buckets follow the exact order, across groups as well.\<close>

lemma home_mono:
  assumes lw: "layouts_wf st" and k: "wf_key (ks_key st)" "lawful_key (ks_key st)"
    and x: "valid_item (ks_key st) x" and y: "valid_item (ks_key st) y" and le: "order_cmp (ks_key st) x y \<le> 0"
  shows "home st x \<le> home st y"
proof -
  let ?k = "ks_key st" and ?off = "\<lambda>g. ks_group_offset st ! g"
  let ?gx = "group_number ?k x" and ?gy = "group_number ?k y"
  have g: "?gx < sk_groups ?k" "?gy < sk_groups ?k" by (rule group_number_less[OF k(1) x], rule group_number_less[OF k(1) y])
  show ?thesis
  proof (cases "?gx = ?gy")
    case True
    have "layout_ok ?k ?gy (ks_layouts st ! ?gy)" using lw g by (simp add: layouts_wf_def)
    then have "split_bucket ?k (ks_layouts st ! ?gy) x \<le> split_bucket ?k (ks_layouts st ! ?gy) y"
      by (rule split_bucket_mono[OF _ k(2) x True y refl le])
    then show ?thesis using True by (simp add: home_def Let_def)
  next
    case False
    then have "?gx < ?gy" using order_cmp_group_le[OF le] by simp
    moreover have "offsets (map layout_bucket_count (ks_layouts st)) ! Suc ?gx
        \<le> offsets (map layout_bucket_count (ks_layouts st)) ! ?gy"
      using calculation lw g by (intro offsets_mono) (simp_all add: layouts_wf_def)
    then have "?off (Suc ?gx) \<le> ?off ?gy" using lw by (simp add: layouts_wf_def)
    then show ?thesis using home_bounds(2)[OF lw k(1) x] home_bounds(1)[OF lw k(1) y] by linarith
  qed
qed

lemma home_less:
  assumes "layouts_wf st" and "wf_key (ks_key st)" "lawful_key (ks_key st)"
    and "valid_item (ks_key st) x" and "valid_item (ks_key st) y" and "home st x < home st y"
  shows "order_cmp (ks_key st) x y < 0"
  using home_mono[OF assms(1-3,5,4)] assms(6) three_way.cmp_not_less[OF assms(3)[unfolded lawful_key_def]]
  by (meson not_le)

lemma home_group:
  assumes "layouts_wf st" and "wf_key (ks_key st)"
    and "valid_item (ks_key st) x" and "valid_item (ks_key st) y" and "home st x = home st y"
  shows "group_number (ks_key st) x = group_number (ks_key st) y"
proof (rule ccontr)
  let ?k = "ks_key st"
  have *: False if v: "valid_item ?k a" "valid_item ?k b" "group_number ?k a < group_number ?k b" "home st a = home st b" for a b
  proof -
    have "group_number ?k b < sk_groups ?k" by (rule group_number_less[OF assms(2) v(2)])
    then have "ks_group_offset st ! Suc (group_number ?k a) \<le> ks_group_offset st ! group_number ?k b"
      using v(3) assms(1) offsets_mono[of "Suc (group_number ?k a)" "group_number ?k b" "map layout_bucket_count (ks_layouts st)"]
      by (simp add: layouts_wf_def)
    then show False using home_bounds(2)[OF assms(1,2) v(1)] home_bounds(1)[OF assms(1,2) v(2)] v(4) by linarith
  qed
  assume "group_number ?k x \<noteq> group_number ?k y"
  then show False using *[of x y] *[of y x] assms by (metis nat_neq_iff)
qed

section \<open>Estimating the layouts of all groups\<close>

abbreviation group_slots :: "'a sort_key \<Rightarrow> 'a list \<Rightarrow> nat \<Rightarrow> nat list" where
  "group_slots k items g \<equiv> filter (\<lambda>s. group_number k (items ! s) = g) [0..<length items]"

lemma member_loop:
  assumes "wf_key k" and "\<forall>x\<in>set items. valid_item k x"
  shows "for_do (member_step k items) [0..<length items] (replicate (sk_groups k) [])
    = (Inr (), map (group_slots k items) [0..<sk_groups k])"
proof -
  let ?G = "sk_groups k"
  let ?done = "\<lambda>m. map (\<lambda>g. filter (\<lambda>s. group_number k (items ! s) = g) [0..<m]) [0..<?G]"
  have "for_do (member_step k items) [0..<m] (replicate ?G []) = (Inr (), ?done m)" if "m \<le> length items" for m
    using that
  proof (induction m)
    case 0
    show ?case by (simp add: map_replicate_const)
  next
    case (Suc m)
    have v: "valid_item k (items ! m)" using assms(2) Suc.prems by simp
    have g: "group_number k (items ! m) < ?G" by (rule group_number_less[OF assms(1) v])
    have "(?done m)[group_number k (items ! m) := ?done m ! group_number k (items ! m) @ [m]] = ?done (Suc m)"
      using g by (intro nth_equalityI) (auto simp: nth_list_update)
    then show ?case using Suc v by (simp add: for_do_append member_step_def group_of_valid)
  qed
  from this[of "length items"] show ?thesis by simp
qed

lemma sum_list_bounded: "(\<And>x. x \<in> set xs \<Longrightarrow> x \<le> c) \<Longrightarrow> sum_list xs \<le> length xs * c" for c :: nat
  by (induction xs) (auto intro: add_mono)

definition layouts_estimated :: "'a sort_key \<Rightarrow> nat \<Rightarrow> 'a layout list \<Rightarrow> bool" where
  "layouts_estimated k n ls \<longleftrightarrow>
     length ls = sk_groups k \<and> (\<forall>g < sk_groups k. layout_ok k g (ls ! g))
     \<and> sum_list (map layout_bucket_count ls) \<le> 65535
     \<and> (\<forall>ly\<in>set ls. \<forall>p\<in>set (splitter_positions ly). p < n)"

lemma estimate_layouts_ok:
  assumes base: "key_base items st" and plan: "wf_plan plan"
  shows "\<exists>ls. estimate_layouts st items plan = Inr ls \<and> layouts_estimated (ks_key st) (length items) ls"
proof -
  let ?k = "ks_key st" and ?n = "length items"
  have k: "wf_key ?k" "lawful_key ?k" and valid: "\<forall>x\<in>set items. valid_item ?k x" and small: "?n < 2 ^ 32"
    and keys: "has_key ?k \<Longrightarrow> i < ?n \<Longrightarrow> ks_keys st ! i = key_of ?k (items ! i)" for i
    using base by (auto simp: key_base_def)
  show ?thesis
  proof (cases "sk_groups ?k = 1")
    case True
    have "group_number ?k x = 0" if "x \<in> set items" for x
      using group_number_less[OF k(1), of x] valid that True by simp
    then have samp: "sampled ?k items (ks_keys st) 0 (set (estimate_domain items None))"
      using valid keys by (auto simp: sampled_def estimate_domain_def)
    have "length (estimate_domain items None) < 2 ^ 32" using small by (simp add: estimate_domain_def)
    from estimate_ok[OF k(2) plan this samp] obtain ly where est: "estimate ?k items (ks_keys st) plan None = Inr ly"
      and ok: "layout_ok ?k 0 ly" "layout_bucket_count ly \<le> max_buckets plan"
        "set (splitter_positions ly) \<subseteq> set (estimate_domain items None)" by blast
    have "layouts_estimated ?k ?n [ly]"
      using ok plan True by (auto simp: layouts_estimated_def wf_plan_def max_bucket_limit_def estimate_domain_def)
    then show ?thesis using True est by (simp add: estimate_layouts_def)
  next
    case False
    let ?G = "sk_groups ?k" and ?m = "min (max_buckets plan) (max_bucket_limit div sk_groups ?k)"
    let ?pg = "plan\<lparr>max_buckets := ?m\<rparr>"
    have G: "1 \<le> ?G" "?G \<le> 256" using k(1) by (auto simp: wf_key_def max_groups_def)
    have "65535 div 256 \<le> (65535::nat) div ?G" using G by (intro div_le_mono2) auto
    then have m1: "1 \<le> max_bucket_limit div ?G" by (simp add: max_bucket_limit_def)
    have "?m \<le> max_bucket_limit" using div_le_dividend[of max_bucket_limit ?G] by linarith
    moreover have m: "1 \<le> ?m" using plan m1 by (simp add: wf_plan_def)
    ultimately have wm: "with_max_buckets plan ?m = Inr ?pg" and wpg: "wf_plan ?pg"
      using plan by (simp_all add: with_max_buckets_def require_positive_def wf_plan_def min_def)
    let ?est = "\<lambda>slots. estimate ?k items (ks_keys st) ?pg (Some slots)"
    let ?ls = "map (\<lambda>slots. projr (?est slots)) (map (group_slots ?k items) [0..<?G])"
    have ok: "?est (group_slots ?k items g) = Inr (?ls ! g) \<and> layout_ok ?k g (?ls ! g) \<and> layout_bucket_count (?ls ! g) \<le> ?m
        \<and> set (splitter_positions (?ls ! g)) \<subseteq> {..<?n}" if "g < ?G" for g
    proof -
      have samp: "sampled ?k items (ks_keys st) g (set (estimate_domain items (Some (group_slots ?k items g))))"
        using valid keys by (auto simp: sampled_def estimate_domain_def)
      have "length (group_slots ?k items g) \<le> ?n" using length_filter_le[of _ "[0..<?n]"] by simp
      then have "length (estimate_domain items (Some (group_slots ?k items g))) < 2 ^ 32"
        using small by (simp add: estimate_domain_def)
      from estimate_ok[OF k(2) wpg this samp] show ?thesis using that by (auto simp: estimate_domain_def)
    qed
    define ls where "ls = ?ls"
    define m where "m = ?m"
    have ls: "layout_ok ?k g (ls ! g)" "layout_bucket_count (ls ! g) \<le> m"
      "set (splitter_positions (ls ! g)) \<subseteq> {..<?n}" if "g < ?G" for g
      using ok[OF that] unfolding ls_def m_def by blast+
    have "map_exn ?est (map (group_slots ?k items) [0..<?G]) = Inr ls"
      unfolding ls_def by (rule map_exn_ok) (use ok in auto)
    note estimated = this
    have len: "length ls = ?G" by (simp add: ls_def)
    have "x \<le> m" if "x \<in> set (map layout_bucket_count ls)" for x
      using that ls(2) len by (auto simp: in_set_conv_nth)
    then have "sum_list (map layout_bucket_count ls) \<le> length (map layout_bucket_count ls) * m"
      by (rule sum_list_bounded)
    also have "\<dots> \<le> ?G * (max_bucket_limit div ?G)" by (simp add: len m_def)
    also have "\<dots> \<le> 65535" using times_div_less_eq_dividend[of ?G max_bucket_limit] by (simp add: max_bucket_limit_def)
    finally have sum: "sum_list (map layout_bucket_count ls) \<le> 65535" .
    have "p < ?n" if "ly \<in> set ls" "p \<in> set (splitter_positions ly)" for ly p
    proof -
      from that(1) len obtain g where g: "g < ?G" "ls ! g = ly" by (auto simp: in_set_conv_nth)
      have "p \<in> {..<?n}" using ls(3)[OF g(1)] that(2) unfolding g(2) by (rule subsetD)
      then show ?thesis by simp
    qed
    then have "layouts_estimated ?k ?n ls" using ls(1) sum len by (simp add: layouts_estimated_def)
    moreover have "estimate_layouts st items plan = Inr ls"
      using False member_loop[OF k(1) valid] wm estimated by (simp add: estimate_layouts_def Let_def)
    ultimately show ?thesis by blast
  qed
qed

section \<open>The invariant\<close>

text \<open>
  The cached grouping: \<open>segs\<close> are the buckets' slots. Slots not yet in the order are those
  from \<open>ks_ordered_slots\<close> on; a moved slot may sit in the wrong bucket until \<open>regroup\<close>.
\<close>

definition grouping :: "'a list \<Rightarrow> 'a key_state \<Rightarrow> nat list list \<Rightarrow> bool" where
  "grouping items st segs \<longleftrightarrow>
     length segs = bucket_total st \<and> ks_order st = concat segs \<and> ks_start st = seg_starts segs
     \<and> mset (ks_order st) = mset [0..<ks_ordered_slots st] \<and> ks_ordered_slots st \<le> length items
     \<and> length (ks_moved st) = ks_ordered_slots st \<and> length (ks_sorted_len st) = bucket_total st
     \<and> (\<forall>b<bucket_total st. ks_sorted_len st ! b \<le> length (segs ! b)
           \<and> (\<forall>s\<in>set (segs ! b). \<not> ks_moved st ! s \<longrightarrow> ks_buckets st ! s = b)
           \<and> sorted_wrt (tie_slot (item_less (ks_key st) items))
                (filter (\<lambda>s. \<not> ks_moved st ! s) (take (ks_sorted_len st ! b) (segs ! b))))"

definition settled :: "nat \<Rightarrow> 'a key_state \<Rightarrow> bool" where
  "settled n st \<longleftrightarrow> ks_ordered_slots st = n \<and> ks_moved st = replicate n False"

definition key_inv :: "'a list \<Rightarrow> 'a key_state \<Rightarrow> bool" where
  "key_inv items st \<longleftrightarrow>
     key_base items st \<and> layouts_wf st \<and> assigned items st \<and> splitters_wf (length items) st
     \<and> (ks_has_order st \<longrightarrow> (\<exists>segs. grouping items st segs)
          \<and> (\<not> ks_order_stale st \<longrightarrow> settled (length items) st))"

section \<open>Relayout\<close>

lemma fold_add_layout:
  "fold add_layout ls st =
     st\<lparr>ks_group_offset := ks_group_offset st
          @ map (\<lambda>i. last (ks_group_offset st) + sum_list (map layout_bucket_count (take (Suc i) ls))) [0..<length ls],
        ks_expected := ks_expected st @ concat (map expected_sizes ls),
        ks_splitter_slots := ks_splitter_slots st @ concat (map (\<lambda>ly. map slot_cast (splitter_positions ly)) ls)\<rparr>"
proof (induction ls rule: rev_induct)
  case (snoc ly ls)
  have "last (ks_group_offset st
       @ map (\<lambda>i. last (ks_group_offset st) + sum_list (map layout_bucket_count (take (Suc i) ls))) [0..<length ls])
     = last (ks_group_offset st) + sum_list (map layout_bucket_count ls)"
    by (cases ls rule: rev_cases) (simp_all add: last_append)
  then show ?case using snoc by (simp add: add_layout_def)
qed simp

lemma install_layouts_eq:
  "install_layouts ls items st =
     (let slots = sort (concat (map (\<lambda>ly. map slot_cast (splitter_positions ly)) ls));
          total = sum_list (map layout_bucket_count ls)
      in st\<lparr>ks_layouts := ls, ks_group_offset := offsets (map layout_bucket_count ls),
            ks_expected := concat (map expected_sizes ls), ks_splitter_slots := slots,
            ks_splitter_changed := False, ks_estimated_from := length items,
            ks_counts := replicate total 0, ks_buckets := resize (length items) 0 (ks_buckets st)\<rparr>)"
proof -
  have off: "0 # map (\<lambda>i. sum_list (map layout_bucket_count (take (Suc i) ls))) [0..<length ls]
      = offsets (map layout_bucket_count ls)"
    by (rule nth_equalityI) (simp_all add: nth_Cons take_map split: nat.splits)
  then have "last (0 # map (\<lambda>i. sum_list (map layout_bucket_count (take (Suc i) ls))) [0..<length ls])
      = sum_list (map layout_bucket_count ls)"
    by simp
  then show ?thesis
    by (simp add: install_layouts_def fold_add_layout Let_def bucket_total_def off last_ConsL del: last.simps)
qed

lemma length_resize [simp]: "length (resize n d xs) = n"
  by (simp add: resize_def)

text \<open>The loop that assigns every slot its bucket.\<close>

lemma slot_bucket:
  assumes "layouts_wf st" and "key_base items st" and "slot < length items"
  shows "bucket_for st (items ! slot) (if has_key (ks_key st) then ks_keys st ! slot else 0)
    = Inr (home st (items ! slot))"
  using assms by (intro bucket_for_home) (auto simp: key_base_def)

lemma assign_bucket_step:
  "bucket_for st (items ! slot) (if has_key (ks_key st) then ks_keys st ! slot else 0) = Inr b \<Longrightarrow>
   assign_bucket items slot st = (Inr (), st\<lparr>ks_buckets := (ks_buckets st)[slot := bucket_id_cast b],
                             ks_counts := (ks_counts st)[b := ks_counts st ! b + 1]\<rparr>)"
  by (simp only: assign_bucket_def sum.case)

lemma assign_loop:
  assumes lw: "layouts_wf st" and base: "key_base items st" and counts: "ks_counts st = replicate (bucket_total st) 0"
    and len: "length (ks_buckets st) = length items"
  shows "for_do (assign_bucket items) [0..<length items] st
    = (Inr (), st\<lparr>ks_buckets := map (home st) items,
         ks_counts := map (\<lambda>b. length (filter (\<lambda>x. home st x = b) items)) [0..<bucket_total st]\<rparr>)"
proof -
  let ?k = "ks_key st" and ?n = "length items"
  let ?at = "\<lambda>m. st\<lparr>ks_buckets := map (home st) (take m items) @ drop m (ks_buckets st),
      ks_counts := map (\<lambda>b. length (filter (\<lambda>x. home st x = b) (take m items))) [0..<bucket_total st]\<rparr>"
  have k: "wf_key ?k" using base by (simp add: key_base_def)
  have "for_do (assign_bucket items) [0..<m] st = (Inr (), ?at m)" if "m \<le> ?n" for m
    using that
  proof (induction m)
    case 0
    show ?case by (simp add: map_replicate_const flip: counts)
  next
    case (Suc m)
    let ?x = "items ! m" and ?s = "?at m"
    have m: "m < ?n" using Suc.prems by simp
    have x: "valid_item ?k ?x" using base m by (simp add: key_base_def)
    have home: "home ?s y = home st y" for y by (simp add: home_def)
    have "layouts_wf ?s = layouts_wf st" by (simp add: layouts_wf_def bucket_total_def)
    then have lw': "layouts_wf ?s" using lw by (simp only:)
    have "key_base items ?s" using base by (simp add: key_base_def)
    note bf = slot_bucket[OF lw' this m, unfolded home]
    have hb: "home st ?x < bucket_total st" by (rule home_bounds(3)[OF lw k x])
    then have cast: "bucket_id_cast (home st ?x) = home st ?x"
      using lw by (simp add: layouts_wf_def bucket_id_cast_def)
    have tk: "take (Suc m) items = take m items @ [?x]" using m by (simp add: take_Suc_conv_app_nth)
    have "(map (home st) (take m items) @ drop m (ks_buckets st))[m := home st ?x]
        = map (home st) (take (Suc m) items) @ drop (Suc m) (ks_buckets st)"
      using m len by (simp add: tk list_update_append Cons_nth_drop_Suc[symmetric])
    moreover have "(map (\<lambda>b. length (filter (\<lambda>x. home st x = b) (take m items))) [0..<bucket_total st])
          [home st ?x := Suc (length (filter (\<lambda>x. home st x = home st ?x) (take m items)))]
        = map (\<lambda>b. length (filter (\<lambda>x. home st x = b) (take (Suc m) items))) [0..<bucket_total st]"
      using hb by (intro nth_equalityI) (auto simp: tk nth_list_update)
    ultimately have "assign_bucket items m ?s = (Inr (), ?at (Suc m))"
      using hb by (simp add: assign_bucket_step[OF bf] cast)
    then show ?case using Suc m by (simp add: for_do_append)
  qed
  from this[of ?n] show ?thesis using len by simp
qed

lemma length_expected: "layout_ok k g ly \<Longrightarrow> length (expected_sizes ly) = layout_bucket_count ly"
  by (simp add: layout_bucket_count_def)

lemma installed_wf:
  assumes "layouts_estimated (ks_key st) (length items) ls" and base: "key_base items st"
  shows "layouts_wf (install_layouts ls items st) \<and> key_base items (install_layouts ls items st)
    \<and> splitters_wf (length items) (install_layouts ls items st)
    \<and> ks_counts (install_layouts ls items st) = replicate (bucket_total (install_layouts ls items st)) 0
    \<and> length (ks_buckets (install_layouts ls items st)) = length items"
proof -
  have ls: "length ls = sk_groups (ks_key st)" "\<forall>g < sk_groups (ks_key st). layout_ok (ks_key st) g (ls ! g)"
    "sum_list (map layout_bucket_count ls) \<le> 65535" "\<forall>ly\<in>set ls. \<forall>p\<in>set (splitter_positions ly). p < length items"
    using assms(1) by (simp_all add: layouts_estimated_def)
  have "map (length \<circ> expected_sizes) ls = map layout_bucket_count ls"
    by (simp add: layout_bucket_count_def comp_def)
  then have len: "length (concat (map expected_sizes ls)) = sum_list (map layout_bucket_count ls)"
    by (simp only: length_concat map_map)
  have "length items < 2 ^ 32" using base by (simp add: key_base_def)
  then have "slot_cast p < length items" if "ly \<in> set ls" "p \<in> set (splitter_positions ly)" for ly p
    using ls(4) that by (metis less_trans mod_less slot_cast_def)
  then show ?thesis using ls len base
    by (simp add: install_layouts_eq Let_def layouts_wf_def bucket_total_def splitters_wf_def key_base_def)
qed

lemma relayout_ok:
  assumes base: "key_base items st" and plan: "wf_plan plan"
  shows "\<exists>st'. relayout plan items st = (Inr (), st') \<and> key_inv items st' \<and> ks_key st' = ks_key st
    \<and> \<not> ks_has_order st' \<and> ks_estimated_from st' = length items"
proof -
  obtain ls where est: "estimate_layouts st items plan = Inr ls"
    and ls: "layouts_estimated (ks_key st) (length items) ls"
    using estimate_layouts_ok[OF assms] by blast
  let ?s = "install_layouts ls items st"
  let ?t = "?s\<lparr>ks_buckets := map (home ?s) items,
         ks_counts := map (\<lambda>b. length (filter (\<lambda>x. home ?s x = b) items)) [0..<bucket_total ?s]\<rparr>"
  note wf = installed_wf[OF ls base]
  have "for_do (assign_bucket items) [0..<length items] ?s = (Inr (), ?t)"
    using wf by (intro assign_loop) auto
  then have run: "relayout plan items st = (Inr (), reset_order ?t)" by (simp add: relayout_def est)
  have "ks_key ?s = ks_key st" "ks_estimated_from ?s = length items" by (simp_all add: install_layouts_eq Let_def)
  moreover have home: "home (reset_order ?t) = home ?s" by (simp add: home_def reset_order_def fun_eq_iff)
  moreover have "layouts_wf (reset_order ?t) = layouts_wf ?s" "bucket_total (reset_order ?t) = bucket_total ?s"
    "key_base items (reset_order ?t) = key_base items ?s"
    "splitters_wf (length items) (reset_order ?t) = splitters_wf (length items) ?s"
    by (simp_all add: layouts_wf_def key_base_def splitters_wf_def bucket_total_def reset_order_def)
  ultimately have "key_inv items (reset_order ?t) \<and> ks_key (reset_order ?t) = ks_key st
      \<and> \<not> ks_has_order (reset_order ?t) \<and> ks_estimated_from (reset_order ?t) = length items"
    using wf by (simp add: key_inv_def assigned_def) (simp add: reset_order_def)
  then show ?thesis using run by blast
qed

section \<open>Adding an element\<close>

lemma grouping_len: "grouping items st segs \<Longrightarrow> length (ks_order st) = ks_ordered_slots st"
  unfolding grouping_def by (metis diff_zero length_upt size_mset)

lemma grouping_set:
  assumes "grouping items st segs" and "b < bucket_total st" and "s \<in> set (segs ! b)"
  shows "s < ks_ordered_slots st" and "s < length items"
proof -
  have "s \<in> set (ks_order st)" using assms by (auto simp: grouping_def)
  moreover have "set (ks_order st) = {0..<ks_ordered_slots st}"
    using assms(1) unfolding grouping_def by (metis set_mset_mset set_upt)
  ultimately show "s < ks_ordered_slots st" by simp
  then show "s < length items" using assms(1) by (simp add: grouping_def)
qed

lemma sorted_wrt_tie_cong:
  "(\<And>x. x \<in> set xs \<Longrightarrow> items ! x = items' ! x) \<Longrightarrow>
   sorted_wrt (tie_slot (item_less k items)) xs = sorted_wrt (tie_slot (item_less k items')) xs"
  by (rule iffI; erule sorted_wrt_mono_rel[rotated]) (simp_all add: tie_slot_def)

text \<open>An order survives any change of the items that leaves its unmoved slots alone.\<close>

lemma grouping_transfer:
  assumes g: "grouping items st segs"
    and same: "ks_key st' = ks_key st" "bucket_total st' = bucket_total st" "ks_order st' = ks_order st"
      "ks_start st' = ks_start st" "ks_ordered_slots st' = ks_ordered_slots st" "ks_sorted_len st' = ks_sorted_len st"
    and len: "length items \<le> length items'" "length (ks_moved st') = length (ks_moved st)"
    and moved: "\<And>s. s < ks_ordered_slots st \<Longrightarrow> \<not> ks_moved st' ! s \<Longrightarrow>
      \<not> ks_moved st ! s \<and> items' ! s = items ! s \<and> ks_buckets st' ! s = ks_buckets st ! s"
  shows "grouping items' st' segs"
proof -
  have "sorted_wrt (tie_slot (item_less (ks_key st) items'))
      (filter (\<lambda>s. \<not> ks_moved st' ! s) (take (ks_sorted_len st ! b) (segs ! b)))" if b: "b < bucket_total st" for b
  proof -
    let ?pre = "take (ks_sorted_len st ! b) (segs ! b)"
    have in_order: "s < ks_ordered_slots st" if "s \<in> set ?pre" for s
      using grouping_set(1)[OF g b] that by (meson in_set_takeD)
    have "filter (\<lambda>s. \<not> ks_moved st' ! s) ?pre
        = filter (\<lambda>s. \<not> ks_moved st' ! s) (filter (\<lambda>s. \<not> ks_moved st ! s) ?pre)"
      using moved in_order by (auto intro!: filter_cong)
    moreover have "sorted_wrt (tie_slot (item_less (ks_key st) items)) (filter (\<lambda>s. \<not> ks_moved st ! s) ?pre)"
      using g b by (simp add: grouping_def)
    ultimately have "sorted_wrt (tie_slot (item_less (ks_key st) items)) (filter (\<lambda>s. \<not> ks_moved st' ! s) ?pre)"
      by (simp only: sorted_wrt_filter)
    then show ?thesis using moved in_order by (subst sorted_wrt_tie_cong[where items' = items]) auto
  qed
  moreover have "ks_buckets st' ! s = b" if "b < bucket_total st" "s \<in> set (segs ! b)" "\<not> ks_moved st' ! s" for b s
    using g that moved[of s] grouping_set(1)[OF g that(1,2)] by (simp add: grouping_def)
  moreover have "mset (concat segs) = mset [0..<ks_ordered_slots st]" using g by (metis grouping_def)
  ultimately show ?thesis using g same len by (simp add: grouping_def del: mset_upt)
qed

lemma home_cong:
  "ks_key st' = ks_key st \<Longrightarrow> ks_layouts st' = ks_layouts st \<Longrightarrow> ks_group_offset st' = ks_group_offset st \<Longrightarrow>
   home st' = home st"
  by (simp add: home_def fun_eq_iff)

lemma layouts_wf_cong:
  "ks_key st' = ks_key st \<Longrightarrow> ks_layouts st' = ks_layouts st \<Longrightarrow> ks_group_offset st' = ks_group_offset st \<Longrightarrow>
   ks_expected st' = ks_expected st \<Longrightarrow> layouts_wf st' = layouts_wf st"
  by (simp add: layouts_wf_def bucket_total_def)

lemma counts_update:
  assumes "h < n"
  shows "(map (\<lambda>b. length (filter (\<lambda>x. f x = b) xs)) [0..<n])[h := Suc (length (filter (\<lambda>x. f x = h) xs))]
    = map (\<lambda>b. length (filter (\<lambda>x. f x = b) xs) + (if b = h then 1 else 0)) [0..<n]"
  using assms by (intro nth_equalityI) (auto simp: nth_list_update)

lemma bucket_id_cast_home:
  "layouts_wf st \<Longrightarrow> wf_key (ks_key st) \<Longrightarrow> valid_item (ks_key st) x \<Longrightarrow> bucket_id_cast (home st x) = home st x"
  using home_bounds(3)[of st x] by (simp add: layouts_wf_def bucket_id_cast_def)

lemma append_ok:
  assumes inv: "key_inv items st" and x: "valid_item (ks_key st) x" and small: "length items + 1 < 2 ^ 32"
  shows "\<exists>st'. append_state x st = (Inr (), st') \<and> key_inv (items @ [x]) st' \<and> ks_key st' = ks_key st"
proof -
  let ?k = "ks_key st" and ?h = "home st x"
  have base: "key_base items st" and lw: "layouts_wf st" and as: "assigned items st"
    and sp: "splitters_wf (length items) st" and k: "wf_key ?k"
    using inv by (simp_all add: key_inv_def key_base_def)
  define key where "key = (if has_key ?k then key_of ?k x else 0)"
  define s0 where "s0 = (if has_key ?k then st\<lparr>ks_keys := ks_keys st @ [key]\<rparr> else st)"
  have s0: "ks_key s0 = ?k" "ks_layouts s0 = ks_layouts st" "ks_group_offset s0 = ks_group_offset st"
    "ks_expected s0 = ks_expected st" "ks_buckets s0 = ks_buckets st" "ks_counts s0 = ks_counts st"
    "ks_keys s0 = (if has_key ?k then ks_keys st @ [key] else ks_keys st)"
    "ks_splitter_slots s0 = ks_splitter_slots st" "ks_has_order s0 = ks_has_order st"
    "ks_order_stale s0 = ks_order_stale st" "ks_order s0 = ks_order st" "ks_start s0 = ks_start st"
    "ks_ordered_slots s0 = ks_ordered_slots st" "ks_sorted_len s0 = ks_sorted_len st" "ks_moved s0 = ks_moved st"
    by (simp_all add: s0_def)
  have h: "?h < bucket_total st" by (rule home_bounds(3)[OF lw k x])
  define t where "t = s0\<lparr>ks_buckets := ks_buckets st @ [?h], ks_counts := (ks_counts st)[?h := ks_counts st ! ?h + 1],
      ks_churn := ks_churn s0 + 1, ks_order_stale := ks_has_order st \<or> ks_order_stale st\<rparr>"
  have "bucket_for s0 x key = Inr (home s0 x)"
    using layouts_wf_cong[of s0 st] lw k x by (intro bucket_for_home) (simp_all add: s0 key_def)
  then have bf: "bucket_for s0 x key = Inr ?h" using home_cong[of s0 st] by (simp add: s0)
  have "append_state x st = (case bucket_for s0 x key of Inl e \<Rightarrow> (Inl e, s0)
      | Inr b \<Rightarrow> (Inr (), s0\<lparr>ks_buckets := ks_buckets s0 @ [bucket_id_cast b],
           ks_counts := (ks_counts s0)[b := ks_counts s0 ! b + 1], ks_churn := ks_churn s0 + 1,
           ks_order_stale := (ks_has_order s0 \<or> ks_order_stale s0)\<rparr>))"
    by (simp only: append_state_def Let_def key_def s0_def)
  then have run: "append_state x st = (Inr (), t)"
    by (simp add: bf bucket_id_cast_home[OF lw k x] s0 t_def)
  have t: "ks_key t = ?k" "ks_layouts t = ks_layouts st" "ks_group_offset t = ks_group_offset st"
    "ks_expected t = ks_expected st" "ks_buckets t = ks_buckets st @ [?h]"
    "ks_counts t = (ks_counts st)[?h := ks_counts st ! ?h + 1]" "ks_keys t = ks_keys s0"
    "ks_splitter_slots t = ks_splitter_slots st" "ks_has_order t = ks_has_order st"
    "ks_order t = ks_order st" "ks_start t = ks_start st" "ks_ordered_slots t = ks_ordered_slots st"
    "ks_sorted_len t = ks_sorted_len st" "ks_moved t = ks_moved st"
    "ks_order_stale t = (ks_has_order st \<or> ks_order_stale st)"
    by (simp_all add: t_def s0)
  have home: "home t = home st" by (rule home_cong) (simp_all add: t)
  have total: "bucket_total t = bucket_total st" by (simp add: bucket_total_def t)
  have lw': "layouts_wf t" using layouts_wf_cong[of t st] lw by (simp add: t)
  have base': "key_base (items @ [x]) t"
    using base x small by (auto simp: key_base_def t s0 key_def)
  have as': "assigned (items @ [x]) t"
    using as h unfolding assigned_def home total
    by (simp add: counts_update t)
  have sp': "splitters_wf (length (items @ [x])) t" using sp by (auto simp: splitters_wf_def t)
  have "grouping (items @ [x]) t segs" if "grouping items st segs" for segs
  proof (rule grouping_transfer[OF that])
    fix s assume s: "s < ks_ordered_slots st" "\<not> ks_moved t ! s"
    then have "s < length items" using that by (simp add: grouping_def)
    moreover have "length (ks_buckets st) = length items" using as by (simp add: assigned_def)
    ultimately show "\<not> ks_moved st ! s \<and> (items @ [x]) ! s = items ! s \<and> ks_buckets t ! s = ks_buckets st ! s"
      using s by (simp add: t nth_append)
  qed (simp_all add: t bucket_total_def)
  then have "key_inv (items @ [x]) t"
    using inv base' lw' as' sp' by (auto simp: key_inv_def t)
  then show ?thesis using run t by blast
qed

section \<open>Re-reading an element's key\<close>

lemma count_update:
  assumes "i < length xs"
  shows "length (filter P (xs[i := y])) + (if P (xs ! i) then 1 else 0) = length (filter P xs) + (if P y then 1 else 0)"
proof -
  have "length (filter P xs) = length (filter P (take i xs)) + (if P (xs ! i) then 1 else 0) + length (filter P (drop (Suc i) xs))"
    by (subst (1) id_take_nth_drop[OF assms]) simp
  moreover have "length (filter P (xs[i := y])) = length (filter P (take i xs)) + (if P y then 1 else 0) + length (filter P (drop (Suc i) xs))"
    using assms by (simp add: upd_conv_take_nth_drop)
  ultimately show ?thesis by simp
qed

lemma move_counts:
  assumes "i < length xs" and "f (xs ! i) < n" and "f y < n"
  shows "(let cs = map (\<lambda>b. length (filter (\<lambda>x. f x = b) xs)) [0..<n];
              cs = cs[f (xs ! i) := cs ! f (xs ! i) - 1]
          in cs[f y := cs ! f y + 1])
    = map (\<lambda>b. length (filter (\<lambda>x. f x = b) (xs[i := y]))) [0..<n]"
proof (rule nth_equalityI)
  fix b
  assume "b < length (let cs = map (\<lambda>b. length (filter (\<lambda>x. f x = b) xs)) [0..<n];
              cs = cs[f (xs ! i) := cs ! f (xs ! i) - 1]
          in cs[f y := cs ! f y + 1])"
  then have b: "b < n" by (simp add: Let_def)
  have "0 < length (filter (\<lambda>x. f x = f (xs ! i)) xs)" using assms(1) by (auto simp: filter_empty_conv)
  then show "(let cs = map (\<lambda>b. length (filter (\<lambda>x. f x = b) xs)) [0..<n];
              cs = cs[f (xs ! i) := cs ! f (xs ! i) - 1]
          in cs[f y := cs ! f y + 1]) ! b
      = map (\<lambda>b. length (filter (\<lambda>x. f x = b) (xs[i := y]))) [0..<n] ! b"
    using b assms count_update[OF assms(1), of "\<lambda>x. f x = b" y]
    by (auto simp: Let_def nth_list_update split: if_splits)
qed (simp add: Let_def)

lemma rekey_ok:
  assumes inv: "key_inv items st" and slot: "slot < length items" and x: "valid_item (ks_key st) x"
  shows "\<exists>st'. rekey (items[slot := x]) slot st = (Inr (), st') \<and> key_inv (items[slot := x]) st'
    \<and> ks_key st' = ks_key st"
proof -
  let ?k = "ks_key st" and ?h = "home st x" and ?items = "items[slot := x]"
  have base: "key_base items st" and lw: "layouts_wf st" and as: "assigned items st"
    and sp: "splitters_wf (length items) st" and k: "wf_key ?k"
    using inv by (simp_all add: key_inv_def key_base_def)
  define s0 where "s0 = (if has_key ?k then st\<lparr>ks_keys := (ks_keys st)[slot := key_of ?k (?items ! slot)]\<rparr> else st)"
  have s0: "ks_key s0 = ?k" "ks_layouts s0 = ks_layouts st" "ks_group_offset s0 = ks_group_offset st"
    "ks_expected s0 = ks_expected st" "ks_buckets s0 = ks_buckets st" "ks_counts s0 = ks_counts st"
    "ks_keys s0 = (if has_key ?k then (ks_keys st)[slot := key_of ?k x] else ks_keys st)"
    "ks_splitter_slots s0 = ks_splitter_slots st" "ks_has_order s0 = ks_has_order st"
    "ks_order_stale s0 = ks_order_stale st" "ks_order s0 = ks_order st" "ks_start s0 = ks_start st"
    "ks_ordered_slots s0 = ks_ordered_slots st" "ks_sorted_len s0 = ks_sorted_len st" "ks_moved s0 = ks_moved st"
    using slot by (simp_all add: s0_def)
  have base0: "key_base ?items s0"
    using base x slot by (auto simp: key_base_def s0 map_update dest: set_update_subset_insert[THEN subsetD])
  have lw0: "layouts_wf s0" using layouts_wf_cong[of s0 st] lw by (simp add: s0)
  have "bucket_for s0 (?items ! slot) (if has_key (ks_key s0) then ks_keys s0 ! slot else 0) = Inr (home s0 (?items ! slot))"
    using slot by (intro slot_bucket[OF lw0 base0]) simp
  then have bf: "bucket_for s0 (?items ! slot) (if has_key ?k then ks_keys s0 ! slot else 0) = Inr ?h"
    using slot home_cong[of s0 st] by (simp only: s0 nth_list_update_eq)
  have old_valid: "valid_item ?k (items ! slot)" using base slot by (simp add: key_base_def)
  have bounds: "home st (items ! slot) < bucket_total st" "?h < bucket_total st"
    using home_bounds(3)[OF lw k] old_valid x by blast+
  have old: "ks_buckets st ! slot = home st (items ! slot)" using as slot by (simp add: assigned_def)
  define counts where "counts = (ks_counts s0)[ks_buckets s0 ! slot := ks_counts s0 ! (ks_buckets s0 ! slot) - 1]"
  define s1 where "s1 = s0\<lparr>ks_counts := counts[?h := counts ! ?h + 1],
      ks_buckets := (ks_buckets s0)[slot := bucket_id_cast ?h], ks_churn := ks_churn s0 + 1\<rparr>"
  define s2 where "s2 = (if is_splitter s1 slot then s1\<lparr>ks_splitter_changed := True\<rparr> else s1)"
  define t where "t = (if ks_has_order s2 \<and> slot < ks_ordered_slots s2
      then s2\<lparr>ks_moved := (ks_moved s2)[slot := True], ks_order_stale := True\<rparr> else s2)"
  have "rekey ?items slot st = (case bucket_for s0 (?items ! slot) (if has_key ?k then ks_keys s0 ! slot else 0) of
      Inl e \<Rightarrow> (Inl e, s0) | Inr b \<Rightarrow>
        (let old = ks_buckets s0 ! slot;
             counts = (ks_counts s0)[old := ks_counts s0 ! old - 1];
             s = s0\<lparr>ks_counts := counts[b := counts ! b + 1],
                     ks_buckets := (ks_buckets s0)[slot := bucket_id_cast b], ks_churn := ks_churn s0 + 1\<rparr>;
             s = (if is_splitter s slot then s\<lparr>ks_splitter_changed := True\<rparr> else s)
         in (Inr (), if ks_has_order s \<and> slot < ks_ordered_slots s
                     then s\<lparr>ks_moved := (ks_moved s)[slot := True], ks_order_stale := True\<rparr> else s)))"
    by (simp only: rekey_def Let_def s0_def)
  then have run: "rekey ?items slot st = (Inr (), t)"
    by (simp only: bf sum.case Let_def counts_def s1_def s2_def t_def)
  have t: "ks_key t = ?k" "ks_layouts t = ks_layouts st" "ks_group_offset t = ks_group_offset st"
    "ks_expected t = ks_expected st" "ks_buckets t = (ks_buckets st)[slot := ?h]"
    "ks_counts t = counts[?h := counts ! ?h + 1]" "ks_keys t = ks_keys s0"
    "ks_splitter_slots t = ks_splitter_slots st" "ks_has_order t = ks_has_order st"
    "ks_order t = ks_order st" "ks_start t = ks_start st"
    "ks_ordered_slots t = ks_ordered_slots st" "ks_sorted_len t = ks_sorted_len st"
    "ks_moved t = (if ks_has_order st \<and> slot < ks_ordered_slots st then (ks_moved st)[slot := True] else ks_moved st)"
    "ks_order_stale t = (ks_order_stale st \<or> ks_has_order st \<and> slot < ks_ordered_slots st)"
    by (simp_all add: t_def s2_def s1_def s0 bucket_id_cast_home[OF lw k x]) blast+
  have home: "home t = home st" by (rule home_cong) (simp_all add: t)
  have total: "bucket_total t = bucket_total st" by (simp add: bucket_total_def t)
  have lw': "layouts_wf t" using layouts_wf_cong[of t st] lw by (simp add: t)
  have base': "key_base ?items t" using base0 by (simp add: key_base_def t s0)
  have "counts[?h := counts ! ?h + 1]
      = map (\<lambda>b. length (filter (\<lambda>x. home st x = b) ?items)) [0..<bucket_total st]"
    using move_counts[OF slot bounds] as slot by (simp add: counts_def assigned_def s0 old Let_def)
  then have as': "assigned ?items t"
    using as slot unfolding assigned_def home total by (simp add: t map_update)
  have sp': "splitters_wf (length ?items) t" using sp by (simp add: splitters_wf_def t)
  have "grouping ?items t segs" if g: "grouping items st segs" "ks_has_order st" for segs
  proof (rule grouping_transfer[OF g(1)])
    show "length (ks_moved t) = length (ks_moved st)" by (simp add: t)
    fix s assume s: "s < ks_ordered_slots st" "\<not> ks_moved t ! s"
    have "length (ks_moved st) = ks_ordered_slots st" using g by (simp add: grouping_def)
    then have "s \<noteq> slot" using s g(2) by (auto simp: t split: if_splits)
    then show "\<not> ks_moved st ! s \<and> ?items ! s = items ! s \<and> ks_buckets t ! s = ks_buckets st ! s"
      using s by (auto simp: t split: if_splits)
  qed (simp_all add: t total)
  moreover have "settled (length ?items) t" if "\<not> ks_order_stale t" "ks_has_order t"
    using inv that slot by (auto simp: key_inv_def t settled_def)
  ultimately have "key_inv ?items t" using inv base' lw' as' sp' by (auto simp: key_inv_def t)
  then show ?thesis using run t by blast
qed

end
