(* ===== verification/Grouping_Invariants.thy ===== *)
theory Grouping_Invariants
  imports Key_Invariants
begin

text \<open>
  The operations on the cached grouping preserve \<open>key_inv\<close>: building it, regrouping after
  additions and updates, sorting a bucket, compacting after a removal, and the preparation
  that precedes every sorted read.
\<close>

section \<open>Bucket ids partition the slots\<close>

lemma mset_filter_or:
  "(\<And>x. x \<in> set xs \<Longrightarrow> \<not> (P x \<and> Q x)) \<Longrightarrow>
   mset (filter (\<lambda>x. P x \<or> Q x) xs) = mset (filter P xs) + mset (filter Q xs)"
  by (induction xs) auto

lemma mset_buckets:
  assumes "\<And>s. s \<in> set L \<Longrightarrow> f s < k"
  shows "mset (concat (map (\<lambda>b. filter (\<lambda>s. f s = b) L) [0..<k])) = mset L"
proof -
  have "mset (concat (map (\<lambda>b. filter (\<lambda>s. f s = b) L) [0..<k])) = mset (filter (\<lambda>s. f s < k) L)" for k
  proof (induction k)
    case (Suc k)
    have "mset (filter (\<lambda>s. f s < Suc k) L) = mset (filter (\<lambda>s. f s < k \<or> f s = k) L)"
      by (simp add: less_Suc_eq)
    also have "\<dots> = mset (filter (\<lambda>s. f s < k) L) + mset (filter (\<lambda>s. f s = k) L)"
      by (intro mset_filter_or) auto
    finally show ?case using Suc by simp
  qed simp
  moreover have "filter (\<lambda>s. f s < k) L = L" using assms by (intro filter_True) auto
  ultimately show ?thesis by (simp only:)
qed

lemma sum_counts:
  assumes "\<And>s. s \<in> set L \<Longrightarrow> f s < k"
  shows "sum_list (map (\<lambda>b. length (filter (\<lambda>s. f s = b) L)) [0..<k]) = length L"
  using arg_cong[OF mset_buckets[OF assms], where f = size] by (simp add: length_concat comp_def)

lemma length_filter_items:
  "length (filter (\<lambda>s. P (items ! s)) [0..<length items]) = length (filter P items)"
proof -
  have "filter P items = filter P (map ((!) items) [0..<length items])" by (simp only: map_nth)
  also have "\<dots> = map ((!) items) (filter (P \<circ> (!) items) [0..<length items])" by (rule filter_map)
  finally show ?thesis by (simp add: comp_def)
qed

lemma counts_slots:
  assumes inv: "key_inv items st" and b: "b < bucket_total st"
  shows "ks_counts st ! b = length (bucket_slots (ks_buckets st) [0..<length items] b)"
proof -
  have as: "assigned items st" using inv by (simp add: key_inv_def)
  have "filter (\<lambda>s. ks_buckets st ! s = b) [0..<length items]
      = filter (\<lambda>s. home st (items ! s) = b) [0..<length items]"
    using as by (intro filter_cong) (auto simp: assigned_def)
  then show ?thesis using as b length_filter_items[of "\<lambda>x. home st x = b" items] by (simp add: assigned_def)
qed

lemma slot_bounds:
  assumes inv: "key_inv items st" and s: "s < length items"
  shows "ks_buckets st ! s = home st (items ! s)" and "ks_buckets st ! s < bucket_total st" and "s < 2 ^ 32"
proof -
  have base: "key_base items st" and lw: "layouts_wf st" and as: "assigned items st"
    using inv by (simp_all add: key_inv_def)
  show h: "ks_buckets st ! s = home st (items ! s)" using as s by (simp add: assigned_def)
  have "home st (items ! s) < bucket_total st"
    using base s by (intro home_bounds(3)[OF lw]) (simp_all add: key_base_def)
  then show "ks_buckets st ! s < bucket_total st" by (simp add: h)
  show "s < 2 ^ 32" using base s by (simp add: key_base_def)
qed

lemma counts_facts:
  assumes inv: "key_inv items st"
  shows "length (ks_counts st) = bucket_total st" and "sum_list (ks_counts st) = length items"
proof -
  have as: "assigned items st" using inv by (simp add: key_inv_def)
  then show "length (ks_counts st) = bucket_total st" by (simp add: assigned_def)
  have "home st x < bucket_total st" if "x \<in> set items" for x
    using that slot_bounds[OF inv] by (metis in_set_conv_nth)
  then have "sum_list (map (\<lambda>b. length (filter (\<lambda>x. home st x = b) items)) [0..<bucket_total st]) = length items"
    by (rule sum_counts)
  then show "sum_list (ks_counts st) = length items" using as by (simp add: assigned_def)
qed

text \<open>What placing all slots of a permutation of \<open>[0..<n]\<close> gives.\<close>

lemma place_slots:
  assumes inv: "key_inv items st" and perm: "mset L = mset [0..<length items]"
  shows "snd (fold (place (ks_buckets st)) L (butlast (offsets (ks_counts st)), replicate (length items) 0))
      = concat (map (bucket_slots (ks_buckets st) L) [0..<bucket_total st])"
    and "seg_starts (map (bucket_slots (ks_buckets st) L) [0..<bucket_total st]) = offsets (ks_counts st)"
    and "mset (concat (map (bucket_slots (ks_buckets st) L) [0..<bucket_total st])) = mset [0..<length items]"
proof -
  note cf = counts_facts[OF inv]
  have set_L: "s < length items" if "s \<in> set L" for s
    using that perm by (metis atLeastLessThan_iff set_mset_mset set_upt)
  have len: "length (bucket_slots (ks_buckets st) L b) = ks_counts st ! b" if "b < bucket_total st" for b
  proof -
    have "mset (bucket_slots (ks_buckets st) L b) = mset (bucket_slots (ks_buckets st) [0..<length items] b)"
      using perm by (simp only: mset_filter)
    then show ?thesis using counts_slots[OF inv that] by (metis size_mset)
  qed
  show "snd (fold (place (ks_buckets st)) L (butlast (offsets (ks_counts st)), replicate (length items) 0))
      = concat (map (bucket_slots (ks_buckets st) L) [0..<bucket_total st])"
    using place_all(1)[of "replicate (length items) 0" "ks_counts st" L "ks_buckets st"] cf len set_L slot_bounds[OF inv]
    by simp
  show "seg_starts (map (bucket_slots (ks_buckets st) L) [0..<bucket_total st]) = offsets (ks_counts st)"
    using place_all(2)[of "replicate (length items) 0" "ks_counts st" L "ks_buckets st"] cf len set_L slot_bounds[OF inv]
    by simp
  have "mset (concat (map (bucket_slots (ks_buckets st) L) [0..<bucket_total st])) = mset L"
    using set_L slot_bounds(2)[OF inv] by (intro mset_buckets) blast
  then show "mset (concat (map (bucket_slots (ks_buckets st) L) [0..<bucket_total st])) = mset [0..<length items]"
    using perm by simp
qed

section \<open>Building the order\<close>

text \<open>States that differ only in the cached grouping.\<close>

lemma key_inv_grouping:
  assumes "key_inv items st" and "ks_key st' = ks_key st" "ks_layouts st' = ks_layouts st"
    "ks_group_offset st' = ks_group_offset st" "ks_expected st' = ks_expected st" "ks_keys st' = ks_keys st"
    "ks_buckets st' = ks_buckets st" "ks_counts st' = ks_counts st" "ks_splitter_slots st' = ks_splitter_slots st"
    and "grouping items st' segs" and "settled (length items) st'"
  shows "key_inv items st'"
proof -
  have "home st' = home st" "layouts_wf st' = layouts_wf st" "bucket_total st' = bucket_total st"
    using assms home_cong[of st' st] layouts_wf_cong[of st' st] by (simp_all add: bucket_total_def)
  then show ?thesis using assms by (auto simp: key_inv_def key_base_def assigned_def splitters_wf_def)
qed

lemma build_order_ok:
  assumes inv: "key_inv items st"
  shows "key_inv items (build_order (length items) st)" and "ks_has_order (build_order (length items) st)"
    and "settled (length items) (build_order (length items) st)"
    and "ks_key (build_order (length items) st) = ks_key st"
proof -
  let ?n = "length items" and ?k = "bucket_total st" and ?B = "ks_buckets st"
  let ?segs = "map (bucket_slots ?B [0..<?n]) [0..<?k]"
  let ?st = "build_order ?n st"
  note pl = place_slots[OF inv refl]
  obtain fill order where f: "fold (place ?B) [0..<?n] (butlast (offsets (ks_counts st)), replicate ?n 0) = (fill, order)"
    by fastforce
  have st: "?st = st\<lparr>ks_start := offsets (ks_counts st), ks_order := concat ?segs, ks_sorted_len := replicate ?k 0,
      ks_moved := replicate ?n False, ks_ordered_slots := ?n, ks_has_order := True, ks_order_stale := False\<rparr>"
    using pl(1) by (simp add: build_order_def Let_def start_of_counts counts_facts[OF inv] f)
  show settled: "settled ?n ?st" and "ks_has_order ?st" and "ks_key ?st = ks_key st"
    by (simp_all add: st settled_def)
  have "grouping items ?st ?segs"
    using pl(2,3) by (simp add: grouping_def st bucket_total_def)
  then show "key_inv items ?st"
    by (rule key_inv_grouping[OF inv, rotated 8]) (rule settled, simp_all add: st)
qed

section \<open>Regrouping\<close>

lemma filter_concat_segment:
  assumes "b < length segs"
    and "\<And>c s. c < length segs \<Longrightarrow> s \<in> set (segs ! c) \<Longrightarrow> P s \<Longrightarrow> f s = c"
  shows "filter (\<lambda>s. f s = b) (filter P (concat segs)) = filter P (segs ! b)"
proof -
  have "filter (\<lambda>s. f s = b) (filter P (concat (take b segs))) = []"
    using assms(2) by (fastforce simp: filter_empty_conv in_set_conv_nth)
  moreover have "f s \<noteq> b" if "s \<in> set (concat (drop (Suc b) segs))" "P s" for s
  proof -
    from that(1) obtain i where "i < length segs - Suc b" "s \<in> set (segs ! (Suc b + i))"
      by (auto simp: in_set_conv_nth[of _ "drop (Suc b) segs"])
    then show ?thesis using assms(2)[of "Suc b + i" s] that(2) by simp
  qed
  then have "filter (\<lambda>s. f s = b) (filter P (concat (drop (Suc b) segs))) = []"
    by (auto simp: filter_empty_conv)
  moreover have "filter (\<lambda>s. f s = b) (filter P (segs ! b)) = filter P (segs ! b)"
    using assms by (intro filter_True) auto
  moreover have "concat segs = concat (take b segs) @ segs ! b @ concat (drop (Suc b) segs)"
    using assms(1) by (metis append_take_drop_id concat.simps(2) concat_append Cons_nth_drop_Suc)
  ultimately show ?thesis by simp
qed

lemma take_filter_prefix: "take (length (filter P (take m xs))) (filter P xs) = filter P (take m xs)"
  by (metis append_eq_conv_conj append_take_drop_id filter_append)

lemma mset_filter_split: "mset (filter (\<lambda>s. \<not> P s) xs @ filter P xs) = mset xs"
  by (induction xs) auto

lemma regroup_ok:
  assumes inv: "key_inv items st" and g: "grouping items st segs" and ho: "ks_has_order st"
  shows "key_inv items (regroup (length items) st)" and "ks_has_order (regroup (length items) st)"
    and "settled (length items) (regroup (length items) st)"
    and "ks_key (regroup (length items) st) = ks_key st"
proof -
  let ?n = "length items" and ?k = "bucket_total st" and ?B = "ks_buckets st"
  let ?nm = "\<lambda>s. \<not> ks_moved st ! s"
  let ?L = "filter ?nm (ks_order st) @ filter ((!) (ks_moved st)) (ks_order st) @ [ks_ordered_slots st..<?n]"
  let ?segs = "map (bucket_slots ?B ?L) [0..<?k]"
  let ?sl = "map (\<lambda>b. length (filter ?nm (take (ks_sorted_len st ! b) (segs ! b)))) [0..<?k]"
  let ?st = "regroup ?n st"
  have order: "ks_order st = concat segs" and start: "ks_start st = seg_starts segs" and len: "length segs = ?k"
    and le: "ks_ordered_slots st \<le> ?n"
    and home: "\<And>b s. b < ?k \<Longrightarrow> s \<in> set (segs ! b) \<Longrightarrow> ?nm s \<Longrightarrow> ?B ! s = b"
    and sl: "\<And>b. b < ?k \<Longrightarrow> ks_sorted_len st ! b \<le> length (segs ! b)"
    and srt: "\<And>b. b < ?k \<Longrightarrow> sorted_wrt (tie_slot (item_less (ks_key st) items))
                (filter ?nm (take (ks_sorted_len st ! b) (segs ! b)))"
    using g by (simp_all add: grouping_def)
  have perm: "mset (ks_order st) = mset [0..<ks_ordered_slots st]" using g unfolding grouping_def by blast
  have small: "s < 2 ^ 32" if "b < length segs" "s \<in> set (segs ! b)" for b s
    using grouping_set(2)[OF g, of b s] that len slot_bounds(3)[OF inv] by simp
  have "mset ?L = mset (filter ?nm (ks_order st) @ filter ((!) (ks_moved st)) (ks_order st)) + mset [ks_ordered_slots st..<?n]"
    by (simp only: mset_append add.assoc)
  also have "\<dots> = mset [0..<ks_ordered_slots st] + mset [ks_ordered_slots st..<?n]"
    by (simp only: mset_filter_split perm)
  also have "\<dots> = mset [0..<?n]" using le by (metis mset_append upt_add_eq_append le_add_diff_inverse zero_le)
  finally have permL: "mset ?L = mset [0..<?n]" .
  note pl = place_slots[OF inv permL]
  obtain f1 o1 where f1: "fold (place ?B) (filter ?nm (ks_order st)) (butlast (offsets (ks_counts st)), replicate ?n 0) = (f1, o1)"
    by fastforce
  obtain f2 o2 where f2: "fold (place ?B) (filter ((!) (ks_moved st)) (ks_order st)) (f1, o1) = (f2, o2)" by fastforce
  obtain f3 o3 where f3: "fold (place ?B) [ks_ordered_slots st..<?n] (f2, o2) = (f3, o3)" by fastforce
  have "o3 = concat ?segs" using pl(1) by (simp add: f1 f2 f3)
  moreover have "map (\<lambda>b. if b < ?k then length (filter ?nm (take (ks_sorted_len st ! b) (segs ! b))) else 0) [0..<?k] = ?sl"
    by (intro map_cong) auto
  moreover have "fold (\<lambda>b. fold (keep_step st b) [ks_start st ! b..<ks_start st ! Suc b]) [0..<?k]
      (butlast (offsets (ks_counts st)), replicate ?k 0, replicate ?n 0, [])
    = (f1, map (\<lambda>b. if b < ?k then length (filter ?nm (take (ks_sorted_len st ! b) (segs ! b))) else 0) [0..<?k],
       o1, filter ((!) (ks_moved st)) (ks_order st))"
    using keep_loop[OF order start, of ?k "butlast (offsets (ks_counts st))" "replicate ?n 0"] home small f1
    by (simp add: len order)
  ultimately have st: "?st = st\<lparr>ks_order := concat ?segs, ks_start := offsets (ks_counts st), ks_sorted_len := ?sl,
      ks_moved := replicate ?n False, ks_ordered_slots := ?n, ks_order_stale := False\<rparr>"
    by (simp add: regroup_def Let_def start_of_counts counts_facts[OF inv] f2 f3)
  show settled: "settled ?n ?st" and "ks_has_order ?st" and "ks_key ?st = ks_key st"
    by (simp_all add: st settled_def ho)
  have kept: "bucket_slots ?B ?L b = filter ?nm (segs ! b) @ drop (length (filter ?nm (segs ! b))) (bucket_slots ?B ?L b)"
    if "b < ?k" for b
    using filter_concat_segment[of b segs ?nm "\<lambda>s. ?B ! s"] home that len by (simp add: order)
  have new_prefix: "take (?sl ! b) (bucket_slots ?B ?L b) = filter ?nm (take (ks_sorted_len st ! b) (segs ! b))"
    and new_len: "?sl ! b \<le> length (bucket_slots ?B ?L b)" if b: "b < ?k" for b
  proof -
    have m: "length (filter ?nm (take (ks_sorted_len st ! b) (segs ! b))) \<le> length (filter ?nm (segs ! b))"
      by (metis append_take_drop_id filter_append le_add1 length_append)
    show "take (?sl ! b) (bucket_slots ?B ?L b) = filter ?nm (take (ks_sorted_len st ! b) (segs ! b))"
      using m b by (subst kept[OF b]) (simp add: take_filter_prefix)
    show "?sl ! b \<le> length (bucket_slots ?B ?L b)"
      using m b by (subst kept[OF b]) simp
  qed
  have "grouping items ?st ?segs"
    unfolding grouping_def
  proof (intro conjI allI impI)
    fix b assume "b < bucket_total ?st"
    then have b: "b < ?k" by (simp add: st bucket_total_def)
    have seg: "?segs ! b = bucket_slots ?B ?L b" using b by simp
    show "ks_sorted_len ?st ! b \<le> length (?segs ! b)" using new_len[OF b] by (simp only: seg st) (simp add: st)
    show "\<forall>s\<in>set (?segs ! b). \<not> ks_moved ?st ! s \<longrightarrow> ks_buckets ?st ! s = b"
      unfolding seg by (auto simp: st)
    have fields: "ks_key ?st = ks_key st" "ks_sorted_len ?st = ?sl" by (simp_all add: st)
    have "sorted_wrt (tie_slot (item_less (ks_key st) items)) (take (?sl ! b) (bucket_slots ?B ?L b))"
      unfolding new_prefix[OF b] by (rule srt[OF b])
    then show "sorted_wrt (tie_slot (item_less (ks_key ?st) items))
        (filter (\<lambda>s. \<not> ks_moved ?st ! s) (take (ks_sorted_len ?st ! b) (?segs ! b)))"
      unfolding seg fields by (rule sorted_wrt_filter)
  qed (use pl(2,3) in \<open>simp_all add: st bucket_total_def del: mset_upt\<close>)
  then show "key_inv items ?st"
    by (rule key_inv_grouping[OF inv, rotated 8]) (rule settled, simp_all add: st)
qed

section \<open>Sorting a bucket\<close>

text \<open>
  What \<open>finish\<close> returns for a comparison that does not throw; then for any strict order the
  comparison agrees with on the bucket's slots.
\<close>

definition finish_by :: "(nat \<Rightarrow> nat \<Rightarrow> bool) \<Rightarrow> nat list \<Rightarrow> nat list \<Rightarrow> nat list" where
  "finish_by lt prefix tail =
     (let tail = (if is_sorted_by lt tail then tail else stable_sort lt tail)
      in if prefix \<noteq> [] \<and> lt (hd tail) (last prefix) then merge_by lt prefix tail else prefix @ tail)"

lemma finish_bucket_ok:
  assumes lt: "\<And>x y. x \<in> set (prefix @ tail) \<Longrightarrow> y \<in> set (prefix @ tail) \<Longrightarrow> lt x y = Inr (p x y)"
    and "tail \<noteq> []"
  shows "finish_bucket lt prefix tail = Inr (finish_by p prefix tail)"
proof -
  define t where "t = (if is_sorted_by p tail then tail else stable_sort p tail)"
  have t: "set t = set tail" "t \<noteq> []"
    using assms(2) set_stable_sort[of p tail] by (auto simp: t_def simp flip: set_empty)
  have "is_sorted_exn lt tail = Inr (is_sorted_by p tail)" using lt by (intro is_sorted_exn_ok) auto
  moreover have "stable_sort_exn lt tail = Inr (stable_sort p tail)" using lt by (intro stable_sort_exn_ok) auto
  moreover have "merge_exn lt prefix t = Inr (merge_by p prefix t)" using lt t by (intro merge_exn_ok) auto
  moreover have "prefix \<noteq> [] \<Longrightarrow> lt (hd t) (last prefix) = Inr (p (hd t) (last prefix))"
    using lt t by (metis UnCI hd_in_set last_in_set set_append)
  ultimately show ?thesis
    by (cases "is_sorted_by p tail") (auto simp: finish_bucket_def finish_by_def Let_def t_def)
qed

lemma mset_finish: "mset (finish_by lt prefix tail) = mset (prefix @ tail)"
  by (simp add: finish_by_def Let_def)

lemma sorted_finish:
  assumes r: "strict_weak_order r" and pre: "sorted_wrt (tie_slot r) prefix" and d: "distinct (prefix @ tail)"
    and "tail \<noteq> []"
  shows "sorted_wrt (tie_slot r) (finish_by (tie_slot r) prefix tail)"
proof -
  note swo = swo_tie_slot[OF r]
  define t where "t = (if is_sorted_by (tie_slot r) tail then tail else stable_sort (tie_slot r) tail)"
  have fe: "finish_by (tie_slot r) prefix tail
      = (if prefix \<noteq> [] \<and> tie_slot r (hd t) (last prefix) then merge_by (tie_slot r) prefix t else prefix @ t)"
    by (simp only: finish_by_def Let_def t_def)
  have t: "sorted_by (tie_slot r) t" "mset t = mset tail" "distinct t" "t \<noteq> []"
    using strict_weak_order.is_sorted_by_iff[OF swo] strict_weak_order.sorted_stable_sort[OF swo] d assms(4)
      set_stable_sort[of "tie_slot r" tail]
    by (auto simp: t_def simp flip: set_empty)
  have dist: "distinct (prefix @ t)" using d t(2,3) by (metis distinct_append set_mset_mset)
  have pre': "sorted_by (tie_slot r) prefix" using pre d sorted_by_tie_slot[OF r] by simp
  show ?thesis
  proof (cases "prefix \<noteq> [] \<and> tie_slot r (hd t) (last prefix)")
    case True
    have "sorted_by (tie_slot r) (merge_by (tie_slot r) prefix t)"
      by (rule strict_weak_order.sorted_merge_by[OF swo pre' t(1)])
    moreover have "distinct (merge_by (tie_slot r) prefix t)"
      using dist by (metis mset_append mset_eq_imp_distinct_iff mset_merge_by)
    ultimately have "sorted_wrt (tie_slot r) (merge_by (tie_slot r) prefix t)" using sorted_by_tie_slot[OF r] by blast
    then show ?thesis using True by (simp add: fe)
  next
    case False
    have tt: "sorted_wrt (tie_slot r) t" using t sorted_by_tie_slot[OF r] by blast
    have "tie_slot r x y" if x: "x \<in> set prefix" and y: "y \<in> set t" for x y
    proof -
      have ne: "prefix \<noteq> []" using x by auto
      have "last prefix \<noteq> hd t" using dist ne t(4) by (metis disjoint_iff distinct_append hd_in_set last_in_set)
      then have mid: "tie_slot r (last prefix) (hd t)" using False ne tie_slot_total by blast
      have "x = last prefix \<or> tie_slot r x (last prefix)"
        using pre ne x by (metis append_butlast_last_id sorted_wrt_append in_set_conv_decomp Un_iff set_append set_ConsD empty_iff list.set(1) list.set_intros(1))
      moreover have "y = hd t \<or> tie_slot r (hd t) y"
        using tt t(4) y by (cases t) auto
      ultimately show ?thesis using mid tie_slot_trans[OF r] by metis
    qed
    then have "sorted_wrt (tie_slot r) (prefix @ t)" using pre tt by (simp add: sorted_wrt_append)
    then show ?thesis using False by (simp only: fe if_False)
  qed
qed

lemma order_tie_slot:
  assumes "lawful_key k"
  shows "tie_slot (item_less k items) a b \<longleftrightarrow>
    (let c = order_cmp k (items ! a) (items ! b) in if c \<noteq> 0 then c < 0 else a < b)"
  using three_way.cmp_flip[OF assms[unfolded lawful_key_def], of "items ! b" "items ! a"]
  by (auto simp: tie_slot_def Let_def)

lemma bucket_less_tie:
  assumes base: "key_base items st" and a: "a < length items" and b: "b < length items"
    and same: "group_number (ks_key st) (items ! a) = group_number (ks_key st) (items ! b)"
  shows "bucket_less st items a b = Inr (tie_slot (item_less (ks_key st) items) a b)"
proof -
  let ?k = "ks_key st"
  have law: "lawful_key ?k" and v: "valid_item ?k (items ! a)" "valid_item ?k (items ! b)"
    using base a b by (simp_all add: key_base_def)
  show ?thesis
  proof (cases "has_key ?k")
    case True
    then have "ks_keys st ! a = key_of ?k (items ! a)" "ks_keys st ! b = key_of ?k (items ! b)"
      using base a b by (simp_all add: key_base_def)
    then show ?thesis using True
      by (auto simp: order_tie_slot[OF law] bucket_less_def Let_def order_cmp_same_group[OF same] compare_in_group_def)
  next
    case False
    then show ?thesis using v by (simp add: order_tie_slot[OF law] bucket_less_def compare_values_valid Let_def)
  qed
qed

text \<open>A state whose grouping is current: what every sorted read starts from.\<close>

definition ready :: "'a list \<Rightarrow> 'a key_state \<Rightarrow> bool" where
  "ready items st \<longleftrightarrow> key_inv items st \<and> ks_has_order st \<and> settled (length items) st"

definition bucket_sorted :: "'a key_state \<Rightarrow> nat \<Rightarrow> bool" where
  "bucket_sorted st b \<longleftrightarrow> ks_sorted_len st ! b = ks_start st ! Suc b - ks_start st ! b"

lemma readyE:
  assumes "ready items st"
  obtains segs where "grouping items st segs" "length segs = bucket_total st" "ks_order st = concat segs"
    "ks_start st = seg_starts segs" "mset (concat segs) = mset [0..<length items]"
    "length (ks_sorted_len st) = bucket_total st"
    "\<And>b s. b < bucket_total st \<Longrightarrow> s \<in> set (segs ! b) \<Longrightarrow> s < length items \<and> home st (items ! s) = b"
    "\<And>b. b < bucket_total st \<Longrightarrow> ks_sorted_len st ! b \<le> length (segs ! b)"
    "\<And>b. b < bucket_total st \<Longrightarrow>
      sorted_wrt (tie_slot (item_less (ks_key st) items)) (take (ks_sorted_len st ! b) (segs ! b))"
proof -
  from assms obtain segs where g: "grouping items st segs" and inv: "key_inv items st"
    and set: "ks_ordered_slots st = length items" "ks_moved st = replicate (length items) False"
    by (auto simp: ready_def key_inv_def settled_def)
  have perm: "mset (ks_order st) = mset [0..<length items]" using g unfolding grouping_def set by blast
  have unmoved: "\<not> ks_moved st ! s" if "b < bucket_total st" "s \<in> set (segs ! b)" for b s
    using grouping_set(2)[OF g that] set by simp
  have "filter (\<lambda>s. \<not> ks_moved st ! s) (take m (segs ! b)) = take m (segs ! b)" if "b < bucket_total st" for b m
    using unmoved[OF that] by (intro filter_True) (auto dest: in_set_takeD)
  moreover have "s < length items \<and> home st (items ! s) = b" if "b < bucket_total st" "s \<in> set (segs ! b)" for b s
  proof -
    have "ks_buckets st ! s = b" using g that unmoved[OF that] by (simp add: grouping_def)
    then show ?thesis using grouping_set(2)[OF g that] slot_bounds(1)[OF inv] by simp
  qed
  moreover have "ks_order st = concat segs" using g by (simp add: grouping_def)
  ultimately show thesis using g perm by (intro that[of segs]) (simp_all add: grouping_def)
qed

text \<open>The state \<open>sort_bucket\<close> leaves behind.\<close>

abbreviation sorted_state :: "'a list \<Rightarrow> nat \<Rightarrow> 'a key_state \<Rightarrow> 'a key_state" where
  "sorted_state items b st \<equiv> snd (sort_bucket items b st)"

text \<open>It either throws and leaves the state as it was, or completes the bucket.\<close>

lemma sort_bucket_cases:
  obtains (throws) e where "sort_bucket items b st = (Inl e, st)"
  | (returns) o' where "sort_bucket items b st = (Inr (), st\<lparr>ks_order := o',
      ks_sorted_len := (ks_sorted_len st)[b := ks_start st ! Suc b - ks_start st ! b]\<rparr>)"
proof (cases "ks_sorted_len st ! b = ks_start st ! Suc b - ks_start st ! b")
  case True
  have "(ks_sorted_len st)[b := ks_sorted_len st ! b] = ks_sorted_len st" by simp
  then have "st\<lparr>ks_order := ks_order st, ks_sorted_len := (ks_sorted_len st)[b := ks_start st ! Suc b - ks_start st ! b]\<rparr> = st"
    unfolding True[symmetric] by simp
  moreover have "sort_bucket items b st = (Inr (), st)" using True by (simp add: sort_bucket_def)
  ultimately show thesis by (intro returns[of "ks_order st"]) simp
next
  case False
  let ?seg = "take (ks_start st ! Suc b - ks_start st ! b) (drop (ks_start st ! b) (ks_order st))"
  let ?m = "ks_sorted_len st ! b"
  show thesis
  proof (cases "finish_bucket (bucket_less st items) (take ?m ?seg) (drop ?m ?seg)")
    case (Inl e)
    then show thesis using False by (intro throws[of e]) (simp add: sort_bucket_def Let_def)
  next
    case (Inr out)
    then show thesis using False by (intro returns) (simp add: sort_bucket_def Let_def)
  qed
qed

lemma sort_bucket_fields [simp]:
  "ks_key (sorted_state items b st) = ks_key st" "ks_layouts (sorted_state items b st) = ks_layouts st"
  "ks_group_offset (sorted_state items b st) = ks_group_offset st" "ks_start (sorted_state items b st) = ks_start st"
  "ks_buckets (sorted_state items b st) = ks_buckets st" "ks_counts (sorted_state items b st) = ks_counts st"
  "ks_keys (sorted_state items b st) = ks_keys st" "ks_expected (sorted_state items b st) = ks_expected st"
  "ks_splitter_slots (sorted_state items b st) = ks_splitter_slots st"
  "ks_has_order (sorted_state items b st) = ks_has_order st" "ks_moved (sorted_state items b st) = ks_moved st"
  "ks_ordered_slots (sorted_state items b st) = ks_ordered_slots st"
  "ks_order_stale (sorted_state items b st) = ks_order_stale st"
  "ks_churn (sorted_state items b st) = ks_churn st"
  "ks_stale_checked_at (sorted_state items b st) = ks_stale_checked_at st"
  "ks_estimated_from (sorted_state items b st) = ks_estimated_from st"
  "ks_splitter_changed (sorted_state items b st) = ks_splitter_changed st"
  by (cases rule: sort_bucket_cases[of items b st]; simp)+

lemma bucket_total_sort_bucket [simp]: "bucket_total (sorted_state items b st) = bucket_total st"
  by (simp add: bucket_total_def)

lemma sorted_len_other [simp]: "c \<noteq> b \<Longrightarrow> ks_sorted_len (sorted_state items b st) ! c = ks_sorted_len st ! c"
  by (cases rule: sort_bucket_cases[of items b st]) simp_all

lemma mset_concat_update:
  assumes "b < length segs" and "mset y = mset (segs ! b)"
  shows "mset (concat (segs[b := y])) = mset (concat segs)"
proof -
  have "mset (concat segs) = mset (concat (take b segs @ segs ! b # drop (Suc b) segs))"
    using assms(1) by (simp only: id_take_nth_drop[symmetric])
  then show ?thesis using assms by (simp add: upd_conv_take_nth_drop)
qed

lemma sort_bucket_ok:
  assumes r: "ready items st" and b: "b < bucket_total st"
  shows sort_bucket_returns: "sort_bucket items b st = (Inr (), sorted_state items b st)"
    and sort_bucket_sorted_len: "ks_sorted_len (sorted_state items b st)
      = (ks_sorted_len st)[b := ks_start st ! Suc b - ks_start st ! b]"
    and sort_bucket_ready: "ready items (sorted_state items b st)"
proof -
  from r obtain segs where g: "grouping items st segs" and len: "length segs = bucket_total st"
    and order: "ks_order st = concat segs" and start: "ks_start st = seg_starts segs"
    and perm: "mset (concat segs) = mset [0..<length items]"
    and slots: "\<And>b s. b < bucket_total st \<Longrightarrow> s \<in> set (segs ! b) \<Longrightarrow> s < length items \<and> home st (items ! s) = b"
    and sl: "\<And>b. b < bucket_total st \<Longrightarrow> ks_sorted_len st ! b \<le> length (segs ! b)"
    and srt: "\<And>b. b < bucket_total st \<Longrightarrow>
      sorted_wrt (tie_slot (item_less (ks_key st) items)) (take (ks_sorted_len st ! b) (segs ! b))"
    by (rule readyE) blast
  let ?seg = "segs ! b" and ?m = "ks_sorted_len st ! b" and ?r = "item_less (ks_key st) items"
  have inv: "key_inv items st" and set: "settled (length items) st" using r by (simp_all add: ready_def)
  have base: "key_base items st" and lw: "layouts_wf st" using inv by (simp_all add: key_inv_def)
  have k: "wf_key (ks_key st)" "lawful_key (ks_key st)" using base by (simp_all add: key_base_def)
  have seg_len: "ks_start st ! Suc b - ks_start st ! b = length ?seg" using b by (simp add: start len sum_take_Suc)
  define finished where "finished = (if ?m = length ?seg then ?seg
      else finish_by (tie_slot ?r) (take ?m ?seg) (drop ?m ?seg))"
  have "mset finished = mset ?seg" by (simp add: finished_def mset_finish flip: mset_append)
  then have flen: "length finished = length ?seg" and fset: "set finished = set ?seg"
    by (metis size_mset, metis set_mset_mset)
  have seg: "take (length ?seg) (drop (ks_start st ! b) (ks_order st)) = ?seg"
    using segment_take_drop[of b segs] b len seg_len by (simp add: order start)
  have upd: "take (ks_start st ! b) (ks_order st) @ finished @ drop (ks_start st ! Suc b) (ks_order st)
      = concat (segs[b := finished])"
    using segment_update(1)[of b segs finished] b len flen by (simp add: order start)
  have less: "bucket_less st items x y = Inr (tie_slot ?r x y)" if "x \<in> set ?seg" "y \<in> set ?seg" for x y
  proof -
    have xy: "x < length items" "y < length items" "home st (items ! x) = home st (items ! y)"
      using slots[OF b that(1)] slots[OF b that(2)] by auto
    then have "group_number (ks_key st) (items ! x) = group_number (ks_key st) (items ! y)"
      using base by (intro home_group[OF lw k(1)]) (simp_all add: key_base_def)
    then show ?thesis using xy by (intro bucket_less_tie[OF base])
  qed
  have sorted: "sort_bucket items b st = (Inr (), st\<lparr>ks_order := concat (segs[b := finished]),
      ks_sorted_len := (ks_sorted_len st)[b := length ?seg]\<rparr>)"
  proof (cases "?m = length ?seg")
    case True
    then have "segs[b := finished] = segs" by (simp add: finished_def)
    then have "st\<lparr>ks_order := concat (segs[b := finished]), ks_sorted_len := (ks_sorted_len st)[b := length ?seg]\<rparr> = st"
      unfolding True[symmetric] by (simp flip: order)
    then show ?thesis using True seg_len by (simp add: sort_bucket_def)
  next
    case False
    then have "drop ?m ?seg \<noteq> []" using sl[OF b] by simp
    then have "finish_bucket (bucket_less st items) (take ?m ?seg) (drop ?m ?seg) = Inr finished"
      using False less by (subst finish_bucket_ok[where p = "tie_slot ?r"]) (simp_all add: finished_def)
    then show ?thesis using False seg seg_len by (simp add: sort_bucket_def Let_def flip: upd)
  qed
  show returns: "sort_bucket items b st = (Inr (), sorted_state items b st)"
    and len': "ks_sorted_len (sorted_state items b st) = (ks_sorted_len st)[b := ks_start st ! Suc b - ks_start st ! b]"
    by (simp_all add: sorted seg_len)
  have "ks_order (sorted_state items b st) = concat (segs[b := finished])" by (simp add: sorted)
  moreover have "distinct ?seg"
  proof -
    have "distinct (concat segs)" using perm by (metis distinct_upt mset_eq_imp_distinct_iff)
    then show ?thesis using b len by (simp add: distinct_concat_iff)
  qed
  moreover have "sorted_wrt (tie_slot ?r) finished"
  proof (cases "?m = length ?seg")
    case True
    then show ?thesis using srt[OF b] by (simp add: finished_def)
  next
    case False
    then have ne: "drop ?m ?seg \<noteq> []" using sl[OF b] by simp
    have "sorted_wrt (tie_slot ?r) (finish_by (tie_slot ?r) (take ?m ?seg) (drop ?m ?seg))"
      using srt[OF b] \<open>distinct ?seg\<close> ne by (intro sorted_finish item_less_swo k(2)) simp_all
    then show ?thesis using False by (simp add: finished_def)
  qed
  moreover have "mset (concat (segs[b := finished])) = mset [0..<ks_ordered_slots st]"
    using mset_concat_update[of b segs finished] \<open>mset finished = mset ?seg\<close> perm b len set by (simp add: settled_def)
  ultimately have "grouping items (sorted_state items b st) (segs[b := finished])"
    using g b flen fset seg_len len len'
    by (auto simp: grouping_def nth_list_update segment_update(2) intro: sorted_wrt_filter)
  then have "key_inv items (sorted_state items b st)"
    by (rule key_inv_grouping[OF inv, rotated 8]) (use set in \<open>simp_all add: settled_def\<close>)
  then show "ready items (sorted_state items b st)" using r by (simp add: ready_def settled_def)
qed

section \<open>A sorted bucket holds its part of the full order\<close>

text \<open>The stable sort of all slots by the exact order.\<close>

definition ranking :: "'a sort_key \<Rightarrow> 'a list \<Rightarrow> nat list" where
  "ranking k items = stable_sort (item_less k items) [0..<length items]"

lemma sorted_ranking: "lawful_key k \<Longrightarrow> sorted_wrt (tie_slot (item_less k items)) (ranking k items)"
  unfolding ranking_def by (intro sorted_tie_stable_sort item_less_swo) auto

lemma map_ranking: "map ((!) items) (ranking k items) = stable_sort (\<lambda>x y. order_cmp k x y < 0) items"
  unfolding ranking_def
  using map_stable_sort[of "(!) items" "\<lambda>x y. order_cmp k x y < 0" "[0..<length items]"]
  by (simp add: map_nth)

lemma sorted_wrt_concat:
  assumes "\<And>b. b < length segs \<Longrightarrow> sorted_wrt R (segs ! b)"
    and "\<And>b c x y. b < c \<Longrightarrow> c < length segs \<Longrightarrow> x \<in> set (segs ! b) \<Longrightarrow> y \<in> set (segs ! c) \<Longrightarrow> R x y"
  shows "sorted_wrt R (concat segs)"
  using assms
proof (induction segs rule: rev_induct)
  case (snoc seg segs)
  have "sorted_wrt R (concat segs)"
  proof (rule snoc.IH)
    show "sorted_wrt R (segs ! b)" if "b < length segs" for b
      using snoc.prems(1)[of b] that by (simp add: nth_append)
    show "R x y" if "b < c" "c < length segs" "x \<in> set (segs ! b)" "y \<in> set (segs ! c)" for b c x y
      using snoc.prems(2)[of b c x y] that by (simp add: nth_append)
  qed
  moreover have "sorted_wrt R seg" using snoc.prems(1)[of "length segs"] by simp
  moreover have "R x y" if xs: "x \<in> set (concat segs)" and y: "y \<in> set seg" for x y
  proof -
    from xs obtain b where "b < length segs" "x \<in> set (segs ! b)" by (auto simp: in_set_conv_nth[of _ segs])
    then show ?thesis using snoc.prems(2)[of b "length segs" x y] y by (simp add: nth_append)
  qed
  ultimately show ?case by (simp add: sorted_wrt_append)
qed simp

lemma sorted_position:
  assumes r: "ready items st" and b: "b < bucket_total st" and sb: "bucket_sorted st b"
    and p: "ks_start st ! b \<le> p" "p < ks_start st ! Suc b"
  shows "ks_order st ! p = ranking (ks_key st) items ! p"
proof -
  from r obtain segs where len: "length segs = bucket_total st"
    and order: "ks_order st = concat segs" and start: "ks_start st = seg_starts segs"
    and perm: "mset (concat segs) = mset [0..<length items]"
    and slots: "\<And>b s. b < bucket_total st \<Longrightarrow> s \<in> set (segs ! b) \<Longrightarrow> s < length items \<and> home st (items ! s) = b"
    and srt: "\<And>b. b < bucket_total st \<Longrightarrow>
      sorted_wrt (tie_slot (item_less (ks_key st) items)) (take (ks_sorted_len st ! b) (segs ! b))"
    by (rule readyE) blast
  let ?r = "item_less (ks_key st) items"
  have base: "key_base items st" and lw: "layouts_wf st" using r by (simp_all add: ready_def key_inv_def)
  have k: "wf_key (ks_key st)" "lawful_key (ks_key st)" using base by (simp_all add: key_base_def)
  note swo = item_less_swo[OF k(2), of items]
  let ?full = "map (\<lambda>b. stable_sort ?r (sort (segs ! b))) [0..<length segs]"
  have mf: "mset (?full ! b) = mset (segs ! b)" if "b < length segs" for b using that by simp
  have dist: "distinct (segs ! b)" if "b < length segs" for b
  proof -
    have "distinct (concat segs)" using perm by (metis distinct_upt mset_eq_imp_distinct_iff)
    then show ?thesis using that by (simp add: distinct_concat_iff)
  qed
  have sorted_seg: "sorted_wrt (tie_slot ?r) (?full ! c)" if "c < length segs" for c
    using that dist[OF that] swo by (simp add: sorted_tie_stable_sort strict_sorted_iff)
  have "sorted_wrt (tie_slot ?r) (concat ?full)"
  proof (rule sorted_wrt_concat)
    show "sorted_wrt (tie_slot ?r) (?full ! c)" if "c < length ?full" for c using that by (intro sorted_seg) simp
    show "tie_slot ?r x y" if "c < d" "d < length ?full" "x \<in> set (?full ! c)" "y \<in> set (?full ! d)" for c d x y
    proof -
      have "x < length items" "home st (items ! x) = c" "y < length items" "home st (items ! y) = d"
        using that len slots[of c x] slots[of d y] by auto
      then have "order_cmp (ks_key st) (items ! x) (items ! y) < 0"
        using that(1) base by (intro home_less[OF lw k]) (simp_all add: key_base_def)
      then show ?thesis by (simp add: tie_slot_def)
    qed
  qed
  moreover have "mset (concat ?full) = mset (concat segs)"
  proof -
    have "map mset ?full = map mset segs" by (rule nth_equalityI) simp_all
    then show ?thesis by (metis mset_concat)
  qed
  ultimately have full: "concat ?full = ranking (ks_key st) items"
    using sorted_ranking[OF k(2), of items] perm tie_slot_asym[OF swo]
    by (intro sorted_wrt_unique[of "tie_slot ?r"]) (simp_all add: ranking_def)
  have bl: "b < length segs" using b len by simp
  have "length (segs ! b) = ks_sorted_len st ! b" using sb bl by (simp add: bucket_sorted_def start sum_take_Suc)
  then have "sorted_wrt (tie_slot ?r) (segs ! b)" using srt[OF b] by simp
  then have seg: "?full ! b = segs ! b"
    using sorted_seg[OF bl] mf[OF bl] tie_slot_asym[OF swo] by (intro sorted_wrt_unique[of "tie_slot ?r"]) auto
  have lens: "seg_starts ?full = seg_starts segs"
  proof -
    have "map length ?full = map length segs" by (rule nth_equalityI) simp_all
    then show ?thesis by simp
  qed
  define j where "j = p - ks_start st ! b"
  have j: "j < length (segs ! b)" and pj: "p = seg_starts segs ! b + j"
    using p bl by (simp_all add: j_def start sum_take_Suc)
  have "concat segs ! p = segs ! b ! j" unfolding pj by (rule segment_nth[OF bl j])
  also have "\<dots> = concat ?full ! p"
    unfolding pj lens[symmetric] using segment_nth[of b ?full j] bl j seg by simp
  finally show ?thesis by (simp only: order full)
qed

lemma bucket_at_eq:
  assumes "ready items st" and "b < bucket_total st" and "ks_start st ! b \<le> p" and "p < ks_start st ! Suc b"
  shows "bucket_at st p = b"
proof -
  from assms(1) obtain segs :: "nat list list" where "length segs = bucket_total st" "ks_start st = seg_starts segs"
    by (rule readyE) blast
  then show ?thesis using assms offsets_upper_bound[of b "map length segs" p] by (simp add: bucket_at_def)
qed

lemma bucket_at_bounds:
  assumes "ready items st" and "p < length items"
  shows "bucket_at st p < bucket_total st" and "ks_start st ! bucket_at st p \<le> p"
    and "p < ks_start st ! Suc (bucket_at st p)"
proof -
  from assms(1) obtain segs where len: "length segs = bucket_total st" and start: "ks_start st = seg_starts segs"
    and "mset (concat segs) = mset [0..<length items]"
    by (rule readyE) blast
  then have "length (concat segs) = length items" by (metis diff_zero length_upt size_mset)
  then have "p < sum_list (map length segs)" using assms(2) by (simp add: length_concat)
  then obtain b where b: "b < length (map length segs)" "seg_starts segs ! b \<le> p" "p < seg_starts segs ! Suc b"
    by (rule offsets_locate)
  have bb: "b < bucket_total st" using b(1) len by simp
  have "bucket_at st p = b"
    using b by (intro bucket_at_eq[OF assms(1) bb]) (simp_all only: start)
  then show "bucket_at st p < bucket_total st" "ks_start st ! bucket_at st p \<le> p"
    "p < ks_start st ! Suc (bucket_at st p)"
    using b bb by (simp_all only: start)
qed

section \<open>Preparing a read\<close>

lemma auto_rebalance_ok:
  assumes inv: "key_inv items st" and plan: "wf_plan plan"
  shows "\<exists>st'. maybe_auto_rebalance plan items st = (Inr (), st') \<and> key_inv items st' \<and> ks_key st' = ks_key st"
proof -
  let ?st = "st\<lparr>ks_stale_checked_at := Some (ks_churn st)\<rparr>"
  have "home ?st = home st" by (rule home_cong) simp_all
  then have "grouping items ?st segs = grouping items st segs" "settled n ?st = settled n st"
    "key_base items ?st = key_base items st" "layouts_wf ?st = layouts_wf st" "assigned items ?st = assigned items st"
    "splitters_wf n ?st = splitters_wf n st" for segs n
    by (simp_all add: grouping_def settled_def key_base_def layouts_wf_def assigned_def splitters_wf_def
        bucket_total_def)
  then have inv': "key_inv items ?st" using inv by (simp add: key_inv_def)
  then have base: "key_base items ?st" by (simp add: key_inv_def)
  show ?thesis
    using relayout_ok[OF base plan] inv inv' by (auto simp: maybe_auto_rebalance_def Let_def)
qed

lemma prepare_ok:
  assumes inv: "key_inv items st" and plan: "wf_plan plan"
  shows "\<exists>st'. prepare plan items st = (Inr (), st') \<and> ready items st' \<and> ks_key st' = ks_key st"
proof -
  obtain s where s: "maybe_auto_rebalance plan items st = (Inr (), s)" "key_inv items s" "ks_key s = ks_key st"
    using auto_rebalance_ok[OF assms] by blast
  consider (build) "\<not> ks_has_order s" | (regroup) "ks_has_order s" "ks_order_stale s"
    | (current) "ks_has_order s" "\<not> ks_order_stale s" by blast
  then show ?thesis
  proof cases
    case build
    then show ?thesis using s build_order_ok[OF s(2)] by (simp add: prepare_def ready_def)
  next
    case regroup
    then obtain segs where "grouping items s segs" using s(2) by (auto simp: key_inv_def)
    from regroup_ok[OF s(2) this regroup(1)] show ?thesis using s regroup by (simp add: prepare_def ready_def)
  next
    case current
    then have "ready items s" using s(2) by (simp add: key_inv_def ready_def)
    then show ?thesis using s current by (simp add: prepare_def)
  qed
qed

end
