(* ===== verification/Removal_Invariants.thy ===== *)
theory Removal_Invariants
  imports Grouping_Invariants
begin

text \<open>
  Removing elements: \<open>compact\<close> keeps the invariant of a key state. \<open>remap_wf\<close> says how the
  slot numbers change: the kept slots move down in order, removed ones map to \<open>None\<close>.
\<close>

section \<open>Renumbering\<close>

abbreviation kept_slots :: "nat option list \<Rightarrow> nat \<Rightarrow> nat list" where
  "kept_slots remap m \<equiv> filter (\<lambda>s. remap ! s \<noteq> None) [0..<m]"

definition remap_wf :: "'a list \<Rightarrow> nat option list \<Rightarrow> 'a list \<Rightarrow> bool" where
  "remap_wf items remap items' \<longleftrightarrow>
     length remap = length items
     \<and> items' = map ((!) items) (kept_slots remap (length items))
     \<and> (\<forall>s<length items. remap ! s \<noteq> None \<longrightarrow> remap ! s = Some (length (kept_slots remap s)))"

lemma kept_slots_mono: "s \<le> t \<Longrightarrow> length (kept_slots remap s) \<le> length (kept_slots remap t)"
  by (metis filter_append le_add1 le_add_diff_inverse length_append upt_add_eq_append zero_le)

lemma kept_slots_less: "s < t \<Longrightarrow> remap ! s \<noteq> None \<Longrightarrow> length (kept_slots remap s) < length (kept_slots remap t)"
proof -
  assume "s < t" "remap ! s \<noteq> None"
  then have "length (kept_slots remap s) < length (kept_slots remap (Suc s))" by simp
  also have "\<dots> \<le> length (kept_slots remap t)" using \<open>s < t\<close> by (intro kept_slots_mono) simp
  finally show ?thesis .
qed

lemma remap_facts:
  assumes wf: "remap_wf items remap items'" and s: "s < length items" and t: "remap ! s = Some t"
  shows "t < length items'" and "items' ! t = items ! s" and "t = length (kept_slots remap s)" and "t \<le> s"
proof -
  let ?ks = "kept_slots remap (length items)"
  show tl: "t = length (kept_slots remap s)" using assms by (auto simp: remap_wf_def)
  have items': "items' = map ((!) items) ?ks" using wf by (simp add: remap_wf_def)
  have "t < length ?ks" using kept_slots_less[OF s, of remap] t by (simp add: tl)
  then show "t < length items'" by (simp add: items')
  moreover have "?ks ! t = s"
    using nth_filter_index[of s "[0..<length items]" "\<lambda>s. remap ! s \<noteq> None"] s t by (simp add: tl take_upt)
  ultimately show "items' ! t = items ! s" by (simp add: items')
  show "t \<le> s" using length_filter_le[of "\<lambda>s. remap ! s \<noteq> None" "[0..<s]"] by (simp add: tl)
qed

lemma remap_mono:
  assumes "remap_wf items remap items'" and "s < s'" "s' < length items" and "remap ! s = Some t" "remap ! s' = Some t'"
  shows "t < t'"
  using remap_facts(3)[OF assms(1), of s t] remap_facts(3)[OF assms(1,3,5)] assms kept_slots_less[of s s' remap] by simp

lemma remap_length: "remap_wf items remap items' \<Longrightarrow> length items' = length (kept_slots remap (length items))"
  by (simp add: remap_wf_def)

lemma remap_subset: "remap_wf items remap items' \<Longrightarrow> set items' \<subseteq> set items"
  by (auto simp: remap_wf_def)

lemma renumber_all: "remap_wf items remap items' \<Longrightarrow> renumber remap [0..<length items] = [0..<length items']"
proof -
  assume wf: "remap_wf items remap items'"
  have "renumber remap [0..<m] = [0..<length (kept_slots remap m)]" if "m \<le> length items" for m
    using that
  proof (induction m)
    case (Suc m)
    show ?case
    proof (cases "remap ! m")
      case (Some t)
      then have "t = length (kept_slots remap m)" using remap_facts(3)[OF wf _ Some] Suc.prems by simp
      then show ?thesis using Suc Some by (simp add: map_filter_append List.map_filter_def)
    qed (use Suc in \<open>simp_all add: List.map_filter_def\<close>)
  qed (simp add: List.map_filter_def)
  then show ?thesis using remap_length[OF wf] by simp
qed

lemma mset_map_filter_cong: "mset xs = mset ys \<Longrightarrow> mset (List.map_filter f xs) = mset (List.map_filter f ys)"
  unfolding List.map_filter_def mset_map mset_filter by simp

lemma tie_slot_renumber:
  assumes wf: "remap_wf items remap items'" and st: "s < length items" "s' < length items"
    and t: "remap ! s = Some t" "remap ! s' = Some t'" and tie: "tie_slot (item_less k items) s s'"
  shows "tie_slot (item_less k items') t t'"
proof -
  have "items' ! t = items ! s" "items' ! t' = items ! s'"
    using remap_facts(2)[OF wf st(1) t(1)] remap_facts(2)[OF wf st(2) t(2)] by simp_all
  moreover have "s < s' \<Longrightarrow> t < t'" using remap_mono[OF wf _ st(2) t] by simp
  ultimately show ?thesis using tie by (auto simp: tie_slot_def)
qed

lemma sorted_renumber:
  assumes wf: "remap_wf items remap items'" and "\<forall>s\<in>set xs. s < length items"
    and "sorted_wrt (tie_slot (item_less k items)) xs"
  shows "sorted_wrt (tie_slot (item_less k items')) (renumber remap xs)"
proof -
  let ?ks = "filter (\<lambda>s. remap ! s \<noteq> None) xs"
  have "sorted_wrt (tie_slot (item_less k items)) ?ks" using assms(3) by (rule sorted_wrt_filter)
  then have "sorted_wrt (\<lambda>s s'. tie_slot (item_less k items') (the (remap ! s)) (the (remap ! s'))) ?ks"
    by (rule sorted_wrt_mono_rel[rotated]) (use assms(2) tie_slot_renumber[OF wf] in fastforce)
  then show ?thesis by (simp add: List.map_filter_def sorted_wrt_map)
qed

section \<open>Moving keys, bucket ids and counts\<close>

lemma drop_SucI: "drop m xs = drop m ys \<Longrightarrow> drop (Suc m) xs = drop (Suc m) ys"
  by (metis drop_Suc tl_drop)

lemma take_write:
  "w \<le> m \<Longrightarrow> m < length xs \<Longrightarrow> take w ys = zs \<Longrightarrow> length ys = length xs \<Longrightarrow> drop m ys = drop m xs \<Longrightarrow>
   take (Suc w) (ys[w := ys ! m]) = zs @ [xs ! m] \<and> drop (Suc m) (ys[w := ys ! m]) = drop (Suc m) xs"
proof -
  assume a: "w \<le> m" "m < length xs" "take w ys = zs" "length ys = length xs" "drop m ys = drop m xs"
  then have "ys ! m = xs ! m" by (metis drop_eq_nths hd_drop_conv_nth)
  moreover have "drop (Suc m) ys = drop (Suc m) xs" using arg_cong[OF a(5), of "drop 1"] by simp
  ultimately show ?thesis using a by (simp add: take_Suc_conv_app_nth)
qed

lemma compact_fold:
  assumes "m \<le> n" and "length (ks_buckets st) = n" and "has_key (ks_key st) \<longrightarrow> length (ks_keys st) = n"
    and "\<forall>s<n. ks_buckets st ! s < length (ks_counts st)"
  shows "\<exists>keys buckets counts. fold (compact_step remap) [0..<m] (0, st)
      = (length (kept_slots remap m), st\<lparr>ks_keys := keys, ks_buckets := buckets, ks_counts := counts\<rparr>)
    \<and> length buckets = n \<and> take (length (kept_slots remap m)) buckets = map ((!) (ks_buckets st)) (kept_slots remap m)
    \<and> drop m buckets = drop m (ks_buckets st)
    \<and> (if has_key (ks_key st)
       then length keys = n \<and> take (length (kept_slots remap m)) keys = map ((!) (ks_keys st)) (kept_slots remap m)
            \<and> drop m keys = drop m (ks_keys st)
       else keys = ks_keys st)
    \<and> counts = map (\<lambda>b. ks_counts st ! b - length (filter (\<lambda>s. remap ! s = None \<and> ks_buckets st ! s = b) [0..<m]))
                 [0..<length (ks_counts st)]"
  using assms(1)
proof (induction m)
  case 0
  have "ks_counts st = map (\<lambda>b. ks_counts st ! b) [0..<length (ks_counts st)]" by (simp add: map_nth)
  then show ?case using assms
    by (intro exI[of _ "ks_keys st"] exI[of _ "ks_buckets st"] exI[of _ "ks_counts st"]) simp
next
  case (Suc m)
  let ?w = "length (kept_slots remap m)" and ?B = "ks_buckets st"
  obtain keys buckets counts where f: "fold (compact_step remap) [0..<m] (0, st)
      = (?w, st\<lparr>ks_keys := keys, ks_buckets := buckets, ks_counts := counts\<rparr>)"
    and B: "length buckets = n" "take ?w buckets = map ((!) ?B) (kept_slots remap m)" "drop m buckets = drop m ?B"
    and K: "if has_key (ks_key st)
       then length keys = n \<and> take ?w keys = map ((!) (ks_keys st)) (kept_slots remap m)
            \<and> drop m keys = drop m (ks_keys st)
       else keys = ks_keys st"
    and C: "counts = map (\<lambda>b. ks_counts st ! b - length (filter (\<lambda>s. remap ! s = None \<and> ?B ! s = b) [0..<m]))
                 [0..<length (ks_counts st)]"
    using Suc by auto
  have m: "m < n" using Suc.prems by simp
  have w: "?w \<le> m" using length_filter_le[of "\<lambda>s. remap ! s \<noteq> None" "[0..<m]"] by simp
  have Bm: "buckets ! m = ?B ! m" using B m assms(2) by (metis drop_eq_nths hd_drop_conv_nth)
  have dropS: "drop (Suc m) buckets = drop (Suc m) ?B" using arg_cong[OF B(3), of "drop 1"] by simp
  have dropK: "has_key (ks_key st) \<Longrightarrow> drop (Suc m) keys = drop (Suc m) (ks_keys st)"
    using K by (intro drop_SucI) simp
  have fS: "fold (compact_step remap) [0..<Suc m] (0, st)
      = compact_step remap m (?w, st\<lparr>ks_keys := keys, ks_buckets := buckets, ks_counts := counts\<rparr>)"
    by (simp add: f)
  show ?case
  proof (cases "remap ! m = None")
    case True
    let ?C = "counts[?B ! m := counts ! (?B ! m) - 1]"
    have kept: "kept_slots remap (Suc m) = kept_slots remap m" using True by simp
    show ?thesis
    proof (intro exI conjI)
      show "fold (compact_step remap) [0..<Suc m] (0, st)
          = (length (kept_slots remap (Suc m)), st\<lparr>ks_keys := keys, ks_buckets := buckets, ks_counts := ?C\<rparr>)"
        unfolding fS kept using True by (simp add: compact_step_def Bm Let_def)
      show "take (length (kept_slots remap (Suc m))) buckets = map ((!) ?B) (kept_slots remap (Suc m))"
        unfolding kept by (rule B(2))
      show "if has_key (ks_key st)
         then length keys = n \<and> take (length (kept_slots remap (Suc m))) keys = map ((!) (ks_keys st)) (kept_slots remap (Suc m))
              \<and> drop (Suc m) keys = drop (Suc m) (ks_keys st)
         else keys = ks_keys st"
        unfolding kept using K dropK by argo
      show "?C = map (\<lambda>b. ks_counts st ! b - length (filter (\<lambda>s. remap ! s = None \<and> ?B ! s = b) [0..<Suc m]))
            [0..<length (ks_counts st)]"
        using True assms(4) m by (intro nth_equalityI) (auto simp: C nth_list_update)
    qed (rule B(1) dropS)+
  next
    case False
    let ?buckets = "buckets[?w := buckets ! m]"
    let ?keys = "if has_key (ks_key st) then keys[?w := keys ! m] else keys"
    have kept: "kept_slots remap (Suc m) = kept_slots remap m @ [m]" using False by simp
    have wS: "length (kept_slots remap m @ [m]) = Suc ?w" by simp
    have nB: "take (Suc ?w) ?buckets = map ((!) ?B) (kept_slots remap m) @ [?B ! m]
        \<and> drop (Suc m) ?buckets = drop (Suc m) ?B"
      using B m w assms(2) by (intro take_write) auto
    have nK: "has_key (ks_key st) \<Longrightarrow> take (Suc ?w) (keys[?w := keys ! m])
        = map ((!) (ks_keys st)) (kept_slots remap m) @ [ks_keys st ! m]
        \<and> drop (Suc m) (keys[?w := keys ! m]) = drop (Suc m) (ks_keys st)"
      using K m w assms(3) by (intro take_write) auto
    show ?thesis
    proof (intro exI conjI)
      show "fold (compact_step remap) [0..<Suc m] (0, st)
          = (length (kept_slots remap (Suc m)), st\<lparr>ks_keys := ?keys, ks_buckets := ?buckets, ks_counts := counts\<rparr>)"
        unfolding fS kept wS using False by (auto simp: compact_step_def)
      show "take (length (kept_slots remap (Suc m))) ?buckets = map ((!) ?B) (kept_slots remap (Suc m))"
        unfolding kept wS using nB by simp
      show "if has_key (ks_key st)
         then length ?keys = n \<and> take (length (kept_slots remap (Suc m))) ?keys = map ((!) (ks_keys st)) (kept_slots remap (Suc m))
              \<and> drop (Suc m) ?keys = drop (Suc m) (ks_keys st)
         else ?keys = ks_keys st"
        unfolding kept wS using nK K by (cases "has_key (ks_key st)") simp_all
      show "counts = map (\<lambda>b. ks_counts st ! b - length (filter (\<lambda>s. remap ! s = None \<and> ?B ! s = b) [0..<Suc m]))
            [0..<length (ks_counts st)]"
        using False by (auto simp: C)
    qed (use B(1) nB in simp_all)
  qed
qed

section \<open>Compacting a key state\<close>

lemma remap_splitters_ok:
  "remap_splitters remap ss = (True, ss') \<Longrightarrow> ss' = map (\<lambda>s. the (remap ! s)) ss \<and> (\<forall>s\<in>set ss. remap ! s \<noteq> None)"
  by (induction ss arbitrary: ss') (auto split: option.splits prod.splits)

lemma length_filter_or:
  "(\<And>x. \<not> (P x \<and> Q x)) \<Longrightarrow>
   length (filter (\<lambda>x. P x \<or> Q x) xs) = length (filter P xs) + length (filter Q xs)"
  by (induction xs) auto

lemma count_kept:
  assumes wf: "remap_wf items remap items'"
  shows "length (filter P items) - length (filter (\<lambda>s. remap ! s = None \<and> P (items ! s)) [0..<length items])
    = length (filter P items')"
proof -
  let ?n = "length items"
  have "length (filter P items) = length (filter (\<lambda>s. P (items ! s)) [0..<?n])"
    by (simp only: length_filter_items)
  also have "\<dots> = length (filter (\<lambda>s. remap ! s = None \<and> P (items ! s) \<or> remap ! s \<noteq> None \<and> P (items ! s)) [0..<?n])"
    by (intro arg_cong[where f = length] filter_cong refl) blast
  also have "\<dots> = length (filter (\<lambda>s. remap ! s = None \<and> P (items ! s)) [0..<?n])
      + length (filter (\<lambda>s. remap ! s \<noteq> None \<and> P (items ! s)) [0..<?n])"
    by (rule length_filter_or[of "\<lambda>s. remap ! s = None \<and> P (items ! s)"
          "\<lambda>s. remap ! s \<noteq> None \<and> P (items ! s)"]) blast
  also have "filter (\<lambda>s. remap ! s \<noteq> None \<and> P (items ! s)) [0..<?n] = filter (\<lambda>s. P (items ! s)) (kept_slots remap ?n)"
    by (simp add: conj_commute)
  also have "length (filter (\<lambda>s. P (items ! s)) (kept_slots remap ?n)) = length (filter P items')"
    using wf by (simp add: remap_wf_def filter_map comp_def)
  finally show ?thesis by simp
qed

lemma compacted_state:
  assumes inv: "key_inv items st" and wf: "remap_wf items remap items'"
  defines "n' \<equiv> length items'"
  shows "\<exists>s1. (case fold (compact_step remap) [0..<length remap] (0, st) of (_, s) \<Rightarrow>
        s\<lparr>ks_keys := resize (if has_key (ks_key s) then n' else 0) 0 (ks_keys s),
          ks_buckets := resize n' 0 (ks_buckets s), ks_churn := ks_churn s + (length remap - n')\<rparr>) = s1
    \<and> (\<exists>keys buckets counts churn. s1 = st\<lparr>ks_keys := keys, ks_buckets := buckets, ks_counts := counts, ks_churn := churn\<rparr>)
    \<and> key_base items' s1 \<and> layouts_wf s1 \<and> assigned items' s1"
proof -
  let ?n = "length items" and ?k = "ks_key st" and ?ks = "kept_slots remap (length items)"
  have base: "key_base items st" and lw: "layouts_wf st" and as: "assigned items st"
    using inv by (simp_all add: key_inv_def)
  have len: "length remap = ?n" using wf by (simp add: remap_wf_def)
  have n': "n' = length ?ks" by (simp add: n'_def remap_length[OF wf])
  have blen: "length (ks_buckets st) = ?n" using as by (simp add: assigned_def)
  have klen: "has_key ?k \<longrightarrow> length (ks_keys st) = ?n" using base by (simp add: key_base_def)
  have bounds: "\<forall>s<?n. ks_buckets st ! s < length (ks_counts st)"
    using slot_bounds(2)[OF inv] counts_facts(1)[OF inv] by simp
  obtain keys buckets counts where f: "fold (compact_step remap) [0..<?n] (0, st)
      = (length ?ks, st\<lparr>ks_keys := keys, ks_buckets := buckets, ks_counts := counts\<rparr>)"
    and B: "length buckets = ?n" "take (length ?ks) buckets = map ((!) (ks_buckets st)) ?ks"
    and K0: "if has_key ?k then length keys = ?n \<and> take (length ?ks) keys = map ((!) (ks_keys st)) ?ks
        \<and> drop ?n keys = drop ?n (ks_keys st) else keys = ks_keys st"
    and C: "counts = map (\<lambda>b. ks_counts st ! b - length (filter (\<lambda>s. remap ! s = None \<and> ks_buckets st ! s = b) [0..<?n]))
                 [0..<length (ks_counts st)]"
    using compact_fold[OF order_refl blen klen bounds, of remap] by - (elim exE conjE, rule that)
  have K: "has_key ?k \<Longrightarrow> length keys = ?n \<and> take (length ?ks) keys = map ((!) (ks_keys st)) ?ks"
    using K0 by (simp split: if_splits)
  have ks_le: "length ?ks \<le> ?n" using length_filter_le[of "\<lambda>s. remap ! s \<noteq> None" "[0..<?n]"] by simp
  have item': "items' = map ((!) items) ?ks" using wf by (simp add: remap_wf_def)
  define s1 where "s1 = st\<lparr>ks_keys := resize (if has_key ?k then n' else 0) 0 keys,
      ks_buckets := resize n' 0 buckets, ks_counts := counts, ks_churn := ks_churn st + (?n - n')\<rparr>"
  have run: "(case fold (compact_step remap) [0..<length remap] (0, st) of (_, s) \<Rightarrow>
        s\<lparr>ks_keys := resize (if has_key (ks_key s) then n' else 0) 0 (ks_keys s),
          ks_buckets := resize n' 0 (ks_buckets s), ks_churn := ks_churn s + (length remap - n')\<rparr>) = s1"
    by (simp add: len f s1_def)
  have "map ((!) (ks_buckets st)) ?ks = map (home st) items'"
    unfolding item' map_map using slot_bounds(1)[OF inv] by (intro map_cong) auto
  then have buckets': "ks_buckets s1 = map (home st) items'"
    using B ks_le n' by (simp add: s1_def resize_def)
  have keys': "has_key ?k \<Longrightarrow> ks_keys s1 = map (key_of ?k) items'"
    using K ks_le n' base by (auto simp: s1_def resize_def item' key_base_def)
  have home: "home s1 = home st" by (rule home_cong) (simp_all add: s1_def)
  have total: "bucket_total s1 = bucket_total st" by (simp add: s1_def bucket_total_def)
  have "filter (\<lambda>s. remap ! s = None \<and> ks_buckets st ! s = b) [0..<?n]
      = filter (\<lambda>s. remap ! s = None \<and> home st (items ! s) = b) [0..<?n]" for b
    using slot_bounds(1)[OF inv] by (intro filter_cong) auto
  then have counts': "ks_counts s1 = map (\<lambda>b. length (filter (\<lambda>x. home st x = b) items')) [0..<bucket_total st]"
    using as count_kept[OF wf, of "\<lambda>x. home st x = b" for b] by (simp add: s1_def C assigned_def cong: map_cong)
  have "layouts_wf s1" using layouts_wf_cong[of s1 st] lw by (simp add: s1_def)
  moreover have "assigned items' s1" using buckets' counts' by (simp add: assigned_def home total)
  moreover have "ks_key s1 = ?k" by (simp add: s1_def)
  then have "key_base items' s1"
    using base keys' remap_subset[OF wf] ks_le n' by (auto simp: key_base_def n'_def)
  moreover have "\<exists>keys buckets counts churn. s1 = st\<lparr>ks_keys := keys, ks_buckets := buckets, ks_counts := counts, ks_churn := churn\<rparr>"
    unfolding s1_def by blast
  ultimately show ?thesis using run by blast
qed

lemma compact_ok:
  assumes inv: "key_inv items st" and wf: "remap_wf items remap items'" and plan: "wf_plan plan"
    and current: "ks_has_order st \<longrightarrow> settled (length items) st"
  shows "\<exists>st'. compact plan items' remap (length items') st = (Inr (), st') \<and> key_inv items' st'
    \<and> ks_key st' = ks_key st"
proof -
  let ?n' = "length items'"
  obtain s1 where s1: "(case fold (compact_step remap) [0..<length remap] (0, st) of (_, s) \<Rightarrow>
        s\<lparr>ks_keys := resize (if has_key (ks_key s) then ?n' else 0) 0 (ks_keys s),
          ks_buckets := resize ?n' 0 (ks_buckets s), ks_churn := ks_churn s + (length remap - ?n')\<rparr>) = s1"
    and ext: "\<exists>keys buckets counts churn. s1 = st\<lparr>ks_keys := keys, ks_buckets := buckets, ks_counts := counts, ks_churn := churn\<rparr>"
    and base: "key_base items' s1" and lw: "layouts_wf s1" and as: "assigned items' s1"
    using compacted_state[OF inv wf] by blast
  have flds: "ks_key s1 = ks_key st" "ks_splitter_slots s1 = ks_splitter_slots st" "ks_has_order s1 = ks_has_order st"
    "ks_order s1 = ks_order st" "ks_start s1 = ks_start st" "ks_sorted_len s1 = ks_sorted_len st"
    "bucket_total s1 = bucket_total st"
    using ext by (auto simp: bucket_total_def)
  obtain ok slots where sp: "remap_splitters remap (ks_splitter_slots st) = (ok, slots)" by fastforce
  define s2 where "s2 = s1\<lparr>ks_splitter_slots := slots\<rparr>"
  have run: "compact plan items' remap ?n' st = (if \<not> ok then relayout plan items' s2
      else if \<not> ks_has_order s2 then (Inr (), s2)
      else let k = bucket_total s2;
               (out, order, start, sorted_len) =
                 fold (filter_bucket s2 remap) [0..<k] (0, ks_order s2, replicate (k + 1) 0, ks_sorted_len s2)
           in (Inr (), s2\<lparr>ks_order := resize ?n' 0 order, ks_start := start, ks_sorted_len := sorted_len,
                          ks_moved := replicate ?n' False, ks_ordered_slots := ?n'\<rparr>))"
  proof -
    obtain w s where f: "fold (compact_step remap) [0..<length remap] (0, st) = (w, s)" by fastforce
    have "s\<lparr>ks_keys := resize (if has_key (ks_key s) then ?n' else 0) 0 (ks_keys s),
          ks_buckets := resize ?n' 0 (ks_buckets s), ks_churn := ks_churn s + (length remap - ?n')\<rparr> = s1"
      using s1 by (simp only: f prod.case)
    then show ?thesis by (simp only: compact_def Let_def f prod.case flds(2) sp s2_def)
  qed
  have base2: "key_base items' s2" using base by (simp add: key_base_def s2_def)
  show ?thesis
  proof (cases ok)
    case False
    then show ?thesis using relayout_ok[OF base2 plan] run flds(1) by (auto simp: s2_def)
  next
    case True
    have "layouts_wf s2 = layouts_wf s1" "home s2 = home s1" "bucket_total s2 = bucket_total s1"
      by (simp_all add: layouts_wf_def home_def bucket_total_def s2_def fun_eq_iff)
    then have lw2: "layouts_wf s2" and as2: "assigned items' s2"
      using lw as by (simp_all add: assigned_def s2_def)
    have spl: "splitters_wf (length items) st" using inv by (simp add: key_inv_def)
    have slots: "slots = map (\<lambda>s. the (remap ! s)) (ks_splitter_slots st)"
      and kept: "\<And>s. s \<in> set (ks_splitter_slots st) \<Longrightarrow> remap ! s \<noteq> None"
      using remap_splitters_ok sp True by auto
    have below: "the (remap ! s) < ?n'" if "s \<in> set (ks_splitter_slots st)" for s
      using that kept[OF that] spl remap_facts(1)[OF wf] by (auto simp: splitters_wf_def)
    have "sorted_wrt (\<lambda>s t. the (remap ! s) \<le> the (remap ! t)) (ks_splitter_slots st)"
    proof (rule sorted_wrt_mono_rel[where P = "(\<le>)"])
      fix s t assume st: "s \<in> set (ks_splitter_slots st)" "t \<in> set (ks_splitter_slots st)" "s \<le> t"
      obtain u v where uv: "remap ! s = Some u" "remap ! t = Some v" using kept st(1,2) by blast
      have "t < length items" using spl st(2) by (simp add: splitters_wf_def)
      then show "the (remap ! s) \<le> the (remap ! t)"
        using remap_mono[OF wf _ _ uv] st(3) uv by (cases "s = t") (auto intro: less_imp_le)
    qed (use spl in \<open>simp add: splitters_wf_def\<close>)
    then have sp2: "splitters_wf ?n' s2" using below by (simp add: splitters_wf_def s2_def slots sorted_wrt_map)
    show ?thesis
    proof (cases "ks_has_order st")
      case False
      then have "key_inv items' s2" using base2 lw2 as2 sp2 by (simp add: key_inv_def s2_def flds)
      then show ?thesis using run True False by (auto simp: s2_def flds)
    next
      case ho: True
      have r: "ready items st" using inv current ho by (simp add: ready_def)
      from r obtain segs where len: "length segs = bucket_total st"
        and order: "ks_order st = concat segs" and start: "ks_start st = seg_starts segs"
        and perm: "mset (concat segs) = mset [0..<length items]"
        and sll: "length (ks_sorted_len st) = bucket_total st"
        and mem: "\<And>b s. b < bucket_total st \<Longrightarrow> s \<in> set (segs ! b) \<Longrightarrow> s < length items \<and> home st (items ! s) = b"
        and sl: "\<And>b. b < bucket_total st \<Longrightarrow> ks_sorted_len st ! b \<le> length (segs ! b)"
        and srt: "\<And>b. b < bucket_total st \<Longrightarrow>
          sorted_wrt (tie_slot (item_less (ks_key st) items)) (take (ks_sorted_len st ! b) (segs ! b))"
        by (rule readyE) blast
      let ?ren = "renumber remap"
      let ?segs = "map ?ren segs"
      let ?sl = "map (\<lambda>b. length (?ren (take (ks_sorted_len st ! b) (segs ! b)))) [0..<length segs]"
      have start2: "ks_start s2 = seg_starts segs" by (simp add: s2_def flds start)
      obtain xs where fb: "fold (filter_bucket s2 remap) [0..<length segs] (0, concat segs, replicate (Suc (length segs)) 0, ks_sorted_len st)
          = (length (concat ?segs), xs, seg_starts ?segs,
             map (\<lambda>b. if b < length segs then length (?ren (take (ks_sorted_len st ! b) (segs ! b))) else ks_sorted_len st ! b)
               [0..<length segs])"
        and tk: "take (length (concat ?segs)) xs = concat ?segs" and "length xs = length (concat segs)"
        using filter_buckets[OF start2 _ order_refl, of "ks_sorted_len st" remap] sll len by auto
      have "map (\<lambda>b. if b < length segs then length (?ren (take (ks_sorted_len st ! b) (segs ! b))) else ks_sorted_len st ! b)
               [0..<length segs] = ?sl"
        by (intro map_cong) auto
      note fb = fb[unfolded this]
      have cperm: "mset (concat ?segs) = mset [0..<?n']"
        using mset_map_filter_cong[OF perm, of "(!) remap"] renumber_all[OF wf] by (simp only: map_filter_concat)
      then have clen: "length (concat ?segs) = ?n'" by (metis diff_zero length_upt size_mset)
      define s3 where "s3 = s2\<lparr>ks_order := concat ?segs, ks_start := seg_starts ?segs, ks_sorted_len := ?sl,
          ks_moved := replicate ?n' False, ks_ordered_slots := ?n'\<rparr>"
      have "resize ?n' 0 xs = concat ?segs"
      proof -
        have "length (concat ?segs) \<le> length xs" using tk by (metis length_take min.cobounded1 nat_le_linear take_all)
        then show ?thesis using tk clen by (simp add: resize_def)
      qed
      moreover have f2: "ks_order s2 = concat segs" "bucket_total s2 = length segs"
        "ks_sorted_len s2 = ks_sorted_len st" "ks_has_order s2"
        using len ho flds(7) by (simp_all add: s2_def flds order bucket_total_def)
      ultimately have run3: "compact plan items' remap ?n' st = (Inr (), s3)"
        using True fb by (simp add: run f2 s3_def)
      have settled3: "settled ?n' s3" by (simp add: settled_def s3_def)
      have total3: "bucket_total s3 = length segs" by (simp add: s3_def s2_def flds len bucket_total_def) (simp add: flds(7)[unfolded bucket_total_def])
      have B3: "ks_buckets s3 = map (home st) items'"
        using as ext by (auto simp: s3_def s2_def assigned_def home_def fun_eq_iff)
      have key3: "ks_key s3 = ks_key st" by (simp add: s3_def s2_def flds)
      have "grouping items' s3 ?segs"
        unfolding grouping_def
      proof (intro conjI allI impI)
        fix b assume "b < bucket_total s3"
        then have b: "b < length segs" and bt: "b < bucket_total st" using len by (simp_all add: total3)
        have pre: "take (?sl ! b) (?ren (segs ! b)) = ?ren (take (ks_sorted_len st ! b) (segs ! b))"
          using b map_filter_append[of "(!) remap" "take (ks_sorted_len st ! b) (segs ! b)" "drop (ks_sorted_len st ! b) (segs ! b)"]
          by simp
        show "ks_sorted_len s3 ! b \<le> length (?segs ! b)"
          using b arg_cong[OF pre, of length] by (simp add: s3_def)
        show "\<forall>t\<in>set (?segs ! b). \<not> ks_moved s3 ! t \<longrightarrow> ks_buckets s3 ! t = b"
        proof (intro ballI impI)
          fix t assume "t \<in> set (?segs ! b)"
          then obtain s where s: "s \<in> set (segs ! b)" "remap ! s = Some t"
            using b by (auto simp: List.map_filter_def)
          have "s < length items" "home st (items ! s) = b" using mem[OF bt s(1)] by auto
          then show "ks_buckets s3 ! t = b" using remap_facts(1,2)[OF wf _ s(2)] by (simp add: B3)
        qed
        have "sorted_wrt (tie_slot (item_less (ks_key st) items')) (?ren (take (ks_sorted_len st ! b) (segs ! b)))"
          by (rule sorted_renumber[OF wf _ srt[OF bt]]) (use mem[OF bt] in \<open>auto dest: in_set_takeD\<close>)
        then have "sorted_wrt (tie_slot (item_less (ks_key s3) items')) (take (ks_sorted_len s3 ! b) (?segs ! b))"
          using pre b by (simp add: key3) (simp add: s3_def)
        then show "sorted_wrt (tie_slot (item_less (ks_key s3) items'))
            (filter (\<lambda>s. \<not> ks_moved s3 ! s) (take (ks_sorted_len s3 ! b) (?segs ! b)))"
          by (rule sorted_wrt_filter)
      qed (use cperm in \<open>simp_all add: total3, simp_all add: s3_def\<close>)
      moreover have "layouts_wf s3 = layouts_wf s2" "home s3 = home s2" "bucket_total s3 = bucket_total s2"
        by (simp_all add: layouts_wf_def home_def bucket_total_def s3_def fun_eq_iff)
      then have "layouts_wf s3" "assigned items' s3" using lw2 as2 by (simp_all add: assigned_def s3_def)
      moreover have "key_base items' s3" "splitters_wf ?n' s3"
        using base2 sp2 by (simp_all add: key_base_def splitters_wf_def s3_def)
      ultimately have "key_inv items' s3" using settled3 by (auto simp: key_inv_def)
      then show ?thesis using run3 key3 by blast
    qed
  qed
qed

end
