(* ===== verification/Bucket_Index.thy ===== *)
theory Bucket_Index
  imports Removal_Invariants
begin

text \<open>
  \<open>class BucketIndex\<close> of \<open>bucket_index.hpp\<close>: the object and every public operation. An
  operation returns its value or the exception together with the object it leaves behind.
  The visitor of \<open>for_each\<close> is the list of elements it is called with.
\<close>

section \<open>The object\<close>

datatype direction = Ascending | Descending

record 'a index =
  ix_plan :: bucket_plan
  ix_items :: "'a list"
  ix_states :: "'a key_state list"
  ix_active :: "nat option"
  ix_direction :: direction

definition new_index :: "bucket_plan \<Rightarrow> 'a index" where
  "new_index plan = \<lparr>ix_plan = plan, ix_items = [], ix_states = [], ix_active = None, ix_direction = Ascending\<rparr>"

definition find_state :: "'a index \<Rightarrow> string \<Rightarrow> nat option" where
  "find_state ix name =
     (let i = find_index (\<lambda>st. sk_name (ks_key st) = name) (ix_states ix)
      in if i < length (ix_states ix) then Some i else None)"

definition require_state :: "'a index \<Rightarrow> string \<Rightarrow> exn + nat" where
  "require_state ix name =
     (case find_state ix name of
        None \<Rightarrow> Inl (Invalid_argument (''BucketIndex: unknown sort key '' @ quoted name))
      | Some i \<Rightarrow> Inr i)"

text \<open>Running an operation on the key state at index \<open>i\<close>.\<close>

definition on_state ::
    "nat \<Rightarrow> ('a key_state \<Rightarrow> ('a key_state, 'v) run) \<Rightarrow> 'a index \<Rightarrow> ('a index, 'v) run" where
  "on_state i f ix =
     (case f (ix_states ix ! i) of (r, st) \<Rightarrow> (r, ix\<lparr>ix_states := (ix_states ix)[i := st]\<rparr>))"

definition on_states :: "('a key_state \<Rightarrow> ('a key_state, unit) run) \<Rightarrow> 'a index \<Rightarrow> ('a index, unit) run" where
  "on_states f ix = (case each_do f (ix_states ix) of (r, sts) \<Rightarrow> (r, ix\<lparr>ix_states := sts\<rparr>))"

section \<open>Sort keys\<close>

definition add_sort_key :: "'a sort_key \<Rightarrow> 'a index \<Rightarrow> ('a index, unit) run" where
  "add_sort_key k ix =
     (if find_state ix (sk_name k) \<noteq> None
      then (Inl (Invalid_argument (''BucketIndex: duplicate sort key '' @ quoted (sk_name k))), ix)
      else
        let st = new_key_state k;
            st = (if has_key k then st\<lparr>ks_keys := map (key_of k) (ix_items ix)\<rparr> else st)
        in case relayout (ix_plan ix) (ix_items ix) st of
             (Inl e, _) \<Rightarrow> (Inl e, ix)
           | (Inr _, st) \<Rightarrow> (Inr (), ix\<lparr>ix_states := ix_states ix @ [st]\<rparr>))"

definition remove_sort_key :: "string \<Rightarrow> 'a index \<Rightarrow> ('a index, bool) run" where
  "remove_sort_key name ix =
     (case find_state ix name of
        None \<Rightarrow> (Inr False, ix)
      | Some i \<Rightarrow>
          (Inr True,
           ix\<lparr>ix_states := take i (ix_states ix) @ drop (i + 1) (ix_states ix),
              ix_active := (if ix_active ix = Some i then None
                            else case ix_active ix of
                                   None \<Rightarrow> None | Some a \<Rightarrow> if i < a then Some (a - 1) else Some a)\<rparr>))"

definition sort_key_names :: "'a index \<Rightarrow> string list" where
  "sort_key_names ix = map (\<lambda>st. sk_name (ks_key st)) (ix_states ix)"

section \<open>Selecting the order\<close>

abbreviation prepare_state :: "nat \<Rightarrow> 'a index \<Rightarrow> ('a index, unit) run" where
  "prepare_state i ix \<equiv> on_state i (prepare (ix_plan ix) (ix_items ix)) ix"

definition sort_by :: "string \<Rightarrow> direction \<Rightarrow> 'a index \<Rightarrow> ('a index, unit) run" where
  "sort_by name dir ix =
     (case require_state ix name of
        Inl e \<Rightarrow> (Inl e, ix)
      | Inr i \<Rightarrow> prepare_state i (ix\<lparr>ix_active := Some i, ix_direction := dir\<rparr>))"

definition unsort :: "'a index \<Rightarrow> 'a index" where
  "unsort ix = ix\<lparr>ix_active := None\<rparr>"

definition active_sort_key :: "'a index \<Rightarrow> 'a sort_key option" where
  "active_sort_key ix = map_option (\<lambda>a. ks_key (ix_states ix ! a)) (ix_active ix)"

section \<open>Reading in order\<close>

text \<open>Descending order reverses positions inside each group.\<close>

definition to_ascending :: "direction \<Rightarrow> nat \<Rightarrow> 'a key_state \<Rightarrow> nat \<Rightarrow> nat" where
  "to_ascending dir n st position =
     (if dir = Ascending then position
      else if length (ks_layouts st) = 1 then n - 1 - position
      else
        let lo = bisect (\<lambda>mid. ks_start st ! (ks_group_offset st ! mid) \<le> position) 0 (length (ks_layouts st));
            g = lo - 1
        in ks_start st ! (ks_group_offset st ! g)
           + (ks_start st ! (ks_group_offset st ! (g + 1)) - 1 - position))"

definition at :: "nat \<Rightarrow> 'a index \<Rightarrow> ('a index, 'a) run" where
  "at position ix =
     (if length (ix_items ix) \<le> position
      then (Inl (Out_of_range ''BucketIndex::at: position out of range''), ix)
      else case ix_active ix of
        None \<Rightarrow> (Inr (ix_items ix ! position), ix)
      | Some a \<Rightarrow>
          (case prepare_state a ix of
             (Inl e, ix) \<Rightarrow> (Inl e, ix)
           | (Inr _, ix) \<Rightarrow>
               on_state a (\<lambda>st.
                 let ascending = to_ascending (ix_direction ix) (length (ix_items ix)) st position
                 in case sort_bucket (ix_items ix) (bucket_at st ascending) st of
                      (Inl e, st) \<Rightarrow> (Inl e, st)
                    | (Inr _, st) \<Rightarrow> (Inr (ix_items ix ! (ks_order st ! ascending)), st)) ix))"

text \<open>One position of the grouped descending loop; \<open>npos\<close> is \<open>None\<close>.\<close>

definition range_step :: "'a list \<Rightarrow> direction \<Rightarrow> nat \<Rightarrow>
    nat option \<times> 'a key_state \<times> 'a list \<Rightarrow> (nat option \<times> 'a key_state \<times> 'a list, unit) run" where
  "range_step items dir p = (\<lambda>(sorted_bucket, st, out).
     let ascending = to_ascending dir (length items) st p;
         b = bucket_at st ascending
     in case (if Some b \<noteq> sorted_bucket then sort_bucket items b st else (Inr (), st)) of
          (Inl e, st) \<Rightarrow> (Inl e, (sorted_bucket, st, out))
        | (Inr _, st) \<Rightarrow> (Inr (), (Some b, st, out @ [items ! (ks_order st ! ascending)])))"

definition range_in ::
    "'a list \<Rightarrow> direction \<Rightarrow> nat \<Rightarrow> nat \<Rightarrow> 'a key_state \<Rightarrow> ('a key_state, 'a list) run" where
  "range_in items dir from till st =
     (if dir = Descending \<and> 1 < length (ks_layouts st)
      then case for_do (range_step items dir) [from..<till] (None, st, []) of
             (r, (_, st, out)) \<Rightarrow> (map_sum id (\<lambda>_. out) r, st)
      else
        let n = length items;
            lo = (if dir = Ascending then from else n - till);
            hi = (if dir = Ascending then till else n - from)
        in case for_do (sort_bucket items) [bucket_at st lo..<Suc (bucket_at st (hi - 1))] st of
             (Inl e, st) \<Rightarrow> (Inl e, st)
           | (Inr _, st) \<Rightarrow>
               (Inr (if dir = Ascending then map (\<lambda>i. items ! (ks_order st ! i)) [lo..<hi]
                     else map (\<lambda>i. items ! (ks_order st ! i)) (rev [lo..<hi])), st))"

definition range_of :: "nat \<Rightarrow> nat \<Rightarrow> 'a index \<Rightarrow> ('a index, 'a list) run" where
  "range_of from till ix =
     (let till = min till (length (ix_items ix))
      in if till \<le> from then (Inr [], ix)
         else case ix_active ix of
           None \<Rightarrow> (Inr (take (till - from) (drop from (ix_items ix))), ix)
         | Some a \<Rightarrow>
             (case prepare_state a ix of
                (Inl e, ix) \<Rightarrow> (Inl e, ix)
              | (Inr _, ix) \<Rightarrow>
                  on_state a (range_in (ix_items ix) (ix_direction ix) from till) ix))"

definition first_page :: "'a index \<Rightarrow> ('a index, 'a list) run" where
  "first_page ix = range_of 0 (page_size (ix_plan ix)) ix"

definition position_if :: "('a \<Rightarrow> bool) \<Rightarrow> 'a index \<Rightarrow> ('a index, nat option) run" where
  "position_if p ix =
     (let slot = find_index p (ix_items ix)
      in if slot = length (ix_items ix) then (Inr None, ix)
         else case ix_active ix of
           None \<Rightarrow> (Inr (Some slot), ix)
         | Some a \<Rightarrow>
             (case prepare_state a ix of
                (Inl e, ix) \<Rightarrow> (Inl e, ix)
              | (Inr _, ix) \<Rightarrow>
                  on_state a (\<lambda>st.
                    let bucket = ks_buckets st ! slot
                    in case sort_bucket (ix_items ix) bucket st of
                         (Inl e, st) \<Rightarrow> (Inl e, st)
                       | (Inr _, st) \<Rightarrow>
                           let first = ks_start st ! bucket;
                               it = first + find_index (\<lambda>s. s = slot_cast slot)
                                      (take (ks_start st ! (bucket + 1) - first) (drop first (ks_order st)))
                           in (Inr (Some (to_ascending (ix_direction ix) (length (ix_items ix)) st it)), st)) ix))"

text \<open>
  Visiting one bucket, forwards or backwards. The elements already visited when a comparison
  throws are not part of the answer.
\<close>

definition visit_bucket ::
    "'a list \<Rightarrow> direction \<Rightarrow> nat \<Rightarrow> 'a list \<times> 'a key_state \<Rightarrow> ('a list \<times> 'a key_state, unit) run" where
  "visit_bucket items dir b = (\<lambda>(seen, st).
     case sort_bucket items b st of
       (Inl e, st) \<Rightarrow> (Inl e, (seen, st))
     | (Inr _, st) \<Rightarrow>
         let ps = [ks_start st ! b..<ks_start st ! (b + 1)]
         in (Inr (), (seen @ map (\<lambda>p. items ! (ks_order st ! p)) (if dir = Ascending then ps else rev ps), st)))"

definition for_each_in :: "'a list \<Rightarrow> direction \<Rightarrow> 'a key_state \<Rightarrow> ('a key_state, 'a list) run" where
  "for_each_in items dir st =
     (case (if dir = Ascending then for_do (visit_bucket items dir) [0..<bucket_total st] ([], st)
            else for_do (\<lambda>g. for_do (visit_bucket items dir)
                               (rev [ks_group_offset st ! g..<ks_group_offset st ! (g + 1)]))
                   [0..<length (ks_layouts st)] ([], st)) of
        (r, (seen, st)) \<Rightarrow> (map_sum id (\<lambda>_. seen) r, st))"

definition for_each :: "'a index \<Rightarrow> ('a index, 'a list) run" where
  "for_each ix =
     (case ix_active ix of
        None \<Rightarrow> (Inr (ix_items ix), ix)
      | Some a \<Rightarrow>
          (case prepare_state a ix of
             (Inl e, ix) \<Rightarrow> (Inl e, ix)
           | (Inr _, ix) \<Rightarrow>
               on_state a (for_each_in (ix_items ix) (ix_direction ix)) ix))"

definition sort_all :: "'a index \<Rightarrow> ('a index, unit) run" where
  "sort_all ix =
     (case ix_active ix of
        None \<Rightarrow> (Inr (), ix)
      | Some a \<Rightarrow>
          (case prepare_state a ix of
             (Inl e, ix) \<Rightarrow> (Inl e, ix)
           | (Inr _, ix) \<Rightarrow>
               on_state a (\<lambda>st. for_do (sort_bucket (ix_items ix)) [0..<bucket_total st] st) ix))"

section \<open>Buckets and distribution\<close>

definition bucket_of :: "'a \<Rightarrow> string \<Rightarrow> 'a index \<Rightarrow> exn + nat" where
  "bucket_of x name ix =
     (case require_state ix name of
        Inl e \<Rightarrow> Inl e
      | Inr i \<Rightarrow>
          let st = ix_states ix ! i; k = ks_key st
          in bucket_for st x (if has_key k then key_of k x else 0))"

text \<open>The read-only queries about the state of a named sort key.\<close>

definition query :: "('a key_state \<Rightarrow> 'v) \<Rightarrow> string \<Rightarrow> 'a index \<Rightarrow> exn + 'v" where
  "query f name ix = map_sum id (\<lambda>i. f (ix_states ix ! i)) (require_state ix name)"

definition bucket_count :: "string \<Rightarrow> 'a index \<Rightarrow> exn + nat" where
  "bucket_count = query bucket_total"

definition bucket_sizes :: "string \<Rightarrow> 'a index \<Rightarrow> exn + nat list" where
  "bucket_sizes = query ks_counts"

definition layout_of :: "string \<Rightarrow> nat \<Rightarrow> 'a index \<Rightarrow> exn + 'a layout" where
  "layout_of name g ix =
     (case require_state ix name of
        Inl e \<Rightarrow> Inl e
      | Inr i \<Rightarrow>
          if length (ks_layouts (ix_states ix ! i)) \<le> g
          then Inl (Out_of_range ''BucketIndex::layout: group out of range'')
          else Inr (ks_layouts (ix_states ix ! i) ! g))"

record bucket_stats =
  bs_key_name :: string
  bs_size :: nat
  bs_bucket_count :: nat
  bs_actual_sizes :: "nat list"
  bs_expected_sizes :: "nat list"
  bs_empty_buckets :: nat
  bs_sorted_buckets :: nat
  bs_max_skew :: f64
  bs_first_page_cost_ascending :: nat
  bs_first_page_cost_descending :: nat
  bs_needs_rebalance :: bool

text \<open>One turn of the loop over the buckets: empty and sorted buckets, the largest skew.\<close>

definition stats_step :: "bucket_plan \<Rightarrow> 'a key_state \<Rightarrow> nat \<Rightarrow> nat \<times> nat \<times> f64 \<Rightarrow> nat \<times> nat \<times> f64" where
  "stats_step plan st b = (\<lambda>(empty, srt, skew).
     (if ks_counts st ! b = 0 then empty + 1 else empty,
      if ks_has_order st \<and> \<not> ks_order_stale st \<and> ks_sorted_len st ! b = ks_counts st ! b then srt + 1 else srt,
      f64_max skew (f64_div (f64_of_nat (ks_counts st ! b)) (f64_of_nat (skew_floor plan st b)))))"

text \<open>Elements in whole buckets until a page is covered.\<close>

fun page_cost :: "nat \<Rightarrow> nat list \<Rightarrow> nat \<Rightarrow> nat" where
  "page_cost page [] cost = cost"
| "page_cost page (c # cs) cost = (if cost < page then page_cost page cs (cost + c) else cost)"

definition descending_buckets :: "'a key_state \<Rightarrow> nat list" where
  "descending_buckets st =
     concat (map (\<lambda>g. rev [ks_group_offset st ! g..<ks_group_offset st ! (g + 1)]) [0..<length (ks_layouts st)])"

definition stats :: "string \<Rightarrow> 'a index \<Rightarrow> exn + bucket_stats" where
  "stats name ix =
     (case require_state ix name of
        Inl e \<Rightarrow> Inl e
      | Inr i \<Rightarrow>
          let st = ix_states ix ! i;
              n = length (ix_items ix);
              plan = ix_plan ix;
              (empty, srt, skew) = fold (stats_step plan st) [0..<bucket_total st] (0, 0, Fin False 0 0);
              page = min (page_size plan) n
          in Inr \<lparr>bs_key_name = sk_name (ks_key st), bs_size = n, bs_bucket_count = bucket_total st,
                  bs_actual_sizes = ks_counts st, bs_expected_sizes = ks_expected st,
                  bs_empty_buckets = empty, bs_sorted_buckets = srt, bs_max_skew = skew,
                  bs_first_page_cost_ascending =
                    page_cost page (map ((!) (ks_counts st)) [0..<bucket_total st]) 0,
                  bs_first_page_cost_descending =
                    page_cost page (map ((!) (ks_counts st)) (descending_buckets st)) 0,
                  bs_needs_rebalance = is_stale plan n st\<rparr>)"

definition estimate_bucket_sizes :: "string \<Rightarrow> bucket_plan \<Rightarrow> 'a index \<Rightarrow> exn + nat list" where
  "estimate_bucket_sizes name plan ix =
     (case require_state ix name of
        Inl e \<Rightarrow> Inl e
      | Inr i \<Rightarrow> map_sum id (\<lambda>ls. concat (map expected_sizes ls))
                   (estimate_layouts (ix_states ix ! i) (ix_items ix) plan))"

definition needs_rebalance :: "string \<Rightarrow> 'a index \<Rightarrow> exn + bool" where
  "needs_rebalance name ix = query (is_stale (ix_plan ix) (length (ix_items ix))) name ix"

definition rebalance :: "string \<Rightarrow> 'a index \<Rightarrow> ('a index, unit) run" where
  "rebalance name ix =
     (case require_state ix name of
        Inl e \<Rightarrow> (Inl e, ix)
      | Inr i \<Rightarrow> on_state i (relayout (ix_plan ix) (ix_items ix)) ix)"

definition rebalance_all :: "'a index \<Rightarrow> ('a index, unit) run" where
  "rebalance_all ix = on_states (relayout (ix_plan ix) (ix_items ix)) ix"

definition set_plan :: "bucket_plan \<Rightarrow> 'a index \<Rightarrow> ('a index, unit) run" where
  "set_plan plan ix = rebalance_all (ix\<lparr>ix_plan := plan\<rparr>)"

section \<open>Changing the collection\<close>

definition append_item :: "'a \<Rightarrow> 'a index \<Rightarrow> ('a index, unit) run" where
  "append_item x ix =
     (if removed_slot \<le> length (ix_items ix)
      then (Inl (Length_error ''BucketIndex: too many elements''), ix)
      else on_states (append_state x) (ix\<lparr>ix_items := ix_items ix @ [x]\<rparr>))"

definition add :: "'a \<Rightarrow> 'a index \<Rightarrow> ('a index, unit) run" where
  "add x ix = append_item x ix"

definition add_all :: "'a list \<Rightarrow> 'a index \<Rightarrow> ('a index, unit) run" where
  "add_all xs ix =
     (case for_do append_item xs ix of
        (Inl e, ix) \<Rightarrow> (Inl e, ix)
      | (Inr _, ix) \<Rightarrow> on_states (maybe_auto_rebalance (ix_plan ix) (ix_items ix)) ix)"

text \<open>
  The first loop of \<open>remove_if\<close>: the new slot of every element (\<open>None\<close> for \<open>removed_slot\<close>)
  and the number of elements kept.
\<close>

definition remap_step :: "('a \<Rightarrow> bool) \<Rightarrow> 'a list \<Rightarrow> nat \<Rightarrow> nat option list \<times> nat \<Rightarrow> nat option list \<times> nat" where
  "remap_step p items slot = (\<lambda>(remap, kept).
     if p (items ! slot) then (remap[slot := None], kept)
     else (remap[slot := Some (slot_cast kept)], kept + 1))"

text \<open>Moving the kept elements down.\<close>

definition move_item :: "nat option list \<Rightarrow> nat \<Rightarrow> 'a list \<Rightarrow> 'a list" where
  "move_item remap slot items =
     (case remap ! slot of
        None \<Rightarrow> items
      | Some t \<Rightarrow> if t \<noteq> slot then items[t := items ! slot] else items)"

definition remove_if :: "('a \<Rightarrow> bool) \<Rightarrow> 'a index \<Rightarrow> ('a index, nat) run" where
  "remove_if p ix =
     (let n = length (ix_items ix);
          (remap, kept) = fold (remap_step p (ix_items ix)) [0..<n] (replicate n (Some 0), 0);
          removed = n - kept
      in if removed = 0 then (Inr 0, ix)
         else
           let sts = map (\<lambda>st. if ks_has_order st \<and> ks_order_stale st then regroup n st else st) (ix_states ix);
               items = take kept (fold (move_item remap) [0..<n] (ix_items ix))
           in case on_states (compact (ix_plan ix) items remap kept)
                     (ix\<lparr>ix_states := sts, ix_items := items\<rparr>) of
                (Inl e, ix) \<Rightarrow> (Inl e, ix)
              | (Inr _, ix) \<Rightarrow> (Inr removed, ix))"

definition update_step ::
    "('a \<Rightarrow> bool) \<Rightarrow> ('a \<Rightarrow> 'a) option \<Rightarrow> nat \<Rightarrow> 'a index \<times> nat \<Rightarrow> ('a index \<times> nat, unit) run" where
  "update_step p mutate slot = (\<lambda>(ix, updated).
     if \<not> p (ix_items ix ! slot) then (Inr (), (ix, updated))
     else
       let x = (case mutate of None \<Rightarrow> ix_items ix ! slot | Some f \<Rightarrow> f (ix_items ix ! slot));
           ix = ix\<lparr>ix_items := (ix_items ix)[slot := x]\<rparr>
       in case on_states (rekey (ix_items ix) slot) ix of
            (Inl e, ix) \<Rightarrow> (Inl e, (ix, updated))
          | (Inr _, ix) \<Rightarrow> (Inr (), (ix, updated + 1)))"

definition update_if :: "('a \<Rightarrow> bool) \<Rightarrow> ('a \<Rightarrow> 'a) option \<Rightarrow> 'a index \<Rightarrow> ('a index, nat) run" where
  "update_if p mutate ix =
     (case for_do (update_step p mutate) [0..<length (ix_items ix)] (ix, 0) of
        (Inl e, (ix, _)) \<Rightarrow> (Inl e, ix)
      | (Inr _, (ix, updated)) \<Rightarrow>
          (case on_states (\<lambda>st. if ks_splitter_changed st then relayout (ix_plan ix) (ix_items ix) st
                                else (Inr (), st)) ix of
             (Inl e, ix) \<Rightarrow> (Inl e, ix)
           | (Inr _, ix) \<Rightarrow> (Inr updated, ix)))"

definition clear :: "'a index \<Rightarrow> ('a index, unit) run" where
  "clear ix =
     (let ix = ix\<lparr>ix_items := []\<rparr>
      in on_states (\<lambda>st. relayout (ix_plan ix) (ix_items ix) (st\<lparr>ks_keys := [], ks_buckets := []\<rparr>)) ix)"

section \<open>Conveniences\<close>

definition remove :: "'a \<Rightarrow> 'a index \<Rightarrow> ('a index, bool) run" where
  "remove v ix = map_prod (map_sum id (\<lambda>n. 0 < n)) id (remove_if (\<lambda>x. x = v) ix)"

definition update :: "'a \<Rightarrow> 'a index \<Rightarrow> ('a index, bool) run" where
  "update v ix = map_prod (map_sum id (\<lambda>n. 0 < n)) id (update_if (\<lambda>x. x = v) None ix)"

definition position_of :: "'a \<Rightarrow> 'a index \<Rightarrow> ('a index, nat option) run" where
  "position_of v ix = position_if (\<lambda>x. x = v) ix"

end
