(* ===== verification/Views.thy ===== *)
theory Views
  imports Bucket_Index
begin

text \<open>
  The order a view shows, as a specification: \<open>slot_view\<close> lists the slots in display order,
  \<open>view\<close> the elements. Ascending order is the stable sort by the exact order; descending
  order reverses every group and keeps the groups in place. \<open>to_ascending\<close> translates
  positions between the two.
\<close>

section \<open>The specification of the display order\<close>

definition slot_view :: "'a sort_key \<Rightarrow> direction \<Rightarrow> 'a list \<Rightarrow> nat list" where
  "slot_view k dir items =
     (if dir = Ascending then ranking k items
      else concat (map (\<lambda>g. rev (filter (\<lambda>s. group_number k (items ! s) = g) (ranking k items))) [0..<sk_groups k]))"

definition view :: "'a sort_key \<Rightarrow> direction \<Rightarrow> 'a list \<Rightarrow> 'a list" where
  "view k dir items =
     (let asc = stable_sort (\<lambda>x y. order_cmp k x y < 0) items
      in if dir = Ascending then asc
         else concat (map (\<lambda>g. rev (filter (\<lambda>x. group_number k x = g) asc)) [0..<sk_groups k]))"

lemma view_slots: "view k dir items = map ((!) items) (slot_view k dir items)"
proof -
  have "filter (\<lambda>x. group_number k x = g) (stable_sort (\<lambda>x y. order_cmp k x y < 0) items)
      = map ((!) items) (filter (\<lambda>s. group_number k (items ! s) = g) (ranking k items))" for g
    by (simp add: filter_map comp_def flip: map_ranking)
  then show ?thesis
    by (simp add: view_def slot_view_def Let_def map_ranking map_concat rev_map comp_def)
qed

lemma mset_ranking: "mset (ranking k items) = mset [0..<length items]"
  by (simp add: ranking_def)

lemma length_ranking [simp]: "length (ranking k items) = length items"
  by (simp add: ranking_def)

lemma set_ranking [simp]: "set (ranking k items) = {0..<length items}"
  by (simp add: ranking_def)

lemma mset_buckets_less:
  "mset (concat (map (\<lambda>b. filter (\<lambda>s. f s = b) L) [0..<k])) = mset (filter (\<lambda>s. f s < k) L)" for f :: "'a \<Rightarrow> nat"
proof (induction k)
  case (Suc k)
  have "mset (filter (\<lambda>s. f s < Suc k) L) = mset (filter (\<lambda>s. f s < k \<or> f s = k) L)"
    by (simp add: less_Suc_eq)
  also have "\<dots> = mset (filter (\<lambda>s. f s < k) L) + mset (filter (\<lambda>s. f s = k) L)"
    by (intro mset_filter_or) auto
  finally show ?case using Suc by simp
qed simp

lemma sum_counts_less:
  "sum_list (map (\<lambda>b. length (filter (\<lambda>s. f s = b) L)) [0..<k]) = length (filter (\<lambda>s. f s < k) L)" for f :: "'a \<Rightarrow> nat"
  using arg_cong[OF mset_buckets_less[of f L k], where f = size]
  by (simp only: size_mset length_concat map_map comp_def)

lemma sorted_split_by:
  fixes f :: "'a \<Rightarrow> nat"
  assumes "sorted_wrt (\<lambda>x y. f x \<le> f y) xs"
  shows "concat (map (\<lambda>g. filter (\<lambda>x. f x = g) xs) [0..<k]) = filter (\<lambda>x. f x < k) xs"
proof (induction k)
  case (Suc k)
  have "filter (\<lambda>x. f x < k) xs @ filter (\<lambda>x. f x = k) xs = filter (\<lambda>x. f x < Suc k) xs"
    using assms
  proof (induction xs)
    case (Cons x xs)
    show ?case
    proof (cases "f x = k")
      case True
      then have "filter (\<lambda>y. f y < k) xs = []" using Cons.prems by (auto simp: filter_empty_conv not_less)
      then show ?thesis using Cons True by (auto simp: less_Suc_eq)
    next
      case False
      then show ?thesis using Cons by (auto simp: less_Suc_eq)
    qed
  qed simp
  then show ?case using Suc by simp
qed simp

text \<open>The full order lists the groups one after the other.\<close>

lemma ranking_groups:
  assumes base: "key_base items st"
  defines "k \<equiv> ks_key st"
  shows "ranking k items = concat (map (\<lambda>g. filter (\<lambda>s. group_number k (items ! s) = g) (ranking k items)) [0..<sk_groups k])"
proof -
  have k: "wf_key k" "lawful_key k" and v: "\<And>x. x \<in> set items \<Longrightarrow> valid_item k x"
    using base by (simp_all add: key_base_def k_def)
  have "sorted_wrt (\<lambda>s t. group_number k (items ! s) \<le> group_number k (items ! t)) (ranking k items)"
  proof (rule sorted_wrt_mono_rel[OF _ sorted_ranking[OF k(2), of items]])
    fix s t assume "tie_slot (item_less k items) s t"
    then have "order_cmp k (items ! s) (items ! t) \<le> 0"
      using three_way.cmp_not_less[OF k(2)[unfolded lawful_key_def]] by (auto simp: tie_slot_def)
    then show "group_number k (items ! s) \<le> group_number k (items ! t)" by (rule order_cmp_group_le)
  qed
  then have "concat (map (\<lambda>g. filter (\<lambda>s. group_number k (items ! s) = g) (ranking k items)) [0..<sk_groups k])
      = filter (\<lambda>s. group_number k (items ! s) < sk_groups k) (ranking k items)"
    by (rule sorted_split_by)
  also have "\<dots> = ranking k items"
    using group_number_less[OF k(1)] v by (intro filter_True) auto
  finally show ?thesis by simp
qed

lemma mset_slot_view:
  assumes "key_base items st"
  shows "mset (slot_view (ks_key st) dir items) = mset [0..<length items]"
proof (cases "dir = Ascending")
  case True
  then show ?thesis by (simp add: slot_view_def mset_ranking)
next
  case False
  let ?k = "ks_key st"
  let ?segs = "map (\<lambda>g. filter (\<lambda>s. group_number ?k (items ! s) = g) (ranking ?k items)) [0..<sk_groups ?k]"
  have "mset (concat (map rev ?segs)) = mset (concat ?segs)" by (simp add: mset_concat comp_def)
  then have "mset (slot_view ?k dir items) = mset (concat ?segs)" using False by (simp add: slot_view_def comp_def)
  also have "concat ?segs = ranking ?k items" by (rule ranking_groups[OF assms, symmetric])
  finally show ?thesis by (simp only: mset_ranking)
qed

lemma length_slot_view: "key_base items st \<Longrightarrow> length (slot_view (ks_key st) dir items) = length items"
  using mset_slot_view[of items st dir] by (metis diff_zero length_upt size_mset)

section \<open>Where groups start\<close>

abbreviation group_counts :: "'a sort_key \<Rightarrow> 'a list \<Rightarrow> nat list" where
  "group_counts k items \<equiv> map (\<lambda>g. length (filter (\<lambda>x. group_number k x = g) items)) [0..<sk_groups k]"

lemma start_count:
  assumes r: "ready items st" and b: "b \<le> bucket_total st"
  shows "ks_start st ! b = length (filter (\<lambda>x. home st x < b) items)"
proof -
  from r obtain segs where len: "length segs = bucket_total st" and start: "ks_start st = seg_starts segs"
    and perm: "mset (concat segs) = mset [0..<length items]"
    and mem: "\<And>b s. b < bucket_total st \<Longrightarrow> s \<in> set (segs ! b) \<Longrightarrow> s < length items \<and> home st (items ! s) = b"
    by (rule readyE) blast
  let ?P = "\<lambda>s. home st (items ! s) < b"
  have "filter ?P (concat (take b segs)) = concat (take b segs)"
  proof (rule filter_True, rule ballI)
    fix s assume "s \<in> set (concat (take b segs))"
    then obtain c where "c < b" "c < length segs" "s \<in> set (segs ! c)"
      by (auto simp: in_set_conv_nth[of _ "take b segs"])
    then show "?P s" using mem[of c s] len by simp
  qed
  moreover have "filter ?P (concat (drop b segs)) = []"
  proof (rule filter_False, rule ballI)
    fix s assume "s \<in> set (concat (drop b segs))"
    then obtain i where "b + i < length segs" "s \<in> set (segs ! (b + i))"
      by (auto simp: in_set_conv_nth[of _ "drop b segs"] less_diff_conv add.commute)
    then show "\<not> ?P s" using mem[of "b + i" s] len by simp
  qed
  ultimately have "concat (take b segs) = filter ?P (concat segs)"
    by (metis append_Nil2 append_take_drop_id concat_append filter_append)
  then have "length (concat (take b segs)) = length (filter ?P (concat segs))" by simp
  also have "mset (filter ?P (concat segs)) = mset (filter ?P [0..<length items])" using perm by (simp only: mset_filter)
  then have "length (filter ?P (concat segs)) = length (filter ?P [0..<length items])" by (metis size_mset)
  finally show ?thesis using b len length_filter_items[of "\<lambda>x. home st x < b" items] by (simp add: start sum_lengths)
qed

lemma home_below_group:
  assumes "layouts_wf st" and "wf_key (ks_key st)" and "valid_item (ks_key st) x" and "g \<le> sk_groups (ks_key st)"
  shows "home st x < ks_group_offset st ! g \<longleftrightarrow> group_number (ks_key st) x < g"
proof -
  let ?k = "ks_key st" and ?h = "group_number (ks_key st) x"
  note hb = home_bounds[OF assms(1-3)]
  have gx: "?h < sk_groups ?k" by (rule group_number_less[OF assms(2,3)])
  have mono: "ks_group_offset st ! i \<le> ks_group_offset st ! j" if "i \<le> j" "j \<le> sk_groups ?k" for i j
    using offsets_mono[of i j "map layout_bucket_count (ks_layouts st)"] that assms(1) by (simp add: layouts_wf_def)
  show ?thesis
  proof (cases "?h < g")
    case True
    then have "ks_group_offset st ! Suc ?h \<le> ks_group_offset st ! g" using assms(4) by (intro mono) auto
    then show ?thesis using hb(2) True by simp
  next
    case False
    then have "ks_group_offset st ! g \<le> ks_group_offset st ! ?h" using gx by (intro mono) auto
    then show ?thesis using hb(1) False by simp
  qed
qed

lemma group_start:
  assumes r: "ready items st" and g: "g \<le> sk_groups (ks_key st)"
  shows "ks_start st ! (ks_group_offset st ! g) = offsets (group_counts (ks_key st) items) ! g"
proof -
  let ?k = "ks_key st"
  have base: "key_base items st" and lw: "layouts_wf st" using r by (simp_all add: ready_def key_inv_def)
  have k: "wf_key ?k" using base by (simp add: key_base_def)
  have "ks_group_offset st ! g \<le> bucket_total st"
    using g lw by (simp add: layouts_wf_def bucket_total_def sum_take_le)
  then have "ks_start st ! (ks_group_offset st ! g) = length (filter (\<lambda>x. home st x < ks_group_offset st ! g) items)"
    by (rule start_count[OF r])
  also have "\<dots> = length (filter (\<lambda>x. group_number ?k x < g) items)"
    using base home_below_group[OF lw k _ g] by (intro arg_cong[where f = length] filter_cong) (auto simp: key_base_def)
  also have "\<dots> = offsets (group_counts ?k items) ! g"
    using g sum_counts_less[of "group_number ?k" items g] by (simp add: take_map min_def)
  finally show ?thesis .
qed

lemma group_segments:
  assumes r: "ready items st" and g: "g \<le> sk_groups (ks_key st)"
  shows "ks_start st ! (ks_group_offset st ! g)
    = seg_starts (map (\<lambda>g. filter (\<lambda>s. group_number (ks_key st) (items ! s) = g) (ranking (ks_key st) items))
        [0..<sk_groups (ks_key st)]) ! g"
proof -
  let ?k = "ks_key st"
  have "length (filter (\<lambda>s. group_number ?k (items ! s) = g) (ranking ?k items))
      = length (filter (\<lambda>x. group_number ?k x = g) items)" for g
  proof -
    have "mset (filter (\<lambda>s. group_number ?k (items ! s) = g) (ranking ?k items))
        = mset (filter (\<lambda>s. group_number ?k (items ! s) = g) [0..<length items])"
      by (simp only: mset_filter mset_ranking)
    then have "length (filter (\<lambda>s. group_number ?k (items ! s) = g) (ranking ?k items))
        = length (filter (\<lambda>s. group_number ?k (items ! s) = g) [0..<length items])"
      by (metis size_mset)
    then show ?thesis using length_filter_items[of "\<lambda>x. group_number ?k x = g" items] by simp
  qed
  then have "map length (map (\<lambda>g. filter (\<lambda>s. group_number ?k (items ! s) = g) (ranking ?k items)) [0..<sk_groups ?k])
      = group_counts ?k items" by simp
  then show ?thesis using group_start[OF r g] by (simp only:)
qed

section \<open>Translating positions\<close>

lemma rev_segment_nth:
  assumes "g < length segs" and "seg_starts segs ! g \<le> p" and "p < seg_starts segs ! Suc g"
  shows "concat (map rev segs) ! p = concat segs ! (seg_starts segs ! g + (seg_starts segs ! Suc g - 1 - p))"
    and "seg_starts segs ! g + (seg_starts segs ! Suc g - 1 - p) < length (concat segs)"
proof -
  define j where "j = p - seg_starts segs ! g"
  have end_g: "seg_starts segs ! Suc g = seg_starts segs ! g + length (segs ! g)"
    using assms(1) by (simp add: sum_take_Suc)
  have j: "j < length (segs ! g)" and p: "p = seg_starts segs ! g + j" using assms end_g by (simp_all add: j_def)
  have "map length (map rev segs) = map length segs" by simp
  then have starts: "seg_starts (map rev segs) = seg_starts segs" by (simp only:)
  have "concat (map rev segs) ! p = rev (segs ! g) ! j"
    unfolding p starts[symmetric] using segment_nth[of g "map rev segs" j] assms(1) j by simp
  also have "\<dots> = segs ! g ! (length (segs ! g) - 1 - j)" using j by (simp add: rev_nth)
  also have "\<dots> = concat segs ! (seg_starts segs ! g + (length (segs ! g) - 1 - j))"
    using segment_nth[OF assms(1), of "length (segs ! g) - 1 - j"] j by simp
  also have "seg_starts segs ! g + (length (segs ! g) - 1 - j) = seg_starts segs ! g + (seg_starts segs ! Suc g - 1 - p)"
    using j by (simp add: end_g p)
  finally show "concat (map rev segs) ! p = concat segs ! (seg_starts segs ! g + (seg_starts segs ! Suc g - 1 - p))" .
  have "seg_starts segs ! g + (seg_starts segs ! Suc g - 1 - p) < seg_starts segs ! Suc g"
    using j p end_g by simp
  also have "\<dots> \<le> length (concat segs)" using assms(1) by (simp add: sum_take_le length_concat)
  finally show "seg_starts segs ! g + (seg_starts segs ! Suc g - 1 - p) < length (concat segs)" .
qed

lemma to_ascending_in_group:
  assumes r: "ready items st" and dir: "dir \<noteq> Ascending" and many: "sk_groups (ks_key st) \<noteq> 1"
    and g: "g < sk_groups (ks_key st)"
    and p: "ks_start st ! (ks_group_offset st ! g) \<le> p" "p < ks_start st ! (ks_group_offset st ! Suc g)"
  shows "to_ascending dir (length items) st p
    = ks_start st ! (ks_group_offset st ! g) + (ks_start st ! (ks_group_offset st ! Suc g) - 1 - p)"
proof -
  let ?gs = "\<lambda>g. ks_start st ! (ks_group_offset st ! g)"
  have lens: "length (ks_layouts st) = sk_groups (ks_key st)"
    using r by (simp add: ready_def key_inv_def layouts_wf_def)
  have mono: "?gs i \<le> ?gs j" if "i \<le> j" "j \<le> sk_groups (ks_key st)" for i j
    using group_start[OF r, of i] group_start[OF r, of j] that offsets_mono[of i j "group_counts (ks_key st) items"] by simp
  have "bisect (\<lambda>mid. ?gs mid \<le> p) 0 (sk_groups (ks_key st)) = Suc g"
  proof (rule bisect_unique)
    show "Suc g \<le> sk_groups (ks_key st)" using g by simp
    show "?gs i \<le> p" if "i < Suc g" for i
      using mono[of i g] that g p(1) by (meson le_trans less_Suc_eq_le less_imp_le)
    show "\<not> ?gs i \<le> p" if "Suc g \<le> i" "i < sk_groups (ks_key st)" for i
      using mono[of "Suc g" i] that p(2) by simp
  qed
  then show ?thesis using dir many lens by (simp add: to_ascending_def Let_def)
qed

lemma to_ascending_ok:
  assumes r: "ready items st" and p: "p < length items"
  shows "to_ascending dir (length items) st p < length items"
    and "slot_view (ks_key st) dir items ! p
       = ranking (ks_key st) items ! to_ascending dir (length items) st p"
proof -
  let ?k = "ks_key st" and ?n = "length items"
  have base: "key_base items st" and lw: "layouts_wf st" using r by (simp_all add: ready_def key_inv_def)
  have k: "wf_key ?k" using base by (simp add: key_base_def)
  have lens: "length (ks_layouts st) = sk_groups ?k" using lw by (simp add: layouts_wf_def)
  have both: "to_ascending dir ?n st p < ?n
      \<and> slot_view ?k dir items ! p = ranking ?k items ! to_ascending dir ?n st p"
  proof (cases "dir = Ascending")
    case True
    then show ?thesis using p by (simp add: to_ascending_def slot_view_def)
  next
    case desc: False
    let ?segs = "map (\<lambda>g. filter (\<lambda>s. group_number ?k (items ! s) = g) (ranking ?k items)) [0..<sk_groups ?k]"
    have groups: "ranking ?k items = concat ?segs" by (rule ranking_groups[OF base])
    have sv: "slot_view ?k dir items = concat (map rev ?segs)" using desc by (simp add: slot_view_def comp_def)
    show ?thesis
    proof (cases "sk_groups ?k = 1")
      case True
      then have "slot_view ?k dir items = rev (ranking ?k items)" using groups sv by simp
      then show ?thesis using desc True lens p by (simp add: to_ascending_def rev_nth)
    next
      case False
      have start: "ks_start st ! (ks_group_offset st ! g) = seg_starts ?segs ! g" if "g \<le> sk_groups ?k" for g
        by (rule group_segments[OF r that])
      have "p < sum_list (map length ?segs)"
        using p arg_cong[OF groups, of length] by (simp only: length_concat length_ranking)
      then obtain g where g: "g < length (map length ?segs)" "seg_starts ?segs ! g \<le> p" "p < seg_starts ?segs ! Suc g"
        by (rule offsets_locate)
      have gk: "g < sk_groups ?k" using g(1) by simp
      have ta: "to_ascending dir ?n st p = seg_starts ?segs ! g + (seg_starts ?segs ! Suc g - 1 - p)"
        using to_ascending_in_group[OF r desc False gk, of p] start[of g] start[of "Suc g"] gk g(2,3) by simp
      have gl: "g < length ?segs" using gk by simp
      have len: "length (concat ?segs) = ?n" by (simp only: groups[symmetric] length_ranking)
      show ?thesis
        unfolding ta sv using rev_segment_nth[OF gl g(2,3)] len by (simp only: groups[symmetric])
    qed
  qed
  then show "to_ascending dir ?n st p < ?n"
    and "slot_view ?k dir items ! p = ranking ?k items ! to_ascending dir ?n st p"
    by simp_all
qed

text \<open>Translating twice gives the position back.\<close>

lemma to_ascending_involution:
  assumes r: "ready items st" and p: "p < length items"
  shows "to_ascending dir (length items) st (to_ascending dir (length items) st p) = p"
proof -
  let ?k = "ks_key st" and ?gs = "\<lambda>g. ks_start st ! (ks_group_offset st ! g)"
  have lw: "layouts_wf st" and base: "key_base items st" using r by (simp_all add: ready_def key_inv_def)
  have below: "group_number ?k x < sk_groups ?k" if "x \<in> set items" for x
    using base that by (intro group_number_less) (simp_all add: key_base_def)
  consider "dir = Ascending" | "dir \<noteq> Ascending" "sk_groups ?k = 1" | (groups) "dir \<noteq> Ascending" "sk_groups ?k \<noteq> 1"
    by blast
  then show ?thesis
  proof cases
    case groups
    have "sum_list (group_counts ?k items) = length (filter (\<lambda>x. group_number ?k x < sk_groups ?k) items)"
      by (rule sum_counts_less)
    also have "\<dots> = length items"
      using below by (intro arg_cong[where f = length] filter_True) blast
    finally have "p < sum_list (group_counts ?k items)" using p by simp
    then obtain g where g: "g < length (group_counts ?k items)"
      "offsets (group_counts ?k items) ! g \<le> p" "p < offsets (group_counts ?k items) ! Suc g"
      by (rule offsets_locate)
    then have gk: "g < sk_groups ?k" and pg: "?gs g \<le> p" "p < ?gs (Suc g)"
      using group_start[OF r, of g] group_start[OF r, of "Suc g"] by simp_all
    note ta = to_ascending_in_group[OF r groups gk]
    have "?gs g \<le> ?gs g + (?gs (Suc g) - 1 - p)" "?gs g + (?gs (Suc g) - 1 - p) < ?gs (Suc g)" using pg by linarith+
    then show ?thesis using ta[OF pg] ta[of "?gs g + (?gs (Suc g) - 1 - p)"] pg by simp
  qed (use lw p in \<open>simp_all add: to_ascending_def layouts_wf_def\<close>)
qed

end
