(* ===== verification/Index_Reads.thy ===== *)
theory Index_Reads
  imports Views
begin

text \<open>
  Every sorted read of \<open>BucketIndex\<close> returns what the full sort would show at the same
  positions, whatever lazily sorted state the object is in, and leaves the contents alone.
  \<open>index_inv\<close> is the invariant of the whole object.
\<close>

section \<open>The invariant of an index\<close>

definition index_inv :: "'a index \<Rightarrow> bool" where
  "index_inv ix \<longleftrightarrow>
     wf_plan (ix_plan ix) \<and> length (ix_items ix) < 2 ^ 32
     \<and> (\<forall>st\<in>set (ix_states ix). key_inv (ix_items ix) st)
     \<and> distinct (sort_key_names ix)
     \<and> (case ix_active ix of None \<Rightarrow> True | Some a \<Rightarrow> a < length (ix_states ix))"

text \<open>Nothing a client can see through the interface differs.\<close>

definition same_contents :: "'a index \<Rightarrow> 'a index \<Rightarrow> bool" where
  "same_contents ix ix' \<longleftrightarrow>
     ix_plan ix' = ix_plan ix \<and> ix_items ix' = ix_items ix \<and> ix_active ix' = ix_active ix
     \<and> ix_direction ix' = ix_direction ix \<and> map ks_key (ix_states ix') = map ks_key (ix_states ix)"

lemma same_contents_refl [simp]: "same_contents ix ix"
  by (simp add: same_contents_def)

lemma same_contents_trans: "same_contents a b \<Longrightarrow> same_contents b c \<Longrightarrow> same_contents a c"
  by (simp add: same_contents_def)

text \<open>What the current order shows.\<close>

definition index_slots :: "'a index \<Rightarrow> nat list" where
  "index_slots ix =
     (case ix_active ix of
        None \<Rightarrow> [0..<length (ix_items ix)]
      | Some a \<Rightarrow> slot_view (ks_key (ix_states ix ! a)) (ix_direction ix) (ix_items ix))"

definition index_view :: "'a index \<Rightarrow> 'a list" where
  "index_view ix =
     (case ix_active ix of
        None \<Rightarrow> ix_items ix
      | Some a \<Rightarrow> view (ks_key (ix_states ix ! a)) (ix_direction ix) (ix_items ix))"

lemma index_view_slots: "index_view ix = map ((!) (ix_items ix)) (index_slots ix)"
  by (simp add: index_view_def index_slots_def view_slots map_nth split: option.splits)

lemma same_contents_key:
  assumes "same_contents ix ix'" and "i < length (ix_states ix)"
  shows "ks_key (ix_states ix' ! i) = ks_key (ix_states ix ! i)" and "length (ix_states ix') = length (ix_states ix)"
proof -
  have m: "map ks_key (ix_states ix') = map ks_key (ix_states ix)" using assms(1) by (simp add: same_contents_def)
  then show l: "length (ix_states ix') = length (ix_states ix)" by (metis length_map)
  show "ks_key (ix_states ix' ! i) = ks_key (ix_states ix ! i)"
    using arg_cong[OF m, of "\<lambda>xs. xs ! i"] assms(2) l by simp
qed

lemma same_contents_view:
  assumes "same_contents ix ix'" and "index_inv ix"
  shows "index_view ix' = index_view ix" and "index_slots ix' = index_slots ix"
  using assms same_contents_key(1)[OF assms(1)]
  by (auto simp: index_view_def index_slots_def index_inv_def same_contents_def split: option.splits)

lemma same_contents_names: "same_contents ix ix' \<Longrightarrow> sort_key_names ix' = sort_key_names ix"
proof -
  assume "same_contents ix ix'"
  then have "map sk_name (map ks_key (ix_states ix')) = map sk_name (map ks_key (ix_states ix))"
    by (simp only: same_contents_def)
  then show ?thesis by (simp add: sort_key_names_def comp_def)
qed

lemma mset_index_slots: "index_inv ix \<Longrightarrow> mset (index_slots ix) = mset [0..<length (ix_items ix)]"
proof (cases "ix_active ix")
  case (Some a)
  assume inv: "index_inv ix"
  then have "key_base (ix_items ix) (ix_states ix ! a)" using Some by (auto simp: index_inv_def key_inv_def)
  then show ?thesis using Some mset_slot_view by (simp add: index_slots_def)
qed (simp add: index_slots_def)

lemma index_slots_facts:
  assumes "index_inv ix"
  shows "length (index_slots ix) = length (ix_items ix)" and "set (index_slots ix) = {0..<length (ix_items ix)}"
    and "distinct (index_slots ix)" and "length (index_view ix) = length (ix_items ix)"
proof -
  note m = mset_index_slots[OF assms]
  show "length (index_slots ix) = length (ix_items ix)" using m by (metis diff_zero length_upt size_mset)
  then show "length (index_view ix) = length (ix_items ix)" by (simp add: index_view_slots)
  show "set (index_slots ix) = {0..<length (ix_items ix)}" using m by (metis set_mset_mset set_upt)
  show "distinct (index_slots ix)" using m by (metis distinct_upt mset_eq_imp_distinct_iff)
qed

section \<open>Running operations on one state\<close>

lemma on_state_ok:
  assumes inv: "index_inv ix" and i: "i < length (ix_states ix)"
    and f: "f (ix_states ix ! i) = (r, st)" and st: "key_inv (ix_items ix) st"
    and key: "ks_key st = ks_key (ix_states ix ! i)"
  shows "on_state i f ix = (r, ix\<lparr>ix_states := (ix_states ix)[i := st]\<rparr>)"
    and "index_inv (ix\<lparr>ix_states := (ix_states ix)[i := st]\<rparr>)"
    and "same_contents ix (ix\<lparr>ix_states := (ix_states ix)[i := st]\<rparr>)"
proof -
  have "map ks_key ((ix_states ix)[i := st]) = map ks_key (ix_states ix)"
    using i key by (simp add: map_update list_update_same_conv)
  then show same: "same_contents ix (ix\<lparr>ix_states := (ix_states ix)[i := st]\<rparr>)"
    by (simp add: same_contents_def)
  show "on_state i f ix = (r, ix\<lparr>ix_states := (ix_states ix)[i := st]\<rparr>)"
    by (simp add: on_state_def f)
  have "sort_key_names (ix\<lparr>ix_states := (ix_states ix)[i := st]\<rparr>) = sort_key_names ix"
    by (rule same_contents_names[OF same])
  moreover have "key_inv (ix_items ix) s" if "s \<in> set ((ix_states ix)[i := st])" for s
    using that inv st set_update_subset_insert[of "ix_states ix" i st] by (auto simp: index_inv_def)
  ultimately show "index_inv (ix\<lparr>ix_states := (ix_states ix)[i := st]\<rparr>)"
    using inv by (simp add: index_inv_def split: option.splits)
qed

lemma prepare_state_ok:
  assumes inv: "index_inv ix" and i: "i < length (ix_states ix)"
  obtains ix' where "prepare_state i ix = (Inr (), ix')" "index_inv ix'" "same_contents ix ix'"
    "ready (ix_items ix) (ix_states ix' ! i)"
proof -
  have "key_inv (ix_items ix) (ix_states ix ! i)" and plan: "wf_plan (ix_plan ix)"
    using inv i by (simp_all add: index_inv_def)
  from prepare_ok[OF this] obtain st where st: "prepare (ix_plan ix) (ix_items ix) (ix_states ix ! i) = (Inr (), st)"
    "ready (ix_items ix) st" "ks_key st = ks_key (ix_states ix ! i)" by blast
  then have "key_inv (ix_items ix) st" by (simp add: ready_def)
  note os = on_state_ok[OF inv i, of "prepare (ix_plan ix) (ix_items ix)", OF st(1) this st(3)]
  show thesis using os st(2) i by (intro that[of "ix\<lparr>ix_states := (ix_states ix)[i := st]\<rparr>"]) simp_all
qed

text \<open>The shape of every read: prepare the active state, then run on it.\<close>

lemma read_ok:
  assumes inv: "index_inv ix" and a: "ix_active ix = Some a"
    and f: "\<And>ix' st. same_contents ix ix' \<Longrightarrow> ready (ix_items ix) st \<Longrightarrow> ks_key st = ks_key (ix_states ix ! a) \<Longrightarrow>
      (case f ix' st of (r, st') \<Rightarrow> r = Inr v \<and> ready (ix_items ix) st' \<and> ks_key st' = ks_key st)"
  shows "\<exists>ix'. (case prepare_state a ix of (Inl e, ix) \<Rightarrow> (Inl e, ix) | (Inr _, ix) \<Rightarrow> on_state a (f ix) ix)
      = (Inr v, ix') \<and> index_inv ix' \<and> same_contents ix ix'"
proof -
  have al: "a < length (ix_states ix)" using inv a by (simp add: index_inv_def)
  from prepare_state_ok[OF inv al] obtain ix1 where ix1: "prepare_state a ix = (Inr (), ix1)" "index_inv ix1"
    "same_contents ix ix1" "ready (ix_items ix) (ix_states ix1 ! a)" .
  have items: "ix_items ix1 = ix_items ix" using ix1(3) by (simp add: same_contents_def)
  have a1: "a < length (ix_states ix1)" using same_contents_key(2)[OF ix1(3) al] al by simp
  have k1: "ks_key (ix_states ix1 ! a) = ks_key (ix_states ix ! a)" by (rule same_contents_key(1)[OF ix1(3) al])
  from f[OF ix1(3,4) k1] obtain st' where st': "f ix1 (ix_states ix1 ! a) = (Inr v, st')"
    "ready (ix_items ix) st'" "ks_key st' = ks_key (ix_states ix1 ! a)"
    by (cases "f ix1 (ix_states ix1 ! a)") auto
  have "key_inv (ix_items ix1) st'" using st'(2) by (simp add: ready_def items)
  note os = on_state_ok[OF ix1(2) a1, of "f ix1", OF st'(1) this st'(3)]
  show ?thesis using ix1(1) os same_contents_trans[OF ix1(3)] by simp
qed

section \<open>Sorting several buckets\<close>

lemma sort_buckets_ok:
  assumes "ready items st" and "\<forall>b\<in>set bs. b < bucket_total st"
  defines "st' \<equiv> snd (for_do (sort_bucket items) bs st)"
  shows "ready items st'" and "ks_key st' = ks_key st" and "ks_layouts st' = ks_layouts st"
    and "ks_group_offset st' = ks_group_offset st" and "ks_start st' = ks_start st"
    and "bucket_total st' = bucket_total st"
    and "\<And>b. b < bucket_total st \<Longrightarrow> b \<in> set bs \<or> bucket_sorted st b \<Longrightarrow> bucket_sorted st' b"
    and "for_do (sort_bucket items) bs st = (Inr (), st')"
    and "ks_counts st' = ks_counts st" and "ks_order_stale st' = ks_order_stale st"
    and "\<And>b. b \<notin> set bs \<Longrightarrow> ks_sorted_len st' ! b = ks_sorted_len st ! b"
proof -
  have "ready items st' \<and> ks_key st' = ks_key st \<and> ks_layouts st' = ks_layouts st
    \<and> ks_group_offset st' = ks_group_offset st \<and> ks_start st' = ks_start st
    \<and> bucket_total st' = bucket_total st
    \<and> (\<forall>b<bucket_total st. b \<in> set bs \<or> bucket_sorted st b \<longrightarrow> bucket_sorted st' b)
    \<and> for_do (sort_bucket items) bs st = (Inr (), st')
    \<and> ks_counts st' = ks_counts st \<and> ks_order_stale st' = ks_order_stale st
    \<and> (\<forall>b. b \<notin> set bs \<longrightarrow> ks_sorted_len st' ! b = ks_sorted_len st ! b)"
    using assms(1,2) unfolding st'_def
  proof (induction bs arbitrary: st)
    case (Cons c bs)
    have c: "c < bucket_total st" and bs: "\<forall>b\<in>set bs. b < bucket_total (sorted_state items c st)"
      using Cons.prems by simp_all
    have len: "length (ks_sorted_len st) = bucket_total st"
      using Cons.prems(1) by (rule readyE) blast
    note sb = sort_bucket_ok[OF Cons.prems(1) c]
    have "bucket_sorted (sorted_state items c st) b" if "b < bucket_total st" "b = c \<or> bucket_sorted st b" for b
      using that c len sb(2) by (auto simp: bucket_sorted_def nth_list_update)
    moreover define t where "t = sorted_state items c st"
    have "for_do (sort_bucket items) (c # bs) st = for_do (sort_bucket items) bs t"
      using sb(1) by (simp add: t_def[symmetric])
    moreover have "ks_key t = ks_key st" "ks_layouts t = ks_layouts st" "ks_group_offset t = ks_group_offset st"
      "ks_start t = ks_start st" "bucket_total t = bucket_total st" "ks_counts t = ks_counts st"
      "ks_order_stale t = ks_order_stale st" "\<And>b. b \<noteq> c \<Longrightarrow> ks_sorted_len t ! b = ks_sorted_len st ! b"
      by (simp_all add: t_def)
    ultimately show ?case using Cons.IH[OF sb(3) bs, folded t_def] by (simp flip: t_def)
  qed simp
  then show "ready items st'" and "ks_key st' = ks_key st" and "ks_layouts st' = ks_layouts st"
    and "ks_group_offset st' = ks_group_offset st" and "ks_start st' = ks_start st"
    and "bucket_total st' = bucket_total st"
    and "\<And>b. b < bucket_total st \<Longrightarrow> b \<in> set bs \<or> bucket_sorted st b \<Longrightarrow> bucket_sorted st' b"
    and "for_do (sort_bucket items) bs st = (Inr (), st')"
    and "ks_counts st' = ks_counts st" and "ks_order_stale st' = ks_order_stale st"
    and "\<And>b. b \<notin> set bs \<Longrightarrow> ks_sorted_len st' ! b = ks_sorted_len st ! b"
    by blast+
qed

lemma sort_bucket_sorted:
  assumes "ready items st" and "b < bucket_total st"
  shows "bucket_sorted (sorted_state items b st) b"
  using sort_bucket_sorted_len[OF assms] readyE[OF assms(1)] assms(2)
  by (metis bucket_sorted_def nth_list_update_eq sort_bucket_fields(4))

text \<open>Reading one position after its bucket has been sorted.\<close>

lemma read_position:
  assumes "ready items st" and "p < length items" and "bucket_sorted st (bucket_at st p)"
  shows "ks_order st ! p = ranking (ks_key st) items ! p"
  using bucket_at_bounds[OF assms(1,2)] by (intro sorted_position[OF assms(1) _ assms(3)])

lemma bucket_at_same: "ks_start st' = ks_start st \<Longrightarrow> bucket_at st' p = bucket_at st p"
  by (simp add: bucket_at_def)

section \<open>at\<close>

lemma at_in_ok:
  fixes dir :: direction
  assumes "ready items st" and "p < length items"
  defines "asc \<equiv> to_ascending dir (length items) st p"
  defines "st' \<equiv> sorted_state items (bucket_at st asc) st"
  shows "ready items st'" and "ks_order st' ! asc = slot_view (ks_key st) dir items ! p" and "ks_key st' = ks_key st"
    and "sort_bucket items (bucket_at st asc) st = (Inr (), st')"
proof -
  have asc: "asc < length items" unfolding asc_def by (rule to_ascending_ok(1)[OF assms(1,2)])
  note b = bucket_at_bounds(1)[OF assms(1) asc]
  show r: "ready items st'" unfolding st'_def by (rule sort_bucket_ready[OF assms(1) b])
  show "sort_bucket items (bucket_at st asc) st = (Inr (), st')" unfolding st'_def by (rule sort_bucket_returns[OF assms(1) b])
  show key: "ks_key st' = ks_key st" by (simp add: st'_def)
  have "bucket_at st' asc = bucket_at st asc" by (rule bucket_at_same) (simp add: st'_def)
  then have "bucket_sorted st' (bucket_at st' asc)"
    using sort_bucket_sorted[OF assms(1) b] by (simp add: st'_def)
  from read_position[OF r asc this] show "ks_order st' ! asc = slot_view (ks_key st) dir items ! p"
    using to_ascending_ok(2)[OF assms(1,2), of dir] by (simp only: key asc_def)
qed

lemma at_ok:
  assumes inv: "index_inv ix" and p: "p < length (ix_items ix)"
  shows "\<exists>ix'. at p ix = (Inr (index_view ix ! p), ix') \<and> index_inv ix' \<and> same_contents ix ix'"
proof (cases "ix_active ix")
  case None
  then show ?thesis using inv p by (simp add: at_def index_view_def)
next
  case (Some a)
  let ?f = "\<lambda>ix st. let ascending = to_ascending (ix_direction ix) (length (ix_items ix)) st p
                 in case sort_bucket (ix_items ix) (bucket_at st ascending) st of
                      (Inl e, st) \<Rightarrow> (Inl e, st)
                    | (Inr _, st) \<Rightarrow> (Inr (ix_items ix ! (ks_order st ! ascending)), st)"
  have v: "index_view ix ! p
      = ix_items ix ! (slot_view (ks_key (ix_states ix ! a)) (ix_direction ix) (ix_items ix) ! p)"
    using p index_slots_facts(1)[OF inv] Some by (simp add: index_view_slots) (simp add: index_slots_def)
  have "case ?f ix' st of (r, st') \<Rightarrow> r = Inr (index_view ix ! p) \<and> ready (ix_items ix) st' \<and> ks_key st' = ks_key st"
    if "same_contents ix ix'" "ready (ix_items ix) st" "ks_key st = ks_key (ix_states ix ! a)" for ix' st
  proof -
    have same: "ix_items ix' = ix_items ix" "ix_direction ix' = ix_direction ix"
      using that(1) by (simp_all add: same_contents_def)
    let ?asc = "to_ascending (ix_direction ix) (length (ix_items ix)) st p"
    note at_in = at_in_ok[OF that(2) p, of "ix_direction ix"]
    obtain st' where st': "sort_bucket (ix_items ix) (bucket_at st ?asc) st = (Inr (), st')"
        "ready (ix_items ix) st'" "ks_key st' = ks_key st"
        "ks_order st' ! ?asc = slot_view (ks_key st) (ix_direction ix) (ix_items ix) ! p"
      using at_in by blast
    show ?thesis
      unfolding Let_def same v that(3)[symmetric] using st' by simp
  qed
  note read = read_ok[OF inv Some, where f = ?f, OF this]
  have "at p ix = (case prepare_state a ix of (Inl e, ix) \<Rightarrow> (Inl e, ix) | (Inr _, ix) \<Rightarrow> on_state a (?f ix) ix)"
    using p by (simp only: at_def Some option.case not_True_eq_False if_False flip: not_less)
  then show ?thesis using read by (simp only:)
qed

section \<open>range\<close>

lemma start_mono:
  assumes "ready items st" and "b \<le> c" and "c \<le> bucket_total st"
  shows "ks_start st ! b \<le> ks_start st ! c"
proof -
  from assms(1) obtain segs :: "nat list list" where "length segs = bucket_total st" "ks_start st = seg_starts segs"
    by (rule readyE) blast
  then show ?thesis using assms offsets_mono[of b c "map length segs"] by simp
qed

lemma bucket_at_mono:
  assumes r: "ready items st" and "i \<le> j" and "j < length items"
  shows "bucket_at st i \<le> bucket_at st j"
proof (rule ccontr)
  assume "\<not> ?thesis"
  moreover have "i < length items" using assms by simp
  ultimately have "ks_start st ! Suc (bucket_at st j) \<le> ks_start st ! bucket_at st i"
    using bucket_at_bounds(1)[OF r] by (intro start_mono[OF r]) (auto simp: less_imp_le)
  then show False
    using bucket_at_bounds(2)[OF r \<open>i < length items\<close>] bucket_at_bounds(3)[OF r assms(3)] assms(2) by simp
qed

lemma range_fold:
  assumes r: "ready items st" and till: "m \<le> length items" and fm: "from \<le> m"
  shows "\<exists>sb st'. for_do (range_step items dir) [from..<m] (None, st, [])
      = (Inr (), (sb, st', map (\<lambda>p. items ! (slot_view (ks_key st) dir items ! p)) [from..<m]))
    \<and> ready items st' \<and> ks_key st' = ks_key st \<and> (\<forall>b. sb = Some b \<longrightarrow> b < bucket_total st' \<and> bucket_sorted st' b)"
  using fm till
proof (induction m rule: dec_induct)
  case base
  then show ?case using r by simp
next
  case (step m)
  then obtain sb st' where f: "for_do (range_step items dir) [from..<m] (None, st, [])
      = (Inr (), (sb, st', map (\<lambda>p. items ! (slot_view (ks_key st) dir items ! p)) [from..<m]))"
    and r': "ready items st'" and key: "ks_key st' = ks_key st"
    and sb: "\<And>b. sb = Some b \<Longrightarrow> b < bucket_total st' \<and> bucket_sorted st' b" by auto
  have m: "m < length items" using step.prems by simp
  let ?asc = "to_ascending dir (length items) st' m"
  let ?b = "bucket_at st' ?asc"
  have asc: "?asc < length items" by (rule to_ascending_ok(1)[OF r' m])
  note b = bucket_at_bounds(1)[OF r' asc]
  define st'' where "st'' = (if Some ?b \<noteq> sb then sorted_state items ?b st' else st')"
  have r'': "ready items st''" and key'': "ks_key st'' = ks_key st" and start: "ks_start st'' = ks_start st'"
    and total: "bucket_total st'' = bucket_total st'"
    using r' sort_bucket_ok[OF r' b] by (simp_all add: st''_def key)
  have sorted: "bucket_sorted st'' ?b"
    using sort_bucket_sorted[OF r' b] sb[of ?b] by (simp add: st''_def split: if_splits)
  have "bucket_at st'' ?asc = ?b" by (rule bucket_at_same[OF start])
  then have "ks_order st'' ! ?asc = slot_view (ks_key st) dir items ! m"
    using read_position[OF r'' asc] sorted to_ascending_ok(2)[OF r' m, of dir] by (simp add: key key'')
  moreover have "(if Some ?b \<noteq> sb then sort_bucket items ?b st' else (Inr (), st')) = (Inr (), st'')"
    using sort_bucket_returns[OF r' b] by (simp add: st''_def)
  then have "range_step items dir m (sb, st', out) = (Inr (), (Some ?b, st'', out @ [items ! (ks_order st'' ! ?asc)]))" for out
    by (simp add: range_step_def Let_def del: split_paired_All)
  ultimately show ?case using f r'' key'' sorted b step.hyps total by (simp add: for_do_append)
qed

lemma range_in_ok:
  assumes r: "ready items st" and ft: "from < till" "till \<le> length items"
  shows "case range_in items dir from till st of (r, st') \<Rightarrow>
      r = Inr (map (\<lambda>p. items ! (slot_view (ks_key st) dir items ! p)) [from..<till])
      \<and> ready items st' \<and> ks_key st' = ks_key st"
proof (cases "dir = Descending \<and> 1 < length (ks_layouts st)")
  case True
  then show ?thesis using range_fold[OF r ft(2) less_imp_le[OF ft(1)], of dir] by (auto simp: range_in_def)
next
  case False
  let ?n = "length items"
  define lo where "lo = (if dir = Ascending then from else ?n - till)"
  define hi where "hi = (if dir = Ascending then till else ?n - from)"
  define bs where "bs = [bucket_at st lo..<Suc (bucket_at st (hi - 1))]"
  define st' where "st' = snd (for_do (sort_bucket items) bs st)"
  have lh: "lo < hi" "hi \<le> ?n" using ft by (auto simp: lo_def hi_def)
  then have hi: "hi - 1 < ?n" by linarith
  have bs: "\<forall>b\<in>set bs. b < bucket_total st" using bucket_at_bounds(1)[OF r hi] by (auto simp: bs_def)
  note sb = sort_buckets_ok[OF r bs, folded st'_def]
  have order: "ks_order st' ! i = ranking (ks_key st) items ! i" if i: "lo \<le> i" "i < hi" for i
  proof -
    have "i < ?n" using i lh by linarith
    moreover have "bucket_at st lo \<le> bucket_at st i" using i(1) calculation by (intro bucket_at_mono[OF r])
    moreover have "bucket_at st i \<le> bucket_at st (hi - 1)" using i(2) hi by (intro bucket_at_mono[OF r]) auto
    ultimately have "bucket_at st i \<in> set bs" by (auto simp: bs_def)
    then have "bucket_sorted st' (bucket_at st' i)"
      using sb(7)[OF bucket_at_bounds(1)[OF r \<open>i < ?n\<close>]] bucket_at_same[OF sb(5)] by simp
    then show ?thesis using read_position[OF sb(1) \<open>i < ?n\<close>] by (simp add: sb(2))
  qed
  have one: "length (ks_layouts st) = 1" if "dir = Descending"
  proof -
    have "1 \<le> sk_groups (ks_key st)" "length (ks_layouts st) = sk_groups (ks_key st)"
      using r by (simp_all add: ready_def key_inv_def key_base_def wf_key_def layouts_wf_def)
    then show ?thesis using False that by simp
  qed
  have positions: "(if dir = Ascending then [lo..<hi] else rev [lo..<hi])
      = map (to_ascending dir ?n st) [from..<till]"
  proof (cases "dir = Ascending")
    case True
    then show ?thesis by (simp add: to_ascending_def map_idI lo_def hi_def)
  next
    case desc: False
    then have "dir = Descending" by (cases dir) auto
    then show ?thesis using desc ft one
      by (intro nth_equalityI) (auto simp: to_ascending_def rev_nth lo_def hi_def)
  qed
  have "map (\<lambda>i. items ! (ks_order st' ! i)) (if dir = Ascending then [lo..<hi] else rev [lo..<hi])
      = map (\<lambda>p. items ! (slot_view (ks_key st) dir items ! p)) [from..<till]"
  proof -
    have "items ! (ks_order st' ! to_ascending dir ?n st p) = items ! (slot_view (ks_key st) dir items ! p)"
      if "p \<in> set [from..<till]" for p
    proof -
      have "to_ascending dir ?n st p \<in> set (if dir = Ascending then [lo..<hi] else rev [lo..<hi])"
        using that unfolding positions by simp
      then have "lo \<le> to_ascending dir ?n st p" "to_ascending dir ?n st p < hi" by (auto split: if_splits)
      then show ?thesis using order to_ascending_ok(2)[OF r, of p dir] that ft(2) by simp
    qed
    then show ?thesis unfolding positions map_map by (intro map_cong) auto
  qed
  then have "range_in items dir from till st
      = (Inr (map (\<lambda>p. items ! (slot_view (ks_key st) dir items ! p)) [from..<till]), st')"
    using False unfolding range_in_def Let_def lo_def[symmetric] hi_def[symmetric] bs_def[symmetric] sb(8)
    by (cases dir) auto
  then show ?thesis using sb(1,2) by simp
qed

lemma map_slice: "till \<le> length xs \<Longrightarrow> map (\<lambda>p. f (xs ! p)) [from..<till] = take (till - from) (drop from (map f xs))"
  by (rule nth_equalityI) auto

lemma range_ok:
  assumes inv: "index_inv ix"
  shows "\<exists>ix'. range_of from till ix
      = (Inr (take (min till (length (ix_items ix)) - from) (drop from (index_view ix))), ix')
    \<and> index_inv ix' \<and> same_contents ix ix'"
proof -
  let ?till = "min till (length (ix_items ix))"
  consider (empty) "?till \<le> from" | (plain) "from < ?till" "ix_active ix = None"
    | (active) a where "from < ?till" "ix_active ix = Some a" by (cases "ix_active ix") fastforce+
  then show ?thesis
  proof cases
    case empty
    then show ?thesis using inv by (simp add: range_of_def Let_def)
  next
    case plain
    then show ?thesis using inv by (simp add: range_of_def Let_def index_view_def)
  next
    case (active a)
    let ?f = "\<lambda>ix. range_in (ix_items ix) (ix_direction ix) from ?till"
    let ?v = "take (?till - from) (drop from (index_view ix))"
    have v: "?v = map (\<lambda>p. ix_items ix ! (slot_view (ks_key (ix_states ix ! a)) (ix_direction ix) (ix_items ix) ! p))
        [from..<?till]"
      using index_slots_facts(1)[OF inv] active(2) by (subst map_slice) (simp_all add: index_view_slots index_slots_def)
    have "case ?f ix' st of (r, st') \<Rightarrow> r = Inr ?v \<and> ready (ix_items ix) st' \<and> ks_key st' = ks_key st"
      if "same_contents ix ix'" "ready (ix_items ix) st" "ks_key st = ks_key (ix_states ix ! a)" for ix' st
    proof -
      have same: "ix_items ix' = ix_items ix" "ix_direction ix' = ix_direction ix"
        using that(1) by (simp_all add: same_contents_def)
      show ?thesis
        unfolding same v that(3)[symmetric] using range_in_ok[OF that(2) active(1), of "ix_direction ix"]
        by (simp add: case_prod_beta)
    qed
    note read = read_ok[OF inv active(2), where f = ?f, OF this]
    have "range_of from till ix = (case prepare_state a ix of (Inl e, ix) \<Rightarrow> (Inl e, ix)
        | (Inr _, ix) \<Rightarrow> on_state a (range_in (ix_items ix) (ix_direction ix) from ?till) ix)"
      using active(1) by (simp only: range_of_def Let_def active(2) option.case not_True_eq_False if_False flip: not_less)
    then show ?thesis using read by (simp only: same_contents_def)
  qed
qed

end
