(* ===== verification/Index_Visits.thy ===== *)
theory Index_Visits
  imports Index_Reads
begin

text \<open>
  The reads that pass over many buckets: \<open>for_each\<close> shows every element in display order,
  \<open>sort_all\<close> sorts every bucket, \<open>position_if\<close> finds the display position of the first
  match; and the selection of the order by \<open>sort_by\<close> and \<open>unsort\<close>.
\<close>

section \<open>for_each\<close>

abbreviation bucket_span :: "'a list \<Rightarrow> direction \<Rightarrow> 'a key_state \<Rightarrow> nat \<Rightarrow> 'a list" where
  "bucket_span items dir st b \<equiv>
     map (\<lambda>p. items ! (ranking (ks_key st) items ! p))
       (if dir = Ascending then [ks_start st ! b..<ks_start st ! Suc b] else rev [ks_start st ! b..<ks_start st ! Suc b])"

lemma bucket_positions:
  assumes r: "ready items st" and b: "b < bucket_total st" and p: "ks_start st ! b \<le> p" "p < ks_start st ! Suc b"
  shows "p < length items" and "bucket_at st p = b"
proof -
  from r obtain segs :: "nat list list" where len: "length segs = bucket_total st" and start: "ks_start st = seg_starts segs"
    and perm: "mset (concat segs) = mset [0..<length items]" by (rule readyE) blast
  have "seg_starts segs ! Suc b \<le> length (concat segs)" using b len by (simp add: sum_take_le length_concat)
  moreover have "length (concat segs) = length items" using perm by (metis diff_zero length_upt size_mset)
  ultimately show "p < length items" using p(2) start by simp
  show "bucket_at st p = b"
    using offsets_upper_bound[of b "map length segs" p] b p len by (simp add: bucket_at_def start)
qed

lemma visit_fold:
  assumes "ready items st" and "\<forall>b\<in>set bs. b < bucket_total st"
  shows "\<exists>st'. for_do (visit_bucket items dir) bs (seen, st)
      = (Inr (), (seen @ concat (map (bucket_span items dir st) bs), st'))
    \<and> ready items st' \<and> ks_key st' = ks_key st \<and> ks_start st' = ks_start st \<and> ks_layouts st' = ks_layouts st
    \<and> ks_group_offset st' = ks_group_offset st"
  using assms
proof (induction bs arbitrary: st seen)
  case (Cons b bs)
  have b: "b < bucket_total st" using Cons.prems by simp
  define t where "t = sorted_state items b st"
  have sb: "sort_bucket items b st = (Inr (), t)" "ready items t" "bucket_sorted t b"
    and same: "ks_key t = ks_key st" "ks_start t = ks_start st" "ks_layouts t = ks_layouts st"
      "ks_group_offset t = ks_group_offset st" "bucket_total t = bucket_total st"
    using sort_bucket_ok(1,3)[OF Cons.prems(1) b] sort_bucket_sorted[OF Cons.prems(1) b] by (simp_all add: t_def)
  have "ks_order t ! p = ranking (ks_key st) items ! p" if "ks_start st ! b \<le> p" "p < ks_start st ! Suc b" for p
  proof -
    have "bucket_at t p = b" using bucket_positions(2)[OF Cons.prems(1) b that] by (simp add: bucket_at_def same)
    then show ?thesis
      using read_position[OF sb(2) bucket_positions(1)[OF Cons.prems(1) b that]] sb(3) by (simp add: same)
  qed
  then have "visit_bucket items dir b (seen, st) = (Inr (), (seen @ bucket_span items dir st b, t))"
    by (auto simp: visit_bucket_def Let_def sb(1) same intro!: map_cong)
  moreover have "\<forall>b\<in>set bs. b < bucket_total t" using Cons.prems(2) by (simp add: same)
  ultimately show ?case using Cons.IH[OF sb(2), of "seen @ bucket_span items dir st b"] by (auto simp: same)
qed simp

lemma concat_spans:
  fixes s :: "nat \<Rightarrow> nat"
  assumes "a \<le> c" and "\<And>i j. i \<le> j \<Longrightarrow> j \<le> c \<Longrightarrow> s i \<le> s j"
  shows "concat (map (\<lambda>b. [s b..<s (Suc b)]) [a..<c]) = [s a..<s c]"
    and "concat (map (\<lambda>b. rev [s b..<s (Suc b)]) (rev [a..<c])) = rev [s a..<s c]"
proof -
  show *: "concat (map (\<lambda>b. [s b..<s (Suc b)]) [a..<c]) = [s a..<s c]"
    using assms
  proof (induction c rule: dec_induct)
    case (step c)
    have "s a \<le> s c" "s c \<le> s (Suc c)" using step.hyps step.prems by simp_all
    then show ?case using step upt_add_eq_append[of "s a" "s c" "s (Suc c) - s c"] by simp
  qed simp
  have "concat (map (\<lambda>b. rev [s b..<s (Suc b)]) (rev [a..<c])) = rev (concat (map (\<lambda>b. [s b..<s (Suc b)]) [a..<c]))"
    by (simp add: rev_concat rev_map comp_def)
  then show "concat (map (\<lambda>b. rev [s b..<s (Suc b)]) (rev [a..<c])) = rev [s a..<s c]" by (simp only: *)
qed

text \<open>The descending view as spans of the full order.\<close>

lemma group_spans:
  assumes r: "ready items st" and dir: "dir \<noteq> Ascending"
  shows "slot_view (ks_key st) dir items
    = concat (map (\<lambda>g. map ((!) (ranking (ks_key st) items))
        (rev [ks_start st ! (ks_group_offset st ! g)..<ks_start st ! (ks_group_offset st ! Suc g)])) [0..<sk_groups (ks_key st)])"
proof -
  let ?k = "ks_key st"
  define segs where "segs = map (\<lambda>g. filter (\<lambda>s. group_number ?k (items ! s) = g) (ranking ?k items)) [0..<sk_groups ?k]"
  have base: "key_base items st" using r by (simp add: ready_def key_inv_def)
  have groups: "ranking ?k items = concat segs" unfolding segs_def by (rule ranking_groups[OF base])
  have len: "length segs = sk_groups ?k" by (simp add: segs_def)
  have start: "ks_start st ! (ks_group_offset st ! g) = seg_starts segs ! g" if "g \<le> sk_groups ?k" for g
    unfolding segs_def by (rule group_segments[OF r that])
  have seg: "segs ! g = map ((!) (ranking ?k items))
      [ks_start st ! (ks_group_offset st ! g)..<ks_start st ! (ks_group_offset st ! Suc g)]" if g: "g < sk_groups ?k" for g
    using segment_map[of g segs] start[of g] start[of "Suc g"] g len unfolding groups by simp
  have "map rev segs = map (\<lambda>g. map ((!) (ranking ?k items))
      (rev [ks_start st ! (ks_group_offset st ! g)..<ks_start st ! (ks_group_offset st ! Suc g)])) [0..<sk_groups ?k]"
    using seg len by (intro nth_equalityI) (simp_all add: rev_map)
  moreover have "slot_view ?k dir items = concat (map rev segs)" using dir by (simp add: slot_view_def segs_def comp_def)
  ultimately show ?thesis by (simp only:)
qed

lemma total_start: "ready items st \<Longrightarrow> ks_start st ! bucket_total st = length items"
  using start_count[of items st "bucket_total st"] home_bounds(3)[of st]
  by (force simp: ready_def key_inv_def key_base_def intro: filter_True)

lemma group_offset_mono:
  assumes "ready items st" and "i \<le> j" and "j \<le> sk_groups (ks_key st)"
  shows "ks_group_offset st ! i \<le> ks_group_offset st ! j" and "ks_group_offset st ! j \<le> bucket_total st"
proof -
  have lw: "layouts_wf st" using assms(1) by (simp add: ready_def key_inv_def)
  then show "ks_group_offset st ! i \<le> ks_group_offset st ! j"
    using offsets_mono[of i j "map layout_bucket_count (ks_layouts st)"] assms(2,3) by (simp add: layouts_wf_def)
  show "ks_group_offset st ! j \<le> bucket_total st"
    using assms(3) lw by (simp add: layouts_wf_def bucket_total_def sum_take_le)
qed

lemma visit_groups:
  assumes r: "ready items st" and dir: "dir \<noteq> Ascending" and "\<forall>g\<in>set gs. g < sk_groups (ks_key st)"
  shows "\<exists>st'. for_do (\<lambda>g. for_do (visit_bucket items dir) (rev [ks_group_offset st ! g..<ks_group_offset st ! Suc g])) gs (seen, st)
      = (Inr (), (seen @ concat (map (\<lambda>g. map (\<lambda>p. items ! (ranking (ks_key st) items ! p))
            (rev [ks_start st ! (ks_group_offset st ! g)..<ks_start st ! (ks_group_offset st ! Suc g)])) gs), st'))
    \<and> ready items st' \<and> ks_key st' = ks_key st"
  using assms(1,3)
proof (induction gs arbitrary: seen st)
  case (Cons g gs)
  let ?a = "ks_group_offset st ! g" and ?b = "ks_group_offset st ! Suc g"
  let ?f = "\<lambda>p. items ! (ranking (ks_key st) items ! p)"
  have g: "Suc g \<le> sk_groups (ks_key st)" using Cons.prems(2) by simp
  note go = group_offset_mono[OF Cons.prems(1) _ g]
  have "\<forall>b\<in>set (rev [?a..<?b]). b < bucket_total st" using go(2)[of g] by auto
  from visit_fold[OF Cons.prems(1) this, of dir seen] obtain st' where
    f: "for_do (visit_bucket items dir) (rev [?a..<?b]) (seen, st)
      = (Inr (), (seen @ concat (map (bucket_span items dir st) (rev [?a..<?b])), st'))"
    and r': "ready items st'" and same: "ks_key st' = ks_key st" "ks_start st' = ks_start st"
      "ks_group_offset st' = ks_group_offset st" by blast
  have "concat (map (bucket_span items dir st) (rev [?a..<?b]))
      = map ?f (concat (map (\<lambda>b. rev [ks_start st ! b..<ks_start st ! Suc b]) (rev [?a..<?b])))"
    using dir by (simp add: map_concat comp_def)
  also have "\<dots> = map ?f (rev [ks_start st ! ?a..<ks_start st ! ?b])"
  proof -
    have "ks_start st ! i \<le> ks_start st ! j" if "i \<le> j" "j \<le> ?b" for i j
      using that go(2)[of g] by (intro start_mono[OF Cons.prems(1)]) auto
    then show ?thesis using concat_spans(2)[of ?a ?b "(!) (ks_start st)"] go(1)[of g] by simp
  qed
  finally have spans: "concat (map (bucket_span items dir st) (rev [?a..<?b])) = map ?f (rev [ks_start st ! ?a..<ks_start st ! ?b])" .
  have gs: "\<forall>g\<in>set gs. g < sk_groups (ks_key st')" using Cons.prems(2) same(1) by simp
  show ?case
    using Cons.IH[OF r' gs, of "seen @ map ?f (rev [ks_start st ! ?a..<ks_start st ! ?b])"]
    by (simp only: for_do.simps prod.case sum.case f[unfolded spans] same list.map concat.simps append_assoc)
qed simp

lemma for_each_in_ok:
  assumes r: "ready items st"
  shows "case for_each_in items dir st of (r, st') \<Rightarrow>
    r = Inr (map ((!) items) (slot_view (ks_key st) dir items)) \<and> ready items st' \<and> ks_key st' = ks_key st"
proof (cases "dir = Ascending")
  case True
  have "\<forall>b\<in>set [0..<bucket_total st]. b < bucket_total st" by simp
  from visit_fold[OF r this, of dir "[]"] obtain st' where
    f: "for_do (visit_bucket items dir) [0..<bucket_total st] ([], st)
      = (Inr (), (concat (map (bucket_span items dir st) [0..<bucket_total st]), st'))"
    and st': "ready items st'" "ks_key st' = ks_key st" by auto
  let ?f = "\<lambda>p. items ! (ranking (ks_key st) items ! p)"
  have "concat (map (bucket_span items dir st) [0..<bucket_total st])
      = map ?f (concat (map (\<lambda>b. [ks_start st ! b..<ks_start st ! Suc b]) [0..<bucket_total st]))"
    using True by (simp add: map_concat comp_def)
  also have "\<dots> = map ?f [ks_start st ! 0..<ks_start st ! bucket_total st]"
    using concat_spans(1)[of 0 "bucket_total st" "(!) (ks_start st)"] start_mono[OF r] by simp
  also have "\<dots> = map ?f [0..<length items]"
    using start_count[OF r, of 0] total_start[OF r] by simp
  also have "\<dots> = map ((!) items) (slot_view (ks_key st) dir items)"
    using True by (intro nth_equalityI) (simp_all add: slot_view_def)
  finally show ?thesis using f st' True by (simp add: for_each_in_def)
next
  case False
  have lw: "length (ks_layouts st) = sk_groups (ks_key st)"
    using r by (simp add: ready_def key_inv_def layouts_wf_def)
  have "\<forall>g\<in>set [0..<sk_groups (ks_key st)]. g < sk_groups (ks_key st)" by simp
  from visit_groups[OF r False this, of "[]"] show ?thesis
    using False group_spans[OF r False] lw by (auto simp: for_each_in_def map_concat comp_def rev_map)
qed

lemma for_each_ok:
  assumes inv: "index_inv ix"
  shows "\<exists>ix'. for_each ix = (Inr (index_view ix), ix') \<and> index_inv ix' \<and> same_contents ix ix'"
proof (cases "ix_active ix")
  case None
  then show ?thesis using inv by (simp add: for_each_def index_view_def)
next
  case (Some a)
  let ?f = "\<lambda>ix. for_each_in (ix_items ix) (ix_direction ix)"
  have v: "index_view ix = map ((!) (ix_items ix)) (slot_view (ks_key (ix_states ix ! a)) (ix_direction ix) (ix_items ix))"
    using Some by (simp add: index_view_slots index_slots_def)
  have "case ?f ix' st of (r, st') \<Rightarrow> r = Inr (index_view ix) \<and> ready (ix_items ix) st' \<and> ks_key st' = ks_key st"
    if "same_contents ix ix'" "ready (ix_items ix) st" "ks_key st = ks_key (ix_states ix ! a)" for ix' st
  proof -
    have same: "ix_items ix' = ix_items ix" "ix_direction ix' = ix_direction ix"
      using that(1) by (simp_all add: same_contents_def)
    show ?thesis
      unfolding same v that(3)[symmetric] using for_each_in_ok[OF that(2), of "ix_direction ix"]
      by (simp add: case_prod_beta)
  qed
  note read = read_ok[OF inv Some, where f = ?f, OF this]
  then show ?thesis by (simp only: for_each_def Some option.case)
qed

section \<open>sort_all\<close>

lemma sort_all_ok:
  assumes inv: "index_inv ix"
  shows "\<exists>ix'. sort_all ix = (Inr (), ix') \<and> index_inv ix' \<and> same_contents ix ix'"
proof (cases "ix_active ix")
  case None
  then show ?thesis using inv by (simp add: sort_all_def)
next
  case (Some a)
  let ?f = "\<lambda>ix st. for_do (sort_bucket (ix_items ix)) [0..<bucket_total st] st"
  have "case ?f ix' st of (r, st') \<Rightarrow> r = Inr () \<and> ready (ix_items ix) st' \<and> ks_key st' = ks_key st"
    if "same_contents ix ix'" "ready (ix_items ix) st" "ks_key st = ks_key (ix_states ix ! a)" for ix' st
  proof -
    have "\<forall>b\<in>set [0..<bucket_total st]. b < bucket_total st" by simp
    note sb = sort_buckets_ok(1,2,8)[OF that(2) this]
    have "ix_items ix' = ix_items ix" using that(1) by (simp add: same_contents_def)
    moreover have "fst (for_do (sort_bucket (ix_items ix)) [0..<bucket_total st] st) = Inr ()"
      by (subst sb(3)) simp
    ultimately show ?thesis using sb(1,2) by (simp add: case_prod_beta)
  qed
  note read = read_ok[OF inv Some, where f = ?f, OF this]
  then show ?thesis by (simp only: sort_all_def Some option.case)
qed

section \<open>position_if\<close>

text \<open>The display position of a slot.\<close>

definition display_position :: "'a index \<Rightarrow> nat \<Rightarrow> nat" where
  "display_position ix slot = find_index (\<lambda>s. s = slot) (index_slots ix)"

lemma find_index_distinct: "distinct xs \<Longrightarrow> i < length xs \<Longrightarrow> find_index (\<lambda>x. x = xs ! i) xs = i"
proof -
  assume d: "distinct xs" "i < length xs"
  then have "find_index (\<lambda>x. x = xs ! i) xs < length xs" by (auto simp: find_index_less_iff)
  moreover from find_index_nth[OF this] have "xs ! find_index (\<lambda>x. x = xs ! i) xs = xs ! i" .
  ultimately show ?thesis using d by (simp add: nth_eq_iff_index_eq)
qed

lemma position_in_ok:
  assumes r: "ready items st" and slot: "slot < length items"
  defines "st' \<equiv> sorted_state items (ks_buckets st ! slot) st"
  defines "first \<equiv> ks_start st' ! (ks_buckets st ! slot)"
  defines "it \<equiv> first + find_index (\<lambda>s. s = slot_cast slot)
    (take (ks_start st' ! Suc (ks_buckets st ! slot) - first) (drop first (ks_order st')))"
  shows "ready items st'" and "ks_key st' = ks_key st"
    and "to_ascending dir (length items) st' it < length items"
    and "slot_view (ks_key st) dir items ! to_ascending dir (length items) st' it = slot"
    and "sort_bucket items (ks_buckets st ! slot) st = (Inr (), st')"
proof -
  let ?n = "length items" and ?b = "ks_buckets st ! slot"
  have inv: "key_inv items st" using r by (simp add: ready_def)
  then have base: "key_base items st" and lw: "layouts_wf st" and as: "assigned items st" by (simp_all add: key_inv_def)
  have bh: "?b = home st (items ! slot)" using as slot by (simp add: assigned_def)
  have b: "?b < bucket_total st"
    unfolding bh using base slot by (intro home_bounds(3)[OF lw]) (simp_all add: key_base_def)
  show r': "ready items st'" unfolding st'_def by (rule sort_bucket_ready[OF r b])
  show "sort_bucket items (ks_buckets st ! slot) st = (Inr (), st')" unfolding st'_def by (rule sort_bucket_returns[OF r b])
  show key: "ks_key st' = ks_key st" by (simp add: st'_def)
  have total: "bucket_total st' = bucket_total st" by (simp add: st'_def)
  have home: "home st' = home st" by (rule home_cong) (simp_all add: st'_def)
  from r' obtain segs where len: "length segs = bucket_total st'" and order: "ks_order st' = concat segs"
    and start: "ks_start st' = seg_starts segs" and perm: "mset (concat segs) = mset [0..<?n]"
    and mem: "\<And>b s. b < bucket_total st' \<Longrightarrow> s \<in> set (segs ! b) \<Longrightarrow> s < ?n \<and> home st' (items ! s) = b"
    by (rule readyE) blast
  have bl: "?b < length segs" using b total len by simp
  have "set (concat segs) = {0..<?n}" using perm by (metis set_mset_mset set_upt)
  then have "slot \<in> set (concat segs)" using slot by simp
  then obtain c where c: "c < length segs" "slot \<in> set (segs ! c)" by (auto simp: in_set_conv_nth[of _ segs])
  then have "slot \<in> set (segs ! ?b)" using mem[of c slot] len bh home by simp
  then have fi: "find_index (\<lambda>s. s = slot) (segs ! ?b) < length (segs ! ?b)" by (simp add: find_index_less_iff)
  have cast: "slot_cast slot = slot" using base slot by (simp add: slot_cast_def key_base_def)
  have it: "it = seg_starts segs ! ?b + find_index (\<lambda>s. s = slot) (segs ! ?b)"
    unfolding it_def first_def start order cast segment_take_drop[OF bl] ..
  have at_it: "ks_order st' ! it = slot"
    unfolding it order using segment_nth[OF bl fi] find_index_nth[OF fi] by simp
  have sb: "seg_starts segs ! Suc ?b = seg_starts segs ! ?b + length (segs ! ?b)" using bl by (simp add: sum_take_Suc)
  have range: "ks_start st' ! ?b \<le> it" "it < ks_start st' ! Suc ?b" unfolding it start sb using fi by simp_all
  have b': "?b < bucket_total st'" using b total by simp
  note pos = bucket_positions[OF r' b' range]
  have "ranking (ks_key st') items ! it = slot"
    using read_position[OF r' pos(1)] sort_bucket_sorted[OF r b] at_it pos(2) by (simp add: st'_def)
  then show "slot_view (ks_key st) dir items ! to_ascending dir ?n st' it = slot"
    using to_ascending_ok(2)[OF r' to_ascending_ok(1)[OF r' pos(1)], of dir] to_ascending_involution[OF r' pos(1), of dir]
    by (simp add: key)
  show "to_ascending dir ?n st' it < ?n" by (rule to_ascending_ok(1)[OF r' pos(1)])
qed

lemma position_if_none:
  "\<forall>x\<in>set (ix_items ix). \<not> p x \<Longrightarrow> position_if p ix = (Inr None, ix)"
proof -
  assume "\<forall>x\<in>set (ix_items ix). \<not> p x"
  then have "\<not> find_index p (ix_items ix) < length (ix_items ix)" by (auto simp: find_index_less_iff)
  then have "find_index p (ix_items ix) = length (ix_items ix)"
    using find_index_le[of p "ix_items ix"] by linarith
  then show ?thesis by (simp add: position_if_def)
qed

lemma position_if_ok:
  assumes inv: "index_inv ix" and x: "\<exists>x\<in>set (ix_items ix). p x"
  shows "\<exists>ix'. position_if p ix = (Inr (Some (display_position ix (find_index p (ix_items ix)))), ix')
    \<and> index_inv ix' \<and> same_contents ix ix'"
proof -
  let ?slot = "find_index p (ix_items ix)" and ?n = "length (ix_items ix)"
  have slot: "?slot < ?n" using x by (simp add: find_index_less_iff)
  show ?thesis
  proof (cases "ix_active ix")
    case None
    have "display_position ix ?slot = ?slot"
      using None find_index_distinct[of "[0..<?n]" ?slot] slot by (simp add: display_position_def index_slots_def)
    then show ?thesis using None slot inv by (simp add: position_if_def Let_def)
  next
    case (Some a)
    let ?f = "\<lambda>ix st.
       let bucket = ks_buckets st ! ?slot
       in case sort_bucket (ix_items ix) bucket st of
            (Inl e, st) \<Rightarrow> (Inl e, st)
          | (Inr _, st) \<Rightarrow>
              let first = ks_start st ! bucket;
                  it = first + find_index (\<lambda>s. s = slot_cast ?slot) (take (ks_start st ! (bucket + 1) - first) (drop first (ks_order st)))
              in (Inr (Some (to_ascending (ix_direction ix) (length (ix_items ix)) st it)), st)"
    have unique: "q = display_position ix ?slot" if "q < ?n" "index_slots ix ! q = ?slot" for q
      using find_index_distinct[OF index_slots_facts(3)[OF inv], of q] that index_slots_facts(1)[OF inv]
      by (simp add: display_position_def)
    have "case ?f ix' st of (r, st') \<Rightarrow>
        r = Inr (Some (display_position ix ?slot)) \<and> ready (ix_items ix) st' \<and> ks_key st' = ks_key st"
      if "same_contents ix ix'" "ready (ix_items ix) st" "ks_key st = ks_key (ix_states ix ! a)" for ix' st
    proof -
      have same: "ix_items ix' = ix_items ix" "ix_direction ix' = ix_direction ix"
        using that(1) by (simp_all add: same_contents_def)
      have slots: "index_slots ix = slot_view (ks_key st) (ix_direction ix) (ix_items ix)"
        using Some that(3) by (simp add: index_slots_def)
      define st' where "st' = sorted_state (ix_items ix) (ks_buckets st ! ?slot) st"
      note pos = position_in_ok(1,2)[OF that(2) slot, folded st'_def]
        position_in_ok(3,4)[OF that(2) slot, where dir = "ix_direction ix", folded st'_def]
        position_in_ok(5)[OF that(2) slot, folded st'_def]
      have "fst (?f ix' st) = Inr (Some (display_position ix ?slot))"
        unfolding Let_def same pos(5) prod.case sum.case fst_conv using unique[OF pos(3)] pos(4) slots
        by (simp only: Suc_eq_plus1)
      moreover have "ready (ix_items ix) (snd (?f ix' st)) \<and> ks_key (snd (?f ix' st)) = ks_key st"
        unfolding Let_def same pos(5) prod.case sum.case snd_conv using pos(1,2) by blast
      ultimately show ?thesis unfolding case_prod_beta by blast
    qed
    note read = read_ok[OF inv Some, where f = ?f, OF this]
    have "position_if p ix = (case prepare_state a ix of (Inl e, ix) \<Rightarrow> (Inl e, ix) | (Inr _, ix) \<Rightarrow> on_state a (?f ix) ix)"
      using slot by (simp only: position_if_def Let_def Some option.case nat_less_le if_False)
    then show ?thesis using read by (simp only:)
  qed
qed

section \<open>Selecting the order\<close>

lemma find_state_some:
  assumes "find_state ix name = Some i"
  shows "i < length (ix_states ix)" and "sk_name (ks_key (ix_states ix ! i)) = name"
    and "\<And>j. j < i \<Longrightarrow> sk_name (ks_key (ix_states ix ! j)) \<noteq> name"
proof -
  let ?p = "\<lambda>st. sk_name (ks_key st) = name"
  have f: "find_index ?p (ix_states ix) < length (ix_states ix)" and i: "i = find_index ?p (ix_states ix)"
    using assms by (auto simp: find_state_def Let_def split: if_splits)
  show "i < length (ix_states ix)" using f i by simp
  show "sk_name (ks_key (ix_states ix ! i)) = name" using find_index_nth[OF f] i by simp
  show "\<And>j. j < i \<Longrightarrow> sk_name (ks_key (ix_states ix ! j)) \<noteq> name"
    using find_index_first[of _ ?p "ix_states ix"] by (simp add: i)
qed

lemma find_state_none: "find_state ix name = None \<longleftrightarrow> name \<notin> set (sort_key_names ix)"
  using find_index_less_iff[of "\<lambda>st. sk_name (ks_key st) = name" "ix_states ix"]
  by (auto simp: find_state_def sort_key_names_def Let_def)

lemma find_state_nth:
  assumes "distinct (sort_key_names ix)" and "i < length (ix_states ix)"
  shows "find_state ix (sort_key_names ix ! i) = Some i"
proof (cases "find_state ix (sort_key_names ix ! i)")
  case None
  then show ?thesis using assms(2) by (simp add: find_state_none sort_key_names_def)
next
  case (Some j)
  have "sort_key_names ix ! j = sort_key_names ix ! i" and "j < length (ix_states ix)"
    using find_state_some(1,2)[OF Some] by (simp_all add: sort_key_names_def)
  then have "j = i" using assms nth_eq_iff_index_eq[OF assms(1), of j i] by (simp add: sort_key_names_def)
  then show ?thesis using Some by simp
qed

lemma sort_by_ok:
  assumes inv: "index_inv ix" and i: "find_state ix name = Some i"
  shows "\<exists>ix'. sort_by name dir ix = (Inr (), ix') \<and> index_inv ix'
    \<and> same_contents (ix\<lparr>ix_active := Some i, ix_direction := dir\<rparr>) ix'"
proof -
  let ?ix = "ix\<lparr>ix_active := Some i, ix_direction := dir\<rparr>"
  have il: "i < length (ix_states ?ix)" using find_state_some(1)[OF i] by simp
  have "index_inv ?ix" using inv il by (simp add: index_inv_def sort_key_names_def)
  from prepare_state_ok[OF this il] obtain ix' where
    "prepare_state i ?ix = (Inr (), ix')" "index_inv ix'" "same_contents ?ix ix'" .
  then show ?thesis using i by (simp add: sort_by_def require_state_def)
qed

lemma sort_by_unknown:
  "name \<notin> set (sort_key_names ix) \<Longrightarrow>
   sort_by name dir ix = (Inl (Invalid_argument (''BucketIndex: unknown sort key '' @ quoted name)), ix)"
  by (simp add: sort_by_def require_state_def find_state_none[symmetric])

lemma unsort_ok: "index_inv ix \<Longrightarrow> index_inv (unsort ix) \<and> index_view (unsort ix) = ix_items ix"
  by (simp add: unsort_def index_inv_def index_view_def sort_key_names_def)

lemma new_index_inv: "wf_plan plan \<Longrightarrow> index_inv (new_index plan)"
  by (simp add: new_index_def index_inv_def sort_key_names_def)

end
