(* ===== verification/Index_Updates.thy ===== *)
theory Index_Updates
  imports Index_Visits
begin

text \<open>
  The operations that change the sort keys, the plan or the elements: each preserves the
  invariant of the index, never throws on admissible arguments, and has the effect on the
  contents the interface promises.
\<close>

section \<open>Running an operation on every key state\<close>

text \<open>The part of the invariant that does not mention the key states' data.\<close>

definition frame_inv :: "'a index \<Rightarrow> bool" where
  "frame_inv ix \<longleftrightarrow>
     wf_plan (ix_plan ix) \<and> length (ix_items ix) < 2 ^ 32 \<and> distinct (sort_key_names ix)
     \<and> (case ix_active ix of None \<Rightarrow> True | Some a \<Rightarrow> a < length (ix_states ix))"

lemma index_inv_frame:
  "index_inv ix \<longleftrightarrow> frame_inv ix \<and> (\<forall>st\<in>set (ix_states ix). key_inv (ix_items ix) st)"
  by (auto simp: index_inv_def frame_inv_def)

lemma each_do_ok:
  assumes "\<And>s. s \<in> set ss \<Longrightarrow> \<exists>s'. f s = (Inr (), s') \<and> P s s'"
  shows "\<exists>ss'. each_do f ss = (Inr (), ss') \<and> list_all2 P ss ss'"
  using assms
proof (induction ss)
  case (Cons s ss)
  then obtain s' ss' where "f s = (Inr (), s')" "P s s'" "each_do f ss = (Inr (), ss')" "list_all2 P ss ss'"
    by (metis list.set_intros)
  then show ?case by simp
qed simp

lemma on_states_ok:
  assumes frame: "frame_inv ix"
    and f: "\<And>st. st \<in> set (ix_states ix) \<Longrightarrow> \<exists>st'. f st = (Inr (), st') \<and> key_inv (ix_items ix) st' \<and> ks_key st' = ks_key st"
  shows "\<exists>ix'. on_states f ix = (Inr (), ix') \<and> index_inv ix' \<and> same_contents ix ix'"
proof -
  from each_do_ok[of "ix_states ix" f "\<lambda>st st'. key_inv (ix_items ix) st' \<and> ks_key st' = ks_key st", OF f]
  obtain sts where sts: "each_do f (ix_states ix) = (Inr (), sts)"
    and all: "list_all2 (\<lambda>st st'. key_inv (ix_items ix) st' \<and> ks_key st' = ks_key st) (ix_states ix) sts" by blast
  let ?ix = "ix\<lparr>ix_states := sts\<rparr>"
  have len: "length sts = length (ix_states ix)" using all by (simp add: list_all2_lengthD)
  have "map ks_key sts = map ks_key (ix_states ix)"
    using all by (induction rule: list_all2_induct) simp_all
  then have same: "same_contents ix ?ix" by (simp add: same_contents_def)
  have "frame_inv ?ix"
    using frame len same_contents_names[OF same] by (simp add: frame_inv_def split: option.splits)
  moreover have "key_inv (ix_items ix) s" if "s \<in> set sts" for s
    using all that by (auto simp: list_all2_conv_all_nth in_set_conv_nth)
  ultimately have "index_inv ?ix" by (simp add: index_inv_frame)
  then show ?thesis using sts same by (simp add: on_states_def)
qed

section \<open>Rebalancing and the plan\<close>

lemma rebalance_all_ok:
  assumes "frame_inv ix" and "\<forall>st\<in>set (ix_states ix). key_base (ix_items ix) st"
  shows "\<exists>ix'. rebalance_all ix = (Inr (), ix') \<and> index_inv ix' \<and> same_contents ix ix'"
  unfolding rebalance_all_def
proof (rule on_states_ok[OF assms(1)])
  fix st assume "st \<in> set (ix_states ix)"
  then have "key_base (ix_items ix) st" "wf_plan (ix_plan ix)" using assms by (simp_all add: frame_inv_def)
  from relayout_ok[OF this] show "\<exists>st'. relayout (ix_plan ix) (ix_items ix) st = (Inr (), st')
      \<and> key_inv (ix_items ix) st' \<and> ks_key st' = ks_key st" by blast
qed

lemma index_inv_base: "index_inv ix \<Longrightarrow> st \<in> set (ix_states ix) \<Longrightarrow> key_base (ix_items ix) st"
  by (simp add: index_inv_def key_inv_def)

lemma set_plan_ok:
  assumes "index_inv ix" and "wf_plan plan"
  shows "\<exists>ix'. set_plan plan ix = (Inr (), ix') \<and> index_inv ix' \<and> same_contents (ix\<lparr>ix_plan := plan\<rparr>) ix'"
  unfolding set_plan_def
proof (rule rebalance_all_ok)
  show "frame_inv (ix\<lparr>ix_plan := plan\<rparr>)"
    using assms by (simp add: index_inv_frame frame_inv_def sort_key_names_def split: option.splits)
qed (use assms index_inv_base in auto)

lemma rebalance_ok:
  assumes inv: "index_inv ix" and i: "find_state ix name = Some i"
  shows "\<exists>ix'. rebalance name ix = (Inr (), ix') \<and> index_inv ix' \<and> same_contents ix ix'"
proof -
  have il: "i < length (ix_states ix)" by (rule find_state_some(1)[OF i])
  have "key_base (ix_items ix) (ix_states ix ! i)" "wf_plan (ix_plan ix)"
    using inv il by (simp_all add: index_inv_def key_inv_def)
  from relayout_ok[OF this] obtain st where st:
    "relayout (ix_plan ix) (ix_items ix) (ix_states ix ! i) = (Inr (), st)" "key_inv (ix_items ix) st"
    "ks_key st = ks_key (ix_states ix ! i)" by blast
  from on_state_ok[OF inv il, of "relayout (ix_plan ix) (ix_items ix)", OF this] show ?thesis
    using i by (simp add: rebalance_def require_state_def)
qed

section \<open>Sort keys\<close>

lemma add_sort_key_duplicate:
  "sk_name k \<in> set (sort_key_names ix) \<Longrightarrow>
   add_sort_key k ix = (Inl (Invalid_argument (''BucketIndex: duplicate sort key '' @ quoted (sk_name k))), ix)"
  using find_state_none[of ix "sk_name k"] by (simp add: add_sort_key_def)

lemma new_key_state_key [simp]: "ks_key (new_key_state k) = k"
  by (simp add: new_key_state_def)

lemma add_sort_key_ok:
  assumes inv: "index_inv ix" and new: "sk_name k \<notin> set (sort_key_names ix)"
    and k: "wf_key k" "lawful_key k" "\<forall>x\<in>set (ix_items ix). valid_item k x"
  shows "\<exists>st. add_sort_key k ix = (Inr (), ix\<lparr>ix_states := ix_states ix @ [st]\<rparr>) \<and> ks_key st = k
    \<and> index_inv (ix\<lparr>ix_states := ix_states ix @ [st]\<rparr>)"
proof -
  let ?st = "if has_key k then (new_key_state k)\<lparr>ks_keys := map (key_of k) (ix_items ix)\<rparr> else new_key_state k"
  have "key_base (ix_items ix) ?st" using inv k by (simp add: key_base_def index_inv_def)
  moreover have "wf_plan (ix_plan ix)" using inv by (simp add: index_inv_def)
  ultimately obtain st where st: "relayout (ix_plan ix) (ix_items ix) ?st = (Inr (), st)"
    "key_inv (ix_items ix) st" "ks_key st = ks_key ?st" using relayout_ok by blast
  have key: "ks_key st = k" using st(3) by simp
  have "add_sort_key k ix = (Inr (), ix\<lparr>ix_states := ix_states ix @ [st]\<rparr>)"
    using st(1) find_state_none[of ix "sk_name k"] new by (simp add: add_sort_key_def Let_def)
  moreover have "index_inv (ix\<lparr>ix_states := ix_states ix @ [st]\<rparr>)"
    using inv st(2) key new by (auto simp: index_inv_def sort_key_names_def split: option.splits)
  ultimately show ?thesis using key by blast
qed

lemma remove_sort_key_unknown: "name \<notin> set (sort_key_names ix) \<Longrightarrow> remove_sort_key name ix = (Inr False, ix)"
  by (simp add: remove_sort_key_def find_state_none[symmetric])

lemma filter_distinct_mid: "distinct (map f (xs @ y # zs)) \<Longrightarrow> filter (\<lambda>x. f x \<noteq> f y) (xs @ y # zs) = xs @ zs"
proof -
  assume "distinct (map f (xs @ y # zs))"
  then have "f y \<notin> f ` set xs" "f y \<notin> f ` set zs" by simp_all
  then have "\<forall>x\<in>set xs. f x \<noteq> f y" "\<forall>x\<in>set zs. f x \<noteq> f y" by (metis imageI)+
  then show ?thesis by simp
qed

text \<open>Indices above the removed one move down by one.\<close>

definition drop_index :: "nat \<Rightarrow> nat option \<Rightarrow> nat option" where
  "drop_index i active = (if active = Some i then None
     else case active of None \<Rightarrow> None | Some a \<Rightarrow> if i < a then Some (a - 1) else Some a)"

lemma nth_drop_index:
  "i < length xs \<Longrightarrow> a < length xs \<Longrightarrow> drop_index i (Some a) = Some b \<Longrightarrow>
   b < length (take i xs @ drop (Suc i) xs) \<and> (take i xs @ drop (Suc i) xs) ! b = xs ! a"
  by (auto simp: drop_index_def nth_append split: if_splits)

lemma remove_sort_key_ok:
  assumes inv: "index_inv ix" and i: "find_state ix name = Some i"
  defines "ix' \<equiv> ix\<lparr>ix_states := take i (ix_states ix) @ drop (Suc i) (ix_states ix), ix_active := drop_index i (ix_active ix)\<rparr>"
  shows "remove_sort_key name ix = (Inr True, ix')" and "index_inv ix'"
    and "active_sort_key ix' = (if ix_active ix = Some i then None else active_sort_key ix)"
    and "map ks_key (ix_states ix') = filter (\<lambda>k. sk_name k \<noteq> name) (map ks_key (ix_states ix))"
    and "sort_key_names ix' = filter (\<lambda>s. s \<noteq> name) (sort_key_names ix)"
proof -
  let ?sts = "ix_states ix"
  have il: "i < length ?sts" by (rule find_state_some(1)[OF i])
  show "remove_sort_key name ix = (Inr True, ix')"
    using i by (simp add: remove_sort_key_def ix'_def drop_index_def)
  have split: "?sts = take i ?sts @ ?sts ! i # drop (Suc i) ?sts" using il by (rule id_take_nth_drop)
  have d: "distinct (sort_key_names ix)" using inv by (simp add: index_inv_def)
  have names: "sort_key_names ix = map (\<lambda>st. sk_name (ks_key st)) (take i ?sts) @ name
      # map (\<lambda>st. sk_name (ks_key st)) (drop (Suc i) ?sts)"
    unfolding sort_key_names_def by (subst split) (simp add: find_state_some(2)[OF i])
  show n': "sort_key_names ix' = filter (\<lambda>s. s \<noteq> name) (sort_key_names ix)"
    using filter_distinct_mid[of id "map (\<lambda>st. sk_name (ks_key st)) (take i ?sts)" name
      "map (\<lambda>st. sk_name (ks_key st)) (drop (Suc i) ?sts)"] d
    unfolding names by (simp add: ix'_def sort_key_names_def)
  have act: "a < length (ix_states ix') \<and> ix_states ix' ! a = ?sts ! a' "
    if "ix_active ix = Some a'" "ix_active ix' = Some a" for a a'
    using nth_drop_index[OF il, of a' a] that inv by (simp add: ix'_def index_inv_def)
  have "set (ix_states ix') \<subseteq> set ?sts" by (auto simp: ix'_def dest: in_set_takeD in_set_dropD)
  moreover have "ix_items ix' = ix_items ix" "ix_plan ix' = ix_plan ix" by (simp_all add: ix'_def)
  moreover have "distinct (sort_key_names ix')" unfolding n' using d by simp
  moreover have "case ix_active ix' of None \<Rightarrow> True | Some a \<Rightarrow> a < length (ix_states ix')"
    using act by (cases "ix_active ix") (auto simp: ix'_def drop_index_def split: option.splits)
  ultimately show "index_inv ix'" using inv by (auto simp: index_inv_def)
  show "active_sort_key ix' = (if ix_active ix = Some i then None else active_sort_key ix)"
  proof (cases "ix_active ix'")
    case None
    then have "ix_active ix = None \<or> ix_active ix = Some i"
      by (cases "ix_active ix") (auto simp: ix'_def drop_index_def split: if_splits)
    then show ?thesis using None by (auto simp: active_sort_key_def)
  next
    case (Some a)
    then obtain a' where a': "ix_active ix = Some a'" "a' \<noteq> i"
      by (cases "ix_active ix") (auto simp: ix'_def drop_index_def split: if_splits)
    then show ?thesis using act[OF a'(1) Some] Some by (simp add: active_sort_key_def)
  qed
  have keys: "map ks_key ?sts = map ks_key (take i ?sts) @ ks_key (?sts ! i) # map ks_key (drop (Suc i) ?sts)"
    by (subst split) simp
  show "map ks_key (ix_states ix') = filter (\<lambda>k. sk_name k \<noteq> name) (map ks_key ?sts)"
    using filter_distinct_mid[of sk_name "map ks_key (take i ?sts)" "ks_key (?sts ! i)" "map ks_key (drop (Suc i) ?sts)"]
      d find_state_some(2)[OF i] unfolding names keys by (simp add: ix'_def comp_def)
qed

section \<open>Adding\<close>

text \<open>An element every registered sort key can order.\<close>

definition accepts :: "'a index \<Rightarrow> 'a \<Rightarrow> bool" where
  "accepts ix x \<longleftrightarrow> (\<forall>st\<in>set (ix_states ix). valid_item (ks_key st) x)"

lemma same_contents_accepts: "same_contents ix ix' \<Longrightarrow> accepts ix' x = accepts ix x"
proof -
  have "accepts ix x \<longleftrightarrow> (\<forall>k\<in>set (map ks_key (ix_states ix)). valid_item k x)" for ix
    by (simp add: accepts_def)
  then show "same_contents ix ix' \<Longrightarrow> ?thesis" by (simp only: same_contents_def)
qed

lemma accepts_items [simp]: "accepts (ix\<lparr>ix_items := xs\<rparr>) x = accepts ix x"
  by (simp add: accepts_def)

lemma append_item_full:
  "removed_slot \<le> length (ix_items ix) \<Longrightarrow> append_item x ix = (Inl (Length_error ''BucketIndex: too many elements''), ix)"
  by (simp add: append_item_def)

lemma frame_items: "index_inv ix \<Longrightarrow> length xs < 2 ^ 32 \<Longrightarrow> frame_inv (ix\<lparr>ix_items := xs\<rparr>)"
  by (simp add: index_inv_frame frame_inv_def sort_key_names_def split: option.splits)

lemma append_item_ok:
  assumes inv: "index_inv ix" and room: "length (ix_items ix) < removed_slot" and x: "accepts ix x"
  shows "\<exists>ix'. append_item x ix = (Inr (), ix') \<and> index_inv ix' \<and> same_contents (ix\<lparr>ix_items := ix_items ix @ [x]\<rparr>) ix'"
proof -
  let ?ix = "ix\<lparr>ix_items := ix_items ix @ [x]\<rparr>"
  have small: "length (ix_items ix) + 1 < 2 ^ 32" using room by (simp add: removed_slot_def)
  have "frame_inv ?ix" using small by (intro frame_items[OF inv]) simp
  moreover have "\<exists>st'. append_state x st = (Inr (), st') \<and> key_inv (ix_items ?ix) st' \<and> ks_key st' = ks_key st"
    if "st \<in> set (ix_states ?ix)" for st
    using append_ok[OF _ _ small, of st x] that inv x by (simp add: index_inv_def accepts_def)
  ultimately have "\<exists>ix'. on_states (append_state x) ?ix = (Inr (), ix') \<and> index_inv ix' \<and> same_contents ?ix ix'"
    by (rule on_states_ok)
  then show ?thesis using room by (simp add: append_item_def)
qed

lemma append_items_ok:
  assumes "index_inv ix" and "length (ix_items ix) + length xs \<le> removed_slot" and "\<forall>x\<in>set xs. accepts ix x"
  shows "\<exists>ix'. for_do append_item xs ix = (Inr (), ix') \<and> index_inv ix'
    \<and> same_contents (ix\<lparr>ix_items := ix_items ix @ xs\<rparr>) ix'"
  using assms
proof (induction xs arbitrary: ix)
  case (Cons x xs)
  have "length (ix_items ix) < removed_slot" "accepts ix x" using Cons.prems by simp_all
  from append_item_ok[OF Cons.prems(1) this] obtain ix1 where ix1: "append_item x ix = (Inr (), ix1)" "index_inv ix1"
    and same: "same_contents (ix\<lparr>ix_items := ix_items ix @ [x]\<rparr>) ix1" by blast
  have items: "ix_items ix1 = ix_items ix @ [x]" using same by (simp add: same_contents_def)
  have "\<forall>x\<in>set xs. accepts ix1 x" using Cons.prems(3) same_contents_accepts[OF same] by simp
  moreover have "length (ix_items ix1) + length xs \<le> removed_slot" using Cons.prems(2) items by simp
  ultimately obtain ix2 where ix2: "for_do append_item xs ix1 = (Inr (), ix2)" "index_inv ix2"
    "same_contents (ix1\<lparr>ix_items := ix_items ix1 @ xs\<rparr>) ix2" using Cons.IH[OF ix1(2)] by blast
  have "same_contents (ix\<lparr>ix_items := ix_items ix @ x # xs\<rparr>) ix2"
    using same ix2(3) items by (simp add: same_contents_def)
  then show ?case using ix1 ix2 by simp
qed simp

lemma add_all_ok:
  assumes "index_inv ix" and "length (ix_items ix) + length xs \<le> removed_slot" and "\<forall>x\<in>set xs. accepts ix x"
  shows "\<exists>ix'. add_all xs ix = (Inr (), ix') \<and> index_inv ix' \<and> same_contents (ix\<lparr>ix_items := ix_items ix @ xs\<rparr>) ix'"
proof -
  from append_items_ok[OF assms] obtain ix1 where ix1: "for_do append_item xs ix = (Inr (), ix1)" "index_inv ix1"
    "same_contents (ix\<lparr>ix_items := ix_items ix @ xs\<rparr>) ix1" by blast
  have "\<exists>ix'. on_states (maybe_auto_rebalance (ix_plan ix1) (ix_items ix1)) ix1 = (Inr (), ix') \<and> index_inv ix'
      \<and> same_contents ix1 ix'"
  proof (rule on_states_ok)
    show "frame_inv ix1" using ix1(2) by (simp add: index_inv_frame)
    show "\<exists>st'. maybe_auto_rebalance (ix_plan ix1) (ix_items ix1) st = (Inr (), st') \<and> key_inv (ix_items ix1) st'
        \<and> ks_key st' = ks_key st" if "st \<in> set (ix_states ix1)" for st
      using that ix1(2) by (intro auto_rebalance_ok) (simp_all add: index_inv_def)
  qed
  then show ?thesis using ix1(1) same_contents_trans[OF ix1(3)] by (auto simp: add_all_def)
qed

section \<open>Removing\<close>

lemma remap_fold:
  fixes p :: "'a \<Rightarrow> bool" and items :: "'a list"
  assumes "m \<le> length items" and "length items < 2 ^ 32"
  defines "pos \<equiv> \<lambda>s. length (filter (\<lambda>x. \<not> p x) (take s items))"
  shows "fold (remap_step p items) [0..<m] (replicate (length items) (Some 0), 0)
    = (map (\<lambda>s. if p (items ! s) then None else Some (pos s)) [0..<m] @ replicate (length items - m) (Some 0), pos m)"
  using assms(1)
proof (induction m)
  case (Suc m)
  then have m: "m < length items" by simp
  let ?r = "map (\<lambda>s. if p (items ! s) then None else Some (pos s)) [0..<m]"
  have upd: "(?r @ replicate (length items - m) (Some 0))[m := v] = ?r @ v # replicate (length items - Suc m) (Some 0)" for v
  proof -
    have eq: "replicate (length items - m) (Some 0) = Some 0 # replicate (length items - Suc m) (Some (0 :: nat))"
      using m by (simp add: Suc_diff_Suc flip: replicate_Suc)
    show ?thesis unfolding eq by (simp add: list_update_append)
  qed
  have "pos m \<le> length items" unfolding pos_def using length_filter_le[of _ "take m items"] le_trans by fastforce
  then have "slot_cast (pos m) = pos m" using assms(2) by (simp add: slot_cast_def)
  moreover have "pos (Suc m) = (if p (items ! m) then pos m else Suc (pos m))"
    using m by (simp add: pos_def take_Suc_conv_app_nth)
  ultimately show ?case using Suc.IH m upd by (simp add: remap_step_def)
qed (simp add: pos_def)

lemma filter_slots: "filter P xs = map ((!) xs) (filter (\<lambda>s. P (xs ! s)) [0..<length xs])"
  using arg_cong[OF map_nth[of xs], of "filter P"] by (simp add: filter_map comp_def)

lemma remap_fold_wf:
  fixes p :: "'a \<Rightarrow> bool" and items :: "'a list"
  assumes small: "length items < 2 ^ 32"
  obtains remap where
    "fold (remap_step p items) [0..<length items] (replicate (length items) (Some 0), 0)
       = (remap, length (filter (\<lambda>x. \<not> p x) items))"
    and "remap_wf items remap (filter (\<lambda>x. \<not> p x) items)"
proof -
  let ?pos = "\<lambda>s. length (filter (\<lambda>x. \<not> p x) (take s items))"
  let ?remap = "map (\<lambda>s. if p (items ! s) then None else Some (?pos s)) [0..<length items]"
  have kept: "kept_slots ?remap m = filter (\<lambda>s. \<not> p (items ! s)) [0..<m]" if "m \<le> length items" for m
    using that by (intro filter_cong) auto
  have "length (kept_slots ?remap s) = ?pos s" if "s < length items" for s
  proof -
    have "?pos s = length (filter (\<lambda>i. \<not> p (take s items ! i)) [0..<s])"
      using filter_slots[of "\<lambda>x. \<not> p x" "take s items"] that by simp
    also have "filter (\<lambda>i. \<not> p (take s items ! i)) [0..<s] = filter (\<lambda>i. \<not> p (items ! i)) [0..<s]"
      by (intro filter_cong) auto
    finally show ?thesis using kept[of s] that by simp
  qed
  then have "remap_wf items ?remap (filter (\<lambda>x. \<not> p x) items)"
    using kept[of "length items"] filter_slots[of "\<lambda>x. \<not> p x" items] by (simp add: remap_wf_def)
  then show thesis using remap_fold[OF le_refl small, of p] by (intro that) simp_all
qed

lemma move_fold:
  assumes wf: "remap_wf items remap items'" and "m \<le> length items"
  shows "length (fold (move_item remap) [0..<m] items) = length items
    \<and> (\<forall>i<length (kept_slots remap m). fold (move_item remap) [0..<m] items ! i = items ! (kept_slots remap m ! i))
    \<and> (\<forall>i<length items. m \<le> i \<longrightarrow> fold (move_item remap) [0..<m] items ! i = items ! i)"
  using assms(2)
proof (induction m)
  case (Suc m)
  let ?ys = "fold (move_item remap) [0..<m] items" and ?ks = "kept_slots remap m"
  have m: "m < length items" and len: "length ?ys = length items"
    and kept: "\<And>i. i < length ?ks \<Longrightarrow> ?ys ! i = items ! (?ks ! i)"
    and rest: "\<And>i. i < length items \<Longrightarrow> m \<le> i \<Longrightarrow> ?ys ! i = items ! i"
    using Suc by simp_all
  show ?case
  proof (cases "remap ! m")
    case None
    then have "move_item remap m ?ys = ?ys" by (simp add: move_item_def)
    then show ?thesis using len kept rest None by simp
  next
    case (Some t)
    have t: "t = length ?ks" "t \<le> m" using remap_facts(3,4)[OF wf m Some] by simp_all
    have step: "move_item remap m ?ys = ?ys[t := items ! m]"
      using rest[OF m] Some list_update_id[of ?ys m] by (cases "t = m") (simp_all add: move_item_def)
    show ?thesis
      using len kept rest t m Some by (auto simp: step nth_list_update nth_append less_Suc_eq)
  qed
qed simp

lemma moved_items:
  assumes wf: "remap_wf items remap items'"
  shows "take (length items') (fold (move_item remap) [0..<length items] items) = items'"
proof (rule nth_equalityI)
  let ?ys = "fold (move_item remap) [0..<length items] items"
  note mf = move_fold[OF wf le_refl]
  have items': "items' = map ((!) items) (kept_slots remap (length items))" using wf by (simp add: remap_wf_def)
  have "length (kept_slots remap (length items)) \<le> length items"
    using length_filter_le[of "\<lambda>s. remap ! s \<noteq> None" "[0..<length items]"] by simp
  then show "length (take (length items') ?ys) = length items'" using mf by (simp add: items')
  show "take (length items') ?ys ! i = items' ! i" if "i < length (take (length items') ?ys)" for i
    using that mf by (simp add: items')
qed

text \<open>Bringing every cached grouping up to date before the slots are renumbered.\<close>

lemma regroup_current_ok:
  assumes "key_inv items st"
  defines "st' \<equiv> (if ks_has_order st \<and> ks_order_stale st then regroup (length items) st else st)"
  shows "key_inv items st'" and "ks_key st' = ks_key st" and "ks_has_order st' \<longrightarrow> settled (length items) st'"
proof -
  have "key_inv items st' \<and> ks_key st' = ks_key st \<and> (ks_has_order st' \<longrightarrow> settled (length items) st')"
  proof (cases "ks_has_order st \<and> ks_order_stale st")
    case True
    then obtain segs where "grouping items st segs" using assms(1) by (auto simp: key_inv_def)
    from regroup_ok[OF assms(1) this] show ?thesis using True by (simp add: st'_def)
  next
    case False
    then have "st' = st" unfolding st'_def by (rule if_not_P)
    then show ?thesis using False assms(1) by (auto simp: key_inv_def)
  qed
  then show "key_inv items st'" and "ks_key st' = ks_key st" and "ks_has_order st' \<longrightarrow> settled (length items) st'"
    by blast+
qed

lemma remove_if_none:
  assumes "index_inv ix" and "\<forall>x\<in>set (ix_items ix). \<not> p x"
  shows "remove_if p ix = (Inr 0, ix)"
proof -
  have "length (ix_items ix) < 2 ^ 32" using assms(1) by (simp add: index_inv_def)
  from remap_fold[OF le_refl this, of p] assms(2) show ?thesis by (simp add: remove_if_def)
qed

lemma remove_if_ok:
  assumes inv: "index_inv ix"
  shows "\<exists>ix'. remove_if p ix = (Inr (length (filter p (ix_items ix))), ix') \<and> index_inv ix'
    \<and> same_contents (ix\<lparr>ix_items := filter (\<lambda>x. \<not> p x) (ix_items ix)\<rparr>) ix'"
proof (cases "\<forall>x\<in>set (ix_items ix). \<not> p x")
  case True
  then show ?thesis using remove_if_none[OF inv True] inv by simp
next
  case False
  let ?n = "length (ix_items ix)" and ?items = "filter (\<lambda>x. \<not> p x) (ix_items ix)"
  have small: "?n < 2 ^ 32" using inv by (simp add: index_inv_def)
  obtain remap where remap: "fold (remap_step p (ix_items ix)) [0..<?n] (replicate ?n (Some 0), 0) = (remap, length ?items)"
    and wf: "remap_wf (ix_items ix) remap ?items" by (rule remap_fold_wf[OF small])
  let ?re = "\<lambda>st. if ks_has_order st \<and> ks_order_stale st then regroup ?n st else st"
  let ?ix = "ix\<lparr>ix_states := map ?re (ix_states ix), ix_items := ?items\<rparr>"
  have count: "?n - length ?items = length (filter p (ix_items ix))"
    using sum_length_filter_compl[of p "ix_items ix"] by linarith
  have pos: "length (filter p (ix_items ix)) \<noteq> 0" using False by (auto simp: filter_empty_conv)
  have keys: "map ks_key (map ?re (ix_states ix)) = map ks_key (ix_states ix)"
    using regroup_current_ok(2)[of "ix_items ix"] inv unfolding map_map index_inv_def by (intro map_cong) simp_all
  have re_contents: "same_contents (ix\<lparr>ix_items := ?items\<rparr>) ?ix" using keys by (simp add: same_contents_def)
  have "frame_inv ?ix"
  proof -
    have "length ?items < 2 ^ 32" using small le_less_trans[OF length_filter_le] by blast
    from frame_items[OF inv this] show ?thesis
      using same_contents_names[OF re_contents] by (simp add: frame_inv_def split: option.splits)
  qed
  moreover have "\<exists>st'. compact (ix_plan ix) ?items remap (length ?items) st = (Inr (), st') \<and> key_inv (ix_items ?ix) st'
      \<and> ks_key st' = ks_key st" if "st \<in> set (ix_states ?ix)" for st
  proof -
    from that obtain s where s: "s \<in> set (ix_states ix)" "st = ?re s" by auto
    then have "key_inv (ix_items ix) s" using inv by (simp add: index_inv_def)
    note re = regroup_current_ok[OF this, folded s(2)]
    have "wf_plan (ix_plan ix)" using inv by (simp add: index_inv_def)
    from compact_ok[OF re(1) wf this re(3)] show ?thesis by simp
  qed
  ultimately have "\<exists>ix'. on_states (compact (ix_plan ix) ?items remap (length ?items)) ?ix = (Inr (), ix')
      \<and> index_inv ix' \<and> same_contents ?ix ix'" by (rule on_states_ok)
  then obtain ix' where ix': "on_states (compact (ix_plan ix) ?items remap (length ?items)) ?ix = (Inr (), ix')"
    "index_inv ix'" "same_contents ?ix ix'" by blast
  have "remove_if p ix = (Inr (length (filter p (ix_items ix))), ix')"
    using ix'(1) pos unfolding remove_if_def Let_def remap case_prod_conv moved_items[OF wf] count by simp
  then show ?thesis using ix'(2,3) same_contents_trans[OF re_contents] by blast
qed

section \<open>Updating\<close>

definition updated_item :: "('a \<Rightarrow> bool) \<Rightarrow> ('a \<Rightarrow> 'a) option \<Rightarrow> 'a \<Rightarrow> 'a" where
  "updated_item p mutate x = (if p x then (case mutate of None \<Rightarrow> x | Some f \<Rightarrow> f x) else x)"

lemma update_step_ok:
  assumes inv: "index_inv ix" and slot: "slot < length (ix_items ix)"
    and x: "accepts ix (updated_item p mutate (ix_items ix ! slot))"
  defines "x \<equiv> ix_items ix ! slot"
  shows "\<exists>ix'. update_step p mutate slot (ix, updated) = (Inr (), ix', if p x then updated + 1 else updated)
    \<and> index_inv ix' \<and> same_contents (ix\<lparr>ix_items := (ix_items ix)[slot := updated_item p mutate x]\<rparr>) ix'"
proof (cases "p x")
  case False
  then show ?thesis using inv by (simp add: update_step_def updated_item_def x_def)
next
  case True
  let ?y = "updated_item p mutate x"
  let ?ix = "ix\<lparr>ix_items := (ix_items ix)[slot := ?y]\<rparr>"
  have "frame_inv ?ix" using inv by (intro frame_items[OF inv]) (simp add: index_inv_def)
  moreover have "\<exists>st'. rekey ((ix_items ix)[slot := ?y]) slot st = (Inr (), st') \<and> key_inv (ix_items ?ix) st' \<and> ks_key st' = ks_key st"
    if "st \<in> set (ix_states ?ix)" for st
    using rekey_ok[OF _ slot, of st ?y] that inv x by (simp add: index_inv_def accepts_def x_def)
  ultimately have "\<exists>ix'. on_states (rekey ((ix_items ix)[slot := ?y]) slot) ?ix = (Inr (), ix') \<and> index_inv ix'
      \<and> same_contents ?ix ix'" by (rule on_states_ok)
  then obtain ix' where ix': "on_states (rekey ((ix_items ix)[slot := ?y]) slot) ?ix = (Inr (), ix')" "index_inv ix'"
    "same_contents ?ix ix'" by blast
  have "update_step p mutate slot (ix, updated) =
      (case on_states (rekey ((ix_items ix)[slot := ?y]) slot) ?ix of
         (Inl e, ix) \<Rightarrow> (Inl e, (ix, updated)) | (Inr _, ix) \<Rightarrow> (Inr (), (ix, updated + 1)))"
    using True by (simp add: update_step_def Let_def x_def updated_item_def)
  then show ?thesis using True ix' by simp
qed

lemma update_loop:
  fixes p mutate
  assumes inv: "index_inv ix" and ok: "\<forall>x\<in>set (ix_items ix). accepts ix (updated_item p mutate x)"
    and m: "m \<le> length (ix_items ix)"
  shows "\<exists>ix'. for_do (update_step p mutate) [0..<m] (ix, 0) = (Inr (), ix', length (filter p (take m (ix_items ix))))
    \<and> index_inv ix'
    \<and> same_contents (ix\<lparr>ix_items := map (updated_item p mutate) (take m (ix_items ix)) @ drop m (ix_items ix)\<rparr>) ix'"
  using m
proof (induction m)
  case 0
  then show ?case using inv by simp
next
  case (Suc m)
  let ?u = "updated_item p mutate" and ?xs = "ix_items ix"
  have m: "m < length ?xs" using Suc.prems by simp
  from Suc.IH m obtain ix1 where f: "for_do (update_step p mutate) [0..<m] (ix, 0) = (Inr (), ix1, length (filter p (take m ?xs)))"
    and inv1: "index_inv ix1" and same: "same_contents (ix\<lparr>ix_items := map ?u (take m ?xs) @ drop m ?xs\<rparr>) ix1"
    by auto
  have items: "ix_items ix1 = map ?u (take m ?xs) @ drop m ?xs" using same by (simp add: same_contents_def)
  have at_m: "ix_items ix1 ! m = ?xs ! m" using m by (simp add: items nth_append)
  have upd: "(ix_items ix1)[m := y] = map ?u (take m ?xs) @ y # drop (Suc m) ?xs" for y
    using m Cons_nth_drop_Suc[OF m] by (simp add: items list_update_append flip: Cons_nth_drop_Suc)
  have next_items: "map ?u (take (Suc m) ?xs) @ drop (Suc m) ?xs = (ix_items ix1)[m := ?u (?xs ! m)]"
    using m by (simp add: upd take_Suc_conv_app_nth)
  have m1: "m < length (ix_items ix1)" using m items by simp
  have "accepts ix1 (?u (?xs ! m))" using ok m same_contents_accepts[OF same] by simp
  then obtain ix2 where f2: "update_step p mutate m (ix1, length (filter p (take m ?xs)))
      = (Inr (), ix2, if p (?xs ! m) then length (filter p (take m ?xs)) + 1 else length (filter p (take m ?xs)))"
    and inv2: "index_inv ix2" and same2: "same_contents (ix1\<lparr>ix_items := (ix_items ix1)[m := ?u (?xs ! m)]\<rparr>) ix2"
    using update_step_ok[OF inv1 m1, of p mutate "length (filter p (take m ?xs))", unfolded at_m] by blast
  have "same_contents (ix\<lparr>ix_items := (ix_items ix1)[m := ?u (?xs ! m)]\<rparr>) ix2"
    using same same2 by (simp add: same_contents_def)
  then have "same_contents (ix\<lparr>ix_items := map ?u (take (Suc m) ?xs) @ drop (Suc m) ?xs\<rparr>) ix2"
    by (simp only: next_items)
  moreover have "for_do (update_step p mutate) [0..<Suc m] (ix, 0) = (Inr (), ix2, length (filter p (take (Suc m) ?xs)))"
    using f f2 m by (simp add: for_do_append take_Suc_conv_app_nth)
  ultimately show ?case using inv2 by blast
qed

lemma update_if_ok:
  assumes inv: "index_inv ix" and ok: "\<forall>x\<in>set (ix_items ix). accepts ix (updated_item p mutate x)"
  shows "\<exists>ix'. update_if p mutate ix = (Inr (length (filter p (ix_items ix))), ix') \<and> index_inv ix'
    \<and> same_contents (ix\<lparr>ix_items := map (updated_item p mutate) (ix_items ix)\<rparr>) ix'"
proof -
  from update_loop[OF inv ok le_refl] obtain ix1 where
    f: "for_do (update_step p mutate) [0..<length (ix_items ix)] (ix, 0) = (Inr (), ix1, length (filter p (ix_items ix)))"
    and inv1: "index_inv ix1" and same: "same_contents (ix\<lparr>ix_items := map (updated_item p mutate) (ix_items ix)\<rparr>) ix1"
    by auto
  let ?g = "\<lambda>st. if ks_splitter_changed st then relayout (ix_plan ix1) (ix_items ix1) st else (Inr (), st)"
  have "\<exists>ix'. on_states ?g ix1 = (Inr (), ix') \<and> index_inv ix' \<and> same_contents ix1 ix'"
  proof (rule on_states_ok)
    show "frame_inv ix1" using inv1 by (simp add: index_inv_frame)
    show "\<exists>st'. ?g st = (Inr (), st') \<and> key_inv (ix_items ix1) st' \<and> ks_key st' = ks_key st"
      if "st \<in> set (ix_states ix1)" for st
    proof -
      have "key_inv (ix_items ix1) st" "wf_plan (ix_plan ix1)" using that inv1 by (simp_all add: index_inv_def)
      then show ?thesis using relayout_ok[of "ix_items ix1" st "ix_plan ix1"] by (auto simp: key_inv_def)
    qed
  qed
  then show ?thesis using f same_contents_trans[OF same] by (auto simp: update_if_def)
qed

section \<open>Clearing\<close>

lemma clear_ok:
  assumes inv: "index_inv ix"
  shows "\<exists>ix'. clear ix = (Inr (), ix') \<and> index_inv ix' \<and> same_contents (ix\<lparr>ix_items := []\<rparr>) ix'"
proof -
  let ?ix = "ix\<lparr>ix_items := []\<rparr>"
  let ?g = "\<lambda>st. relayout (ix_plan ?ix) (ix_items ?ix) (st\<lparr>ks_keys := [], ks_buckets := []\<rparr>)"
  have "\<exists>ix'. on_states ?g ?ix = (Inr (), ix') \<and> index_inv ix' \<and> same_contents ?ix ix'"
  proof (rule on_states_ok)
    show "frame_inv ?ix" by (rule frame_items[OF inv]) simp
    show "\<exists>st'. ?g st = (Inr (), st') \<and> key_inv (ix_items ?ix) st' \<and> ks_key st' = ks_key st"
      if "st \<in> set (ix_states ?ix)" for st
    proof -
      have "key_base [] (st\<lparr>ks_keys := [], ks_buckets := []\<rparr>)" "wf_plan (ix_plan ix)"
        using that inv by (auto simp: index_inv_def key_inv_def key_base_def)
      from relayout_ok[OF this] show ?thesis by auto
    qed
  qed
  then show ?thesis by (simp add: clear_def Let_def)
qed

end
