(* ===== verification/List_Interface.thy ===== *)
theory List_Interface
  imports Index_Updates
begin

text \<open>
  The interface \<open>BucketedList\<close> of \<open>bucketed_list.hpp\<close> as a specification without buckets: a
  collection is a list of elements with some sort keys and a selected order, and the
  displayed order is a stable sort. Requests are the pure virtual functions of the class, but
  for the questions about buckets, which are functions of \<open>Bucket_Index\<close>. \<open>spec_request\<close>
  answers them on the collection, \<open>run_request\<close> on a \<open>BucketIndex\<close>. The index refines the
  specification step by step, so on every reachable index each reply is the specified one.
\<close>

section \<open>Collections\<close>

record 'a collection =
  col_plan :: bucket_plan
  col_items :: "'a list"
  col_keys :: "'a sort_key list"
  col_active :: "'a sort_key option"
  col_direction :: direction

definition contents :: "'a index \<Rightarrow> 'a collection" where
  "contents ix = \<lparr>col_plan = ix_plan ix, col_items = ix_items ix, col_keys = map ks_key (ix_states ix),
     col_active = active_sort_key ix, col_direction = ix_direction ix\<rparr>"

definition new_collection :: "bucket_plan \<Rightarrow> 'a collection" where
  "new_collection plan = \<lparr>col_plan = plan, col_items = [], col_keys = [], col_active = None, col_direction = Ascending\<rparr>"

definition shown_slots :: "'a collection \<Rightarrow> nat list" where
  "shown_slots c = (case col_active c of None \<Rightarrow> [0..<length (col_items c)]
     | Some k \<Rightarrow> slot_view k (col_direction c) (col_items c))"

definition shown :: "'a collection \<Rightarrow> 'a list" where
  "shown c = (case col_active c of None \<Rightarrow> col_items c | Some k \<Rightarrow> view k (col_direction c) (col_items c))"

lemma contents_sel [simp]:
  "col_plan (contents ix) = ix_plan ix" "col_items (contents ix) = ix_items ix"
  "col_keys (contents ix) = map ks_key (ix_states ix)" "col_active (contents ix) = active_sort_key ix"
  "col_direction (contents ix) = ix_direction ix"
  by (simp_all add: contents_def)

lemma contents_new [simp]: "contents (new_index plan) = new_collection plan"
  by (simp add: contents_def new_index_def new_collection_def active_sort_key_def)

lemma shown_contents: "shown (contents ix) = index_view ix" "shown_slots (contents ix) = index_slots ix"
  by (simp_all add: shown_def shown_slots_def index_view_def index_slots_def active_sort_key_def split: option.splits)

lemma names_contents: "map sk_name (col_keys (contents ix)) = sort_key_names ix"
  by (simp add: sort_key_names_def)

lemma same_contents_contents:
  assumes same: "same_contents ix ix'" and frame: "frame_inv ix"
  shows "contents ix' = contents ix"
proof -
  have "ks_key (ix_states ix' ! a) = ks_key (ix_states ix ! a)" if "ix_active ix = Some a" for a
    using same_contents_key(1)[OF same] that frame by (simp add: frame_inv_def)
  then have "active_sort_key ix' = active_sort_key ix"
    using same by (cases "ix_active ix") (simp_all add: active_sort_key_def same_contents_def)
  then show ?thesis using same by (simp add: contents_def same_contents_def)
qed

lemma contents_items: "contents (ix\<lparr>ix_items := xs\<rparr>) = (contents ix)\<lparr>col_items := xs\<rparr>"
  by (simp add: contents_def active_sort_key_def)

lemma contents_plan: "contents (ix\<lparr>ix_plan := p\<rparr>) = (contents ix)\<lparr>col_plan := p\<rparr>"
  by (simp add: contents_def active_sort_key_def)

section \<open>Requests and replies\<close>

datatype 'a request =
    Add_sort_key "'a sort_key" | Remove_sort_key string | Sort_key_names
  | Sort_by string direction | Unsort | Active_sort_key | Direction_of
  | Size_of | Plan_of
  | At nat | Range nat nat | Page | Position_if "'a \<Rightarrow> bool" | For_each | Sort_all
  | Rebalance string | Rebalance_all | Set_plan bucket_plan
  | Add 'a | Add_all "'a list" | Remove_if "'a \<Rightarrow> bool" | Update_if "'a \<Rightarrow> bool" "('a \<Rightarrow> 'a) option" | Clear

datatype 'a reply =
    Done | Failed exn | Flag bool | Names "string list" | Element 'a | Elements "'a list"
  | Position "nat option" | Count nat
  | Key_is "'a sort_key option" | Direction_is direction | Plan_is bucket_plan

definition reply_of :: "('v \<Rightarrow> 'a reply) \<Rightarrow> ('a index, 'v) run \<Rightarrow> 'a reply \<times> 'a index" where
  "reply_of f = (\<lambda>(r, ix). (case r of Inl e \<Rightarrow> Failed e | Inr v \<Rightarrow> f v, ix))"

fun run_request :: "'a request \<Rightarrow> 'a index \<Rightarrow> 'a reply \<times> 'a index" where
  "run_request (Add_sort_key k) ix = reply_of (\<lambda>_. Done) (add_sort_key k ix)"
| "run_request (Remove_sort_key name) ix = reply_of Flag (remove_sort_key name ix)"
| "run_request Sort_key_names ix = (Names (sort_key_names ix), ix)"
| "run_request (Sort_by name dir) ix = reply_of (\<lambda>_. Done) (sort_by name dir ix)"
| "run_request Unsort ix = (Done, unsort ix)"
| "run_request Active_sort_key ix = (Key_is (active_sort_key ix), ix)"
| "run_request Direction_of ix = (Direction_is (ix_direction ix), ix)"
| "run_request Size_of ix = (Count (length (ix_items ix)), ix)"
| "run_request Plan_of ix = (Plan_is (ix_plan ix), ix)"
| "run_request (At p) ix = reply_of Element (at p ix)"
| "run_request (Range from till) ix = reply_of Elements (range_of from till ix)"
| "run_request Page ix = reply_of Elements (first_page ix)"
| "run_request (Position_if p) ix = reply_of Position (position_if p ix)"
| "run_request For_each ix = reply_of Elements (for_each ix)"
| "run_request Sort_all ix = reply_of (\<lambda>_. Done) (sort_all ix)"
| "run_request (Rebalance name) ix = reply_of (\<lambda>_. Done) (rebalance name ix)"
| "run_request Rebalance_all ix = reply_of (\<lambda>_. Done) (rebalance_all ix)"
| "run_request (Set_plan p) ix = reply_of (\<lambda>_. Done) (set_plan p ix)"
| "run_request (Add x) ix = reply_of (\<lambda>_. Done) (add x ix)"
| "run_request (Add_all xs) ix = reply_of (\<lambda>_. Done) (add_all xs ix)"
| "run_request (Remove_if p) ix = reply_of Count (remove_if p ix)"
| "run_request (Update_if p f) ix = reply_of Count (update_if p f ix)"
| "run_request Clear ix = reply_of (\<lambda>_. Done) (clear ix)"

definition key_named :: "'a collection \<Rightarrow> string \<Rightarrow> 'a sort_key option" where
  "key_named c name = List.find (\<lambda>k. sk_name k = name) (col_keys c)"

abbreviation unknown_key :: "string \<Rightarrow> 'a reply" where
  "unknown_key name \<equiv> Failed (Invalid_argument (''BucketIndex: unknown sort key '' @ quoted name))"

definition spec_add_all :: "'a list \<Rightarrow> 'a collection \<Rightarrow> 'a reply \<times> 'a collection" where
  "spec_add_all xs c =
     (let room = removed_slot - length (col_items c)
      in if length xs \<le> room then (Done, c\<lparr>col_items := col_items c @ xs\<rparr>)
         else (Failed (Length_error ''BucketIndex: too many elements''), c\<lparr>col_items := col_items c @ take room xs\<rparr>))"

fun spec_request :: "'a request \<Rightarrow> 'a collection \<Rightarrow> 'a reply \<times> 'a collection" where
  "spec_request (Add_sort_key k) c =
     (case key_named c (sk_name k) of
        Some _ \<Rightarrow> (Failed (Invalid_argument (''BucketIndex: duplicate sort key '' @ quoted (sk_name k))), c)
      | None \<Rightarrow> (Done, c\<lparr>col_keys := col_keys c @ [k]\<rparr>))"
| "spec_request (Remove_sort_key name) c =
     (case key_named c name of
        None \<Rightarrow> (Flag False, c)
      | Some k \<Rightarrow>
          (Flag True,
           c\<lparr>col_keys := filter (\<lambda>k. sk_name k \<noteq> name) (col_keys c),
             col_active := (case col_active c of None \<Rightarrow> None | Some a \<Rightarrow> if sk_name a = name then None else Some a)\<rparr>))"
| "spec_request Sort_key_names c = (Names (map sk_name (col_keys c)), c)"
| "spec_request (Sort_by name dir) c =
     (case key_named c name of
        None \<Rightarrow> (unknown_key name, c)
      | Some k \<Rightarrow> (Done, c\<lparr>col_active := Some k, col_direction := dir\<rparr>))"
| "spec_request Unsort c = (Done, c\<lparr>col_active := None\<rparr>)"
| "spec_request Active_sort_key c = (Key_is (col_active c), c)"
| "spec_request Direction_of c = (Direction_is (col_direction c), c)"
| "spec_request Size_of c = (Count (length (col_items c)), c)"
| "spec_request Plan_of c = (Plan_is (col_plan c), c)"
| "spec_request (At p) c =
     (if p < length (col_items c) then Element (shown c ! p)
      else Failed (Out_of_range ''BucketIndex::at: position out of range''), c)"
| "spec_request (Range from till) c = (Elements (take (till - from) (drop from (shown c))), c)"
| "spec_request Page c = (Elements (take (page_size (col_plan c)) (shown c)), c)"
| "spec_request (Position_if p) c =
     (Position (if \<exists>x\<in>set (col_items c). p x
                then Some (find_index (\<lambda>s. s = find_index p (col_items c)) (shown_slots c)) else None), c)"
| "spec_request For_each c = (Elements (shown c), c)"
| "spec_request Sort_all c = (Done, c)"
| "spec_request (Rebalance name) c = (case key_named c name of None \<Rightarrow> unknown_key name | Some _ \<Rightarrow> Done, c)"
| "spec_request Rebalance_all c = (Done, c)"
| "spec_request (Set_plan p) c = (Done, c\<lparr>col_plan := p\<rparr>)"
| "spec_request (Add x) c = spec_add_all [x] c"
| "spec_request (Add_all xs) c = spec_add_all xs c"
| "spec_request (Remove_if p) c =
     (Count (length (filter p (col_items c))), c\<lparr>col_items := filter (\<lambda>x. \<not> p x) (col_items c)\<rparr>)"
| "spec_request (Update_if p f) c =
     (Count (length (filter p (col_items c))), c\<lparr>col_items := map (updated_item p f) (col_items c)\<rparr>)"
| "spec_request Clear c = (Done, c\<lparr>col_items := []\<rparr>)"

text \<open>
  What the client owes: lawful sort keys whose group function is in range on the elements,
  and plans made by the factories. Unknown and duplicate names, positions out of range and
  full collections need no care: they are answered with an exception.
\<close>

fun admissible :: "'a request \<Rightarrow> 'a collection \<Rightarrow> bool" where
  "admissible (Add_sort_key k) c \<longleftrightarrow> wf_key k \<and> lawful_key k \<and> list_all (valid_item k) (col_items c)"
| "admissible (Set_plan p) c \<longleftrightarrow> wf_plan p"
| "admissible (Add x) c \<longleftrightarrow> list_all (\<lambda>k. valid_item k x) (col_keys c)"
| "admissible (Add_all xs) c \<longleftrightarrow> list_all (\<lambda>x. list_all (\<lambda>k. valid_item k x) (col_keys c)) xs"
| "admissible (Update_if p f) c \<longleftrightarrow>
     list_all (\<lambda>x. list_all (\<lambda>k. valid_item k (updated_item p f x)) (col_keys c)) (col_items c)"
| "admissible _ c \<longleftrightarrow> True"

lemma accepts_contents: "accepts ix x \<longleftrightarrow> list_all (\<lambda>k. valid_item k x) (col_keys (contents ix))"
  by (simp add: accepts_def list_all_iff)

lemma key_named_state:
  "key_named (contents ix) name = map_option (\<lambda>i. ks_key (ix_states ix ! i)) (find_state ix name)"
proof -
  have "List.find (\<lambda>k. sk_name k = name) (map ks_key sts)
      = (let i = find_index (\<lambda>st. sk_name (ks_key st) = name) sts in if i < length sts then Some (ks_key (sts ! i)) else None)"
    for sts :: "'a key_state list"
    by (induction sts) (auto simp: Let_def)
  then show ?thesis by (simp add: key_named_def find_state_def Let_def)
qed

section \<open>Refinement of one request\<close>

definition refines :: "'a reply \<times> 'a index \<Rightarrow> 'a reply \<times> 'a collection \<Rightarrow> bool" where
  "refines r s \<longleftrightarrow> fst r = fst s \<and> index_inv (snd r) \<and> contents (snd r) = snd s"

text \<open>An operation that succeeds, keeps the invariant and has the contents of \<open>mid\<close> afterwards.\<close>

lemma refines_ok:
  assumes "\<exists>ix'. res = (Inr v, ix') \<and> index_inv ix' \<and> same_contents mid ix'" and "frame_inv mid"
    and "f v = rep" and "contents mid = c"
  shows "refines (reply_of f res) (rep, c)"
  using assms same_contents_contents by (auto simp: refines_def reply_of_def)

lemma index_inv_frame1: "index_inv ix \<Longrightarrow> frame_inv ix"
  by (simp add: index_inv_frame)

lemma refines_read:
  assumes "index_inv ix" and "\<exists>ix'. res = (Inr v, ix') \<and> index_inv ix' \<and> same_contents ix ix'" and "f v = rep"
  shows "refines (reply_of f res) (rep, contents ix)"
  using assms by (intro refines_ok[where mid = ix]) (simp_all add: index_inv_frame)

lemma refines_failed: "index_inv ix \<Longrightarrow> refines (reply_of f (Inl e, ix)) (Failed e, contents ix)"
  by (simp add: refines_def reply_of_def)

lemma take_min_length: "take (min till (length xs) - from) (drop from xs) = take (till - from) (drop from xs)"
  by (cases "till \<le> length xs") (simp_all add: min_def)

lemma refines_range:
  assumes inv: "index_inv ix"
  shows "refines (reply_of Elements (range_of from till ix)) (Elements (take (till - from) (drop from (shown (contents ix)))), contents ix)"
proof -
  have "take (min till (length (ix_items ix)) - from) (drop from (index_view ix)) = take (till - from) (drop from (index_view ix))"
    using take_min_length[of till "index_view ix" "from"] index_slots_facts(4)[OF inv] by simp
  then show ?thesis using range_ok[OF inv, of "from" till] by (intro refines_read[OF inv]) (simp_all add: shown_contents)
qed

lemma refines_at:
  assumes inv: "index_inv ix"
  shows "refines (run_request (At p) ix) (spec_request (At p) (contents ix))"
proof (cases "p < length (ix_items ix)")
  case True
  then show ?thesis using at_ok[OF inv True] by (simp add: refines_read[OF inv] shown_contents)
next
  case False
  then have "at p ix = (Inl (Out_of_range ''BucketIndex::at: position out of range''), ix)" by (simp add: at_def)
  then show ?thesis using False refines_failed[OF inv] by simp
qed

lemma refines_position_if:
  assumes inv: "index_inv ix"
  shows "refines (run_request (Position_if p) ix) (spec_request (Position_if p) (contents ix))"
proof (cases "\<exists>x\<in>set (ix_items ix). p x")
  case True
  then show ?thesis
    using position_if_ok[OF inv True] by (simp add: refines_read[OF inv] shown_contents display_position_def)
next
  case False
  then show ?thesis using position_if_none[of ix p] inv by (auto simp: refines_def reply_of_def)
qed

section \<open>Requests that change the collection\<close>

lemma append_items_full:
  assumes inv: "index_inv ix" and full: "removed_slot - length (ix_items ix) < length xs"
    and le: "length (ix_items ix) \<le> removed_slot"
    and ok: "\<forall>x\<in>set xs. accepts ix x"
  defines "room \<equiv> removed_slot - length (ix_items ix)"
  shows "\<exists>ix'. for_do append_item xs ix = (Inl (Length_error ''BucketIndex: too many elements''), ix') \<and> index_inv ix'
    \<and> same_contents (ix\<lparr>ix_items := ix_items ix @ take room xs\<rparr>) ix'"
proof -
  have split: "xs = take room xs @ xs ! room # drop (Suc room) xs"
    using full by (intro id_take_nth_drop) (simp add: room_def)
  have len: "length (ix_items ix) + length (take room xs) = removed_slot" using le full by (simp add: room_def)
  have "\<forall>x\<in>set (take room xs). accepts ix x" using ok by (auto dest: in_set_takeD)
  from append_items_ok[OF inv _ this] len obtain ix1 where
    ix1: "for_do append_item (take room xs) ix = (Inr (), ix1)" "index_inv ix1"
      "same_contents (ix\<lparr>ix_items := ix_items ix @ take room xs\<rparr>) ix1" by auto
  have "length (ix_items ix1) = removed_slot" using ix1(3) len by (simp add: same_contents_def)
  then have "append_item (xs ! room) ix1 = (Inl (Length_error ''BucketIndex: too many elements''), ix1)"
    by (intro append_item_full) simp
  then have "for_do append_item (take room xs @ xs ! room # drop (Suc room) xs) ix
      = (Inl (Length_error ''BucketIndex: too many elements''), ix1)"
    using ix1(1) by (simp add: for_do_append)
  then show ?thesis using ix1(2,3) by (simp only: flip: split) blast
qed

lemma items_below_removed: "index_inv ix \<Longrightarrow> length (ix_items ix) \<le> removed_slot"
  by (simp add: index_inv_def removed_slot_def)

lemma refines_appended:
  assumes inv: "index_inv ix" and ok: "\<forall>x\<in>set xs. accepts ix x"
    and fits: "length xs \<le> removed_slot - length (ix_items ix) \<Longrightarrow>
      \<exists>ix'. res = (Inr (), ix') \<and> index_inv ix' \<and> same_contents (ix\<lparr>ix_items := ix_items ix @ xs\<rparr>) ix'"
    and full: "\<And>e ix'. for_do append_item xs ix = (Inl e, ix') \<Longrightarrow> res = (Inl e, ix')"
  shows "refines (reply_of (\<lambda>_. Done) res) (spec_add_all xs (contents ix))"
proof (cases "length xs \<le> removed_slot - length (ix_items ix)")
  case True
  then have "length (ix_items ix @ xs) < 2 ^ 32" using items_below_removed[OF inv] by (simp add: removed_slot_def)
  then have "frame_inv (ix\<lparr>ix_items := ix_items ix @ xs\<rparr>)" by (rule frame_items[OF inv])
  from refines_ok[OF fits[OF True] this] show ?thesis
    using True by (simp add: spec_add_all_def contents_items)
next
  case False
  let ?ys = "take (removed_slot - length (ix_items ix)) xs"
  have "removed_slot - length (ix_items ix) < length xs" using False by simp
  from append_items_full[OF inv this items_below_removed[OF inv] ok] full obtain ix' where
    ix': "res = (Inl (Length_error ''BucketIndex: too many elements''), ix')" "index_inv ix'"
      "same_contents (ix\<lparr>ix_items := ix_items ix @ ?ys\<rparr>) ix'" by blast
  have "length (ix_items ix @ ?ys) < 2 ^ 32" using items_below_removed[OF inv] by (simp add: removed_slot_def)
  then have "frame_inv (ix\<lparr>ix_items := ix_items ix @ ?ys\<rparr>)" by (rule frame_items[OF inv])
  from same_contents_contents[OF ix'(3) this] show ?thesis
    using False ix'(1,2) by (simp add: refines_def reply_of_def spec_add_all_def contents_items Let_def)
qed

lemma refines_add_all:
  assumes inv: "index_inv ix" and ok: "\<forall>x\<in>set xs. accepts ix x"
  shows "refines (run_request (Add_all xs) ix) (spec_request (Add_all xs) (contents ix))"
proof -
  have "length (ix_items ix) + length xs \<le> removed_slot" if "length xs \<le> removed_slot - length (ix_items ix)"
    using that items_below_removed[OF inv] by linarith
  then show ?thesis using add_all_ok[OF inv _ ok] by (simp add: refines_appended[OF inv ok] add_all_def)
qed

lemma refines_add:
  assumes inv: "index_inv ix" and ok: "accepts ix x"
  shows "refines (run_request (Add x) ix) (spec_request (Add x) (contents ix))"
proof -
  have "refines (reply_of (\<lambda>_. Done) (append_item x ix)) (spec_add_all [x] (contents ix))"
    using ok append_item_ok[OF inv _ ok]
    by (intro refines_appended[OF inv]) (auto split: prod.splits sum.splits)
  then show ?thesis by (simp add: add_def)
qed

section \<open>Requests about sort keys and the order\<close>

lemma named_none: "key_named (contents ix) name = None \<longleftrightarrow> name \<notin> set (sort_key_names ix)"
  by (simp add: key_named_state find_state_none)

lemma key_named_unknown:
  "find_state ix name = None \<Longrightarrow> key_named (contents ix) name = None"
  "find_state ix name = None \<Longrightarrow> name \<notin> set (sort_key_names ix)"
  by (simp add: key_named_state) (simp add: find_state_none)

lemma refines_add_sort_key:
  assumes inv: "index_inv ix" and k: "wf_key k" "lawful_key k" "\<forall>x\<in>set (ix_items ix). valid_item k x"
  shows "refines (run_request (Add_sort_key k) ix) (spec_request (Add_sort_key k) (contents ix))"
proof (cases "sk_name k \<in> set (sort_key_names ix)")
  case True
  then obtain k' where "key_named (contents ix) (sk_name k) = Some k'" using named_none by fastforce
  then show ?thesis using add_sort_key_duplicate[OF True] refines_failed[OF inv] by simp
next
  case False
  from add_sort_key_ok[OF inv False k] obtain st where st: "ks_key st = k"
    "add_sort_key k ix = (Inr (), ix\<lparr>ix_states := ix_states ix @ [st]\<rparr>)" "index_inv (ix\<lparr>ix_states := ix_states ix @ [st]\<rparr>)"
    by blast
  have "active_sort_key (ix\<lparr>ix_states := ix_states ix @ [st]\<rparr>) = active_sort_key ix"
    using inv by (cases "ix_active ix") (simp_all add: active_sort_key_def index_inv_def nth_append)
  then have "contents (ix\<lparr>ix_states := ix_states ix @ [st]\<rparr>) = (contents ix)\<lparr>col_keys := col_keys (contents ix) @ [k]\<rparr>"
    by (simp add: contents_def st(1))
  then show ?thesis using st False named_none[of ix "sk_name k"] by (simp add: refines_def reply_of_def)
qed

lemma refines_remove_sort_key:
  assumes inv: "index_inv ix"
  shows "refines (run_request (Remove_sort_key name) ix) (spec_request (Remove_sort_key name) (contents ix))"
proof (cases "find_state ix name")
  case None
  then show ?thesis
    using remove_sort_key_unknown[of name ix] key_named_unknown[OF None] inv by (simp add: refines_def reply_of_def)
next
  case (Some i)
  note rm = remove_sort_key_ok[OF inv Some]
  have "active_sort_key ix = None \<longleftrightarrow> ix_active ix = None" by (simp add: active_sort_key_def)
  moreover have "sk_name (ks_key (ix_states ix ! a)) = name \<longleftrightarrow> a = i" if "ix_active ix = Some a" for a
  proof
    have "a < length (ix_states ix)" "distinct (sort_key_names ix)" using inv that by (simp_all add: index_inv_def)
    from find_state_nth[OF this(2,1)] show "a = i" if "sk_name (ks_key (ix_states ix ! a)) = name"
      using Some that \<open>a < length (ix_states ix)\<close> by (simp add: sort_key_names_def)
  qed (use find_state_some(2)[OF Some] in simp)
  ultimately have active: "(if ix_active ix = Some i then None else active_sort_key ix)
      = (case active_sort_key ix of None \<Rightarrow> None | Some a \<Rightarrow> if sk_name a = name then None else Some a)"
    by (cases "ix_active ix") (auto simp: active_sort_key_def)
  let ?ix = "ix\<lparr>ix_states := take i (ix_states ix) @ drop (Suc i) (ix_states ix), ix_active := drop_index i (ix_active ix)\<rparr>"
  have "contents ?ix = (contents ix)\<lparr>col_keys := filter (\<lambda>k. sk_name k \<noteq> name) (map ks_key (ix_states ix)),
      col_active := (case active_sort_key ix of None \<Rightarrow> None | Some a \<Rightarrow> if sk_name a = name then None else Some a)\<rparr>"
    unfolding contents_def rm(3,4) active by simp
  moreover have "key_named (contents ix) name = Some (ks_key (ix_states ix ! i))" using Some by (simp add: key_named_state)
  ultimately show ?thesis using rm(1,2) by (simp add: refines_def reply_of_def)
qed

lemma refines_sort_by:
  assumes inv: "index_inv ix"
  shows "refines (run_request (Sort_by name dir) ix) (spec_request (Sort_by name dir) (contents ix))"
proof (cases "find_state ix name")
  case None
  then show ?thesis
    using sort_by_unknown[of name ix dir] key_named_unknown[OF None] refines_failed[OF inv] by simp
next
  case (Some i)
  let ?ix = "ix\<lparr>ix_active := Some i, ix_direction := dir\<rparr>"
  have "frame_inv ?ix" using inv find_state_some(1)[OF Some] by (simp add: frame_inv_def index_inv_def sort_key_names_def)
  moreover have "contents ?ix = (contents ix)\<lparr>col_active := Some (ks_key (ix_states ix ! i)), col_direction := dir\<rparr>"
    by (simp add: contents_def active_sort_key_def)
  ultimately show ?thesis
    using Some by (simp add: key_named_state refines_ok[OF sort_by_ok[OF inv Some]])
qed

lemma refines_rebalance:
  assumes inv: "index_inv ix"
  shows "refines (run_request (Rebalance name) ix) (spec_request (Rebalance name) (contents ix))"
proof (cases "find_state ix name")
  case None
  then have "rebalance name ix = (Inl (Invalid_argument (''BucketIndex: unknown sort key '' @ quoted name)), ix)"
    by (simp add: rebalance_def require_state_def)
  then show ?thesis using refines_failed[OF inv] key_named_unknown[OF None] by simp
next
  case (Some i)
  then show ?thesis using refines_read[OF inv rebalance_ok[OF inv Some]] by (simp add: key_named_state)
qed

lemma refines_rebalance_all:
  assumes inv: "index_inv ix"
  shows "refines (run_request Rebalance_all ix) (spec_request Rebalance_all (contents ix))"
proof -
  have "\<forall>st\<in>set (ix_states ix). key_base (ix_items ix) st" using index_inv_base[OF inv] by blast
  from refines_read[OF inv rebalance_all_ok[OF index_inv_frame1[OF inv] this]] show ?thesis by simp
qed

lemma refines_set_plan:
  assumes inv: "index_inv ix" and p: "wf_plan p"
  shows "refines (run_request (Set_plan p) ix) (spec_request (Set_plan p) (contents ix))"
proof -
  have "frame_inv (ix\<lparr>ix_plan := p\<rparr>)"
    using inv p by (simp add: index_inv_frame frame_inv_def sort_key_names_def split: option.splits)
  from refines_ok[OF set_plan_ok[OF inv p] this] show ?thesis by (simp add: contents_plan)
qed

lemma refines_items:
  assumes inv: "index_inv ix" and small: "length xs \<le> length (ix_items ix)"
    and ok: "\<exists>ix'. res = (Inr v, ix') \<and> index_inv ix' \<and> same_contents (ix\<lparr>ix_items := xs\<rparr>) ix'"
  shows "refines (reply_of f res) (f v, (contents ix)\<lparr>col_items := xs\<rparr>)"
proof -
  have "length xs < 2 ^ 32" using inv small by (simp add: index_inv_def)
  from refines_ok[OF ok frame_items[OF inv this]] show ?thesis by (simp add: contents_items)
qed

section \<open>Every request\<close>

lemma request_refines:
  assumes inv: "index_inv ix" and adm: "admissible req (contents ix)"
  shows "refines (run_request req ix) (spec_request req (contents ix))"
proof (cases req)
  case (Add_sort_key k)
  then show ?thesis using adm refines_add_sort_key[OF inv] by (simp add: list_all_iff)
next
  case (Remove_sort_key name)
  then show ?thesis using refines_remove_sort_key[OF inv] by blast
next
  case Sort_key_names
  then show ?thesis using inv by (simp add: refines_def sort_key_names_def)
next
  case (Sort_by name dir)
  then show ?thesis using refines_sort_by[OF inv] by blast
next
  case Unsort
  then show ?thesis using unsort_ok[OF inv] by (simp add: refines_def) (simp add: unsort_def contents_def active_sort_key_def)
next
  case Active_sort_key
  then show ?thesis using inv by (simp add: refines_def)
next
  case Direction_of
  then show ?thesis using inv by (simp add: refines_def)
next
  case Size_of
  then show ?thesis using inv by (simp add: refines_def)
next
  case Plan_of
  then show ?thesis using inv by (simp add: refines_def)
next
  case (At p)
  then show ?thesis using refines_at[OF inv] by blast
next
  case (Range i j)
  then show ?thesis using refines_range[OF inv] by simp
next
  case Page
  then show ?thesis using refines_range[OF inv, of 0 "page_size (ix_plan ix)"] by (simp add: first_page_def)
next
  case (Position_if p)
  then show ?thesis using refines_position_if[OF inv] by blast
next
  case For_each
  then show ?thesis using refines_read[OF inv for_each_ok[OF inv]] by (simp add: shown_contents)
next
  case Sort_all
  then show ?thesis using refines_read[OF inv sort_all_ok[OF inv]] by simp
next
  case (Rebalance name)
  then show ?thesis using refines_rebalance[OF inv] by blast
next
  case Rebalance_all
  then show ?thesis using refines_rebalance_all[OF inv] by blast
next
  case (Set_plan p)
  then show ?thesis using refines_set_plan[OF inv] adm by simp
next
  case (Add x)
  then show ?thesis using refines_add[OF inv] adm unfolding accepts_contents by simp
next
  case (Add_all xs)
  then show ?thesis using refines_add_all[OF inv, of xs] adm by (simp add: accepts_contents list_all_iff)
next
  case (Remove_if p)
  then show ?thesis using Remove_if refines_items[OF inv _ remove_if_ok[OF inv, of p], where f = Count] by simp
next
  case (Update_if p f)
  then have "\<forall>x\<in>set (ix_items ix). accepts ix (updated_item p f x)"
    using adm by (simp add: accepts_contents list_all_iff)
  then show ?thesis using refines_items[OF inv _ update_if_ok[OF inv], where f = Count] Update_if by simp
next
  case Clear
  then show ?thesis using refines_items[OF inv _ clear_ok[OF inv], where f = "\<lambda>_. Done"] by simp
qed

end
