(* ===== verification/Ordered_Lists.thy ===== *)
theory Ordered_Lists
  imports List_Interface
begin

text \<open>
  The interface \<open>BucketedList\<close> as a contract for its clients: the laws its operations
  promise, stated through the elements in insertion order and the elements as shown, and
  what follows for the members the base class itself provides (\<open>remove\<close>, \<open>update\<close>,
  \<open>position_of\<close>) and for reading in several ways. \<open>BucketIndex\<close> is an instance.
\<close>

locale readable_list =
  fixes invar :: "'s \<Rightarrow> bool" and elems :: "'s \<Rightarrow> 'a list" and display :: "'s \<Rightarrow> 'a list"
    and at_op :: "nat \<Rightarrow> 's \<Rightarrow> ('s, 'a) run" and range_op :: "nat \<Rightarrow> nat \<Rightarrow> 's \<Rightarrow> ('s, 'a list) run"
    and each_op :: "'s \<Rightarrow> ('s, 'a list) run" and position_op :: "('a \<Rightarrow> bool) \<Rightarrow> 's \<Rightarrow> ('s, nat option) run"
  assumes same_elements: "invar s \<Longrightarrow> mset (display s) = mset (elems s)"
    and at_law: "invar s \<Longrightarrow> p < length (elems s) \<Longrightarrow>
      \<exists>s'. at_op p s = (Inr (display s ! p), s') \<and> invar s' \<and> elems s' = elems s \<and> display s' = display s"
    and range_law: "invar s \<Longrightarrow>
      \<exists>s'. range_op i j s = (Inr (take (j - i) (drop i (display s))), s') \<and> invar s' \<and> elems s' = elems s \<and> display s' = display s"
    and each_law: "invar s \<Longrightarrow>
      \<exists>s'. each_op s = (Inr (display s), s') \<and> invar s' \<and> elems s' = elems s \<and> display s' = display s"
    and position_law: "invar s \<Longrightarrow>
      \<exists>s' q. position_op P s = (Inr q, s') \<and> invar s' \<and> elems s' = elems s \<and> display s' = display s
        \<and> (case q of None \<Rightarrow> \<not> (\<exists>x\<in>set (elems s). P x)
           | Some i \<Rightarrow> i < length (elems s) \<and> find_index P (elems s) < length (elems s)
               \<and> display s ! i = elems s ! find_index P (elems s))"
begin

lemma length_display: "invar s \<Longrightarrow> length (display s) = length (elems s)"
  using same_elements by (metis size_mset)

text \<open>A position that was found shows a match.\<close>

lemma position_then_at:
  assumes "invar s" and "position_op P s = (Inr (Some q), s1)"
  shows "\<exists>s2. at_op q s1 = (Inr (elems s ! find_index P (elems s)), s2) \<and> P (elems s ! find_index P (elems s))"
proof -
  from position_law[OF assms(1), of P] assms(2) have s1: "invar s1" "elems s1 = elems s" "display s1 = display s"
    and q: "q < length (elems s)" "find_index P (elems s) < length (elems s)"
      "display s ! q = elems s ! find_index P (elems s)" by auto
  from at_law[OF s1(1), of q] q s1 show ?thesis using find_index_nth[OF q(2)] by auto
qed

text \<open>Reading position by position shows the same as reading the range.\<close>

lemma range_matches_at:
  assumes "invar s" and "i < j" and "j \<le> length (elems s)"
  shows "\<exists>s1 s2. range_op i j s = (Inr (map (\<lambda>p. display s ! p) [i..<j]), s1) \<and> at_op i s1 = (Inr (display s ! i), s2)"
proof -
  have "take (j - i) (drop i (display s)) = map (\<lambda>p. display s ! p) [i..<j]"
    using assms length_display by (intro nth_equalityI) simp_all
  moreover from range_law[OF assms(1), of i j] obtain s1 where
    s1: "range_op i j s = (Inr (take (j - i) (drop i (display s))), s1)" "invar s1" "elems s1 = elems s" "display s1 = display s"
    by blast
  moreover from at_law[OF s1(2), of i] s1 assms obtain s2 where "at_op i s1 = (Inr (display s ! i), s2)" by auto
  ultimately show ?thesis by metis
qed

lemma whole_range:
  assumes "invar s" and "length (elems s) \<le> n"
  shows "\<exists>s1 s2. range_op 0 n s = (Inr (display s), s1) \<and> each_op s = (Inr (display s), s2)"
  using range_law[OF assms(1), of 0 n] each_law[OF assms(1)] assms(2) length_display[OF assms(1)] by auto

end

locale updatable_list = readable_list invar elems display at_op range_op each_op position_op
  for invar :: "'s \<Rightarrow> bool" and elems :: "'s \<Rightarrow> 'a list" and display :: "'s \<Rightarrow> 'a list"
    and at_op :: "nat \<Rightarrow> 's \<Rightarrow> ('s, 'a) run" and range_op :: "nat \<Rightarrow> nat \<Rightarrow> 's \<Rightarrow> ('s, 'a list) run"
    and each_op :: "'s \<Rightarrow> ('s, 'a list) run" and position_op :: "('a \<Rightarrow> bool) \<Rightarrow> 's \<Rightarrow> ('s, nat option) run" +
  fixes remove_op :: "('a \<Rightarrow> bool) \<Rightarrow> 's \<Rightarrow> ('s, nat) run"
    and update_op :: "('a \<Rightarrow> bool) \<Rightarrow> ('a \<Rightarrow> 'a) option \<Rightarrow> 's \<Rightarrow> ('s, nat) run"
  assumes remove_law: "invar s \<Longrightarrow>
      \<exists>s'. remove_op P s = (Inr (length (filter P (elems s))), s') \<and> invar s' \<and> elems s' = filter (\<lambda>x. \<not> P x) (elems s)"
    and refresh_law: "invar s \<Longrightarrow>
      \<exists>s'. update_op P None s = (Inr (length (filter P (elems s))), s') \<and> invar s' \<and> elems s' = elems s \<and> display s' = display s"
begin

lemma some_equal: "0 < length (filter (\<lambda>x. x = v) xs) \<longleftrightarrow> v \<in> set xs"
  by (auto simp: filter_empty_conv)

lemma remove_value:
  assumes "invar s"
  shows "\<exists>s'. map_prod (map_sum id (\<lambda>n. 0 < n)) id (remove_op (\<lambda>x. x = v) s) = (Inr (v \<in> set (elems s)), s')
    \<and> invar s' \<and> elems s' = filter (\<lambda>x. x \<noteq> v) (elems s)"
  using remove_law[OF assms, of "\<lambda>x. x = v"] by (auto simp: some_equal simp del: length_greater_0_conv)

lemma update_value:
  assumes "invar s"
  shows "\<exists>s'. map_prod (map_sum id (\<lambda>n. 0 < n)) id (update_op (\<lambda>x. x = v) None s) = (Inr (v \<in> set (elems s)), s')
    \<and> invar s' \<and> elems s' = elems s \<and> display s' = display s"
  using refresh_law[OF assms, of "\<lambda>x. x = v"] by (auto simp: some_equal simp del: length_greater_0_conv)

text \<open>After removing a value its position is gone.\<close>

lemma removed_has_no_position:
  assumes "invar s" and "remove_op (\<lambda>x. x = v) s = (Inr n, s1)"
  shows "\<exists>s2. position_op (\<lambda>x. x = v) s1 = (Inr None, s2)"
proof -
  from remove_law[OF assms(1), of "\<lambda>x. x = v"] assms(2) have s1: "invar s1" "elems s1 = filter (\<lambda>x. x \<noteq> v) (elems s)" by auto
  from position_law[OF s1(1), of "\<lambda>x. x = v"] obtain s2 q where
    q: "position_op (\<lambda>x. x = v) s1 = (Inr q, s2)"
      "case q of None \<Rightarrow> \<not> (\<exists>x\<in>set (elems s1). x = v)
       | Some i \<Rightarrow> i < length (elems s1) \<and> find_index (\<lambda>x. x = v) (elems s1) < length (elems s1)
           \<and> display s1 ! i = elems s1 ! find_index (\<lambda>x. x = v) (elems s1)" by blast
  have "\<not> find_index (\<lambda>x. x = v) (elems s1) < length (elems s1)" by (simp add: find_index_less_iff s1(2))
  then have "q = None" using q(2) by (cases q) simp_all
  then show ?thesis using q(1) by simp
qed

end

section \<open>BucketIndex provides the interface\<close>

lemma mset_index_view: "index_inv ix \<Longrightarrow> mset (index_view ix) = mset (ix_items ix)"
proof -
  assume inv: "index_inv ix"
  have "mset (index_view ix) = image_mset ((!) (ix_items ix)) (mset [0..<length (ix_items ix)])"
    by (simp only: index_view_slots mset_map mset_index_slots[OF inv])
  also have "\<dots> = mset (map ((!) (ix_items ix)) [0..<length (ix_items ix)])" by (simp only: mset_map)
  finally show ?thesis by (simp only: map_nth)
qed

lemma same_contents_reads:
  assumes "index_inv ix" and "same_contents ix ix'"
  shows "ix_items ix' = ix_items ix \<and> index_view ix' = index_view ix"
  using same_contents_view(1)[OF assms(2,1)] assms(2) by (simp add: same_contents_def)

lemma display_position_view:
  assumes inv: "index_inv ix" and slot: "slot < length (ix_items ix)"
  shows "display_position ix slot < length (ix_items ix)"
    and "index_view ix ! display_position ix slot = ix_items ix ! slot"
proof -
  have "slot \<in> set (index_slots ix)" using index_slots_facts(2)[OF inv] slot by simp
  then have f: "find_index (\<lambda>s. s = slot) (index_slots ix) < length (index_slots ix)" by (simp add: find_index_less_iff)
  then show "display_position ix slot < length (ix_items ix)"
    using index_slots_facts(1)[OF inv] by (simp add: display_position_def)
  show "index_view ix ! display_position ix slot = ix_items ix ! slot"
    using find_index_nth[OF f] f by (simp add: index_view_slots display_position_def)
qed

interpretation bucketed: readable_list index_inv ix_items index_view at range_of for_each position_if
proof
  fix ix :: "'a index" and p i j P
  assume inv: "index_inv ix"
  show "mset (index_view ix) = mset (ix_items ix)" by (rule mset_index_view[OF inv])
  show "\<exists>s'. at p ix = (Inr (index_view ix ! p), s') \<and> index_inv s' \<and> ix_items s' = ix_items ix \<and> index_view s' = index_view ix"
    if "p < length (ix_items ix)"
    using at_ok[OF inv that] same_contents_reads[OF inv] by blast
  have clamp: "take (min j (length (ix_items ix)) - i) (drop i (index_view ix)) = take (j - i) (drop i (index_view ix))"
    using take_min_length[of j "index_view ix" i] index_slots_facts(4)[OF inv] by simp
  show "\<exists>s'. range_of i j ix = (Inr (take (j - i) (drop i (index_view ix))), s') \<and> index_inv s'
      \<and> ix_items s' = ix_items ix \<and> index_view s' = index_view ix"
    using range_ok[OF inv, of i j] same_contents_reads[OF inv] unfolding clamp by blast
  show "\<exists>s'. for_each ix = (Inr (index_view ix), s') \<and> index_inv s' \<and> ix_items s' = ix_items ix \<and> index_view s' = index_view ix"
    using for_each_ok[OF inv] same_contents_reads[OF inv] by blast
  show "\<exists>s' q. position_if P ix = (Inr q, s') \<and> index_inv s' \<and> ix_items s' = ix_items ix \<and> index_view s' = index_view ix
      \<and> (case q of None \<Rightarrow> \<not> (\<exists>x\<in>set (ix_items ix). P x)
         | Some i \<Rightarrow> i < length (ix_items ix) \<and> find_index P (ix_items ix) < length (ix_items ix)
             \<and> index_view ix ! i = ix_items ix ! find_index P (ix_items ix))"
  proof (cases "\<exists>x\<in>set (ix_items ix). P x")
    case True
    then have slot: "find_index P (ix_items ix) < length (ix_items ix)" by (simp add: find_index_less_iff)
    let ?q = "display_position ix (find_index P (ix_items ix))"
    from position_if_ok[OF inv True] obtain ix' where "position_if P ix = (Inr (Some ?q), ix')" "index_inv ix'"
      and same: "same_contents ix ix'" by blast
    then show ?thesis
      using slot same_contents_reads[OF inv same] display_position_view[OF inv slot]
      by (intro exI[of _ ix'] exI[of _ "Some ?q"]) simp
  next
    case False
    then have "position_if P ix = (Inr None, ix)" by (intro position_if_none) blast
    then show ?thesis using False inv by (intro exI[of _ ix] exI[of _ None]) simp
  qed
qed

lemma updated_item_none: "updated_item p None = id"
  by (simp add: updated_item_def fun_eq_iff)

interpretation bucketed: updatable_list index_inv ix_items index_view at range_of for_each position_if remove_if update_if
proof
  fix ix :: "'a index" and P
  assume inv: "index_inv ix"
  show "\<exists>s'. remove_if P ix = (Inr (length (filter P (ix_items ix))), s') \<and> index_inv s'
      \<and> ix_items s' = filter (\<lambda>x. \<not> P x) (ix_items ix)"
    using remove_if_ok[OF inv, of P] by (auto simp: same_contents_def)
  have "\<forall>x\<in>set (ix_items ix). accepts ix (updated_item P None x)"
    using inv by (auto simp: updated_item_none accepts_def index_inv_def key_inv_def key_base_def)
  from update_if_ok[OF inv this] have "\<exists>ix'. update_if P None ix = (Inr (length (filter P (ix_items ix))), ix')
      \<and> index_inv ix' \<and> same_contents ix ix'"
    by (simp add: updated_item_none)
  then show "\<exists>s'. update_if P None ix = (Inr (length (filter P (ix_items ix))), s') \<and> index_inv s'
      \<and> ix_items s' = ix_items ix \<and> index_view s' = index_view ix"
    using same_contents_reads[OF inv] by blast
qed

end
