(* ===== verification/List_Runs.thy ===== *)
theory List_Runs
  imports Ordered_Lists
begin

text \<open>
  Sequences of requests. \<open>run_requests\<close> and \<open>spec_requests\<close> answer them one after the
  other; \<open>reachable\<close> is the set of indexes a client can bring about. The theorems lift the
  refinement of one request to whole runs: the replies of a \<open>BucketIndex\<close> are those of the
  plain collection, whatever was sorted lazily, and maintenance cannot be observed.
\<close>

section \<open>Runs\<close>

fun run_requests :: "'a request list \<Rightarrow> 'a index \<Rightarrow> 'a reply list \<times> 'a index" where
  "run_requests [] ix = ([], ix)"
| "run_requests (req # reqs) ix =
     (case run_request req ix of (r, ix) \<Rightarrow> (case run_requests reqs ix of (rs, ix) \<Rightarrow> (r # rs, ix)))"

fun spec_requests :: "'a request list \<Rightarrow> 'a collection \<Rightarrow> 'a reply list \<times> 'a collection" where
  "spec_requests [] c = ([], c)"
| "spec_requests (req # reqs) c =
     (case spec_request req c of (r, c) \<Rightarrow> (case spec_requests reqs c of (rs, c) \<Rightarrow> (r # rs, c)))"

fun admissible_run :: "'a request list \<Rightarrow> 'a collection \<Rightarrow> bool" where
  "admissible_run [] c \<longleftrightarrow> True"
| "admissible_run (req # reqs) c \<longleftrightarrow> admissible req c \<and> admissible_run reqs (snd (spec_request req c))"

inductive reachable :: "bucket_plan \<Rightarrow> 'a index \<Rightarrow> bool" for plan where
  created: "reachable plan (new_index plan)"
| requested: "reachable plan ix \<Longrightarrow> admissible req (contents ix) \<Longrightarrow> reachable plan (snd (run_request req ix))"

inductive_cases reachableE: "reachable plan ix"

lemma request_step:
  assumes "index_inv ix" and "admissible req (contents ix)"
  shows "index_inv (snd (run_request req ix))" and "contents (snd (run_request req ix)) = snd (spec_request req (contents ix))"
    and "fst (run_request req ix) = fst (spec_request req (contents ix))"
  using request_refines[OF assms] by (simp_all add: refines_def)

lemma reachable_inv: "reachable plan ix \<Longrightarrow> wf_plan plan \<Longrightarrow> index_inv ix"
  by (induction rule: reachable.induct) (simp_all add: new_index_inv request_step(1))

lemma run_requests_refine:
  assumes "index_inv ix" and "admissible_run reqs (contents ix)"
  shows "index_inv (snd (run_requests reqs ix))
    \<and> contents (snd (run_requests reqs ix)) = snd (spec_requests reqs (contents ix))
    \<and> fst (run_requests reqs ix) = fst (spec_requests reqs (contents ix))"
  using assms
proof (induction reqs arbitrary: ix)
  case (Cons req reqs)
  have "admissible req (contents ix)" using Cons.prems by simp
  note step = request_step[OF Cons.prems(1) this]
  have "admissible_run reqs (contents (snd (run_request req ix)))" using Cons.prems(2) step(2) by simp
  from Cons.IH[OF step(1) this] show ?case
    using step(2,3) by (simp add: case_prod_beta)
qed simp

lemma reachable_run:
  assumes "wf_plan plan"
  shows "reachable plan ix \<Longrightarrow> admissible_run reqs (contents ix) \<Longrightarrow> reachable plan (snd (run_requests reqs ix))"
proof (induction reqs arbitrary: ix)
  case (Cons req reqs)
  have "admissible req (contents ix)" using Cons.prems by simp
  then have "contents (snd (run_request req ix)) = snd (spec_request req (contents ix))"
    by (rule request_step(2)[OF reachable_inv[OF Cons.prems(1) assms]])
  then show ?case
    using Cons.IH[OF reachable.requested[OF Cons.prems(1)], of req] Cons.prems(2) by (simp add: case_prod_beta)
qed simp

section \<open>A worked example\<close>

text \<open>Four numbers, shown in descending order.\<close>

definition demo_setup :: "u64 request list" where
  "demo_setup = [Add_sort_key number_key, Add_all [5, 3, 9, 3], Sort_by ''n'' Descending]"

definition demo_index :: "u64 index" where
  "demo_index = snd (run_requests demo_setup (new_index (mk_plan Uniform)))"

lemma demo_contents_admissible:
  "admissible_run demo_setup (new_collection (mk_plan Uniform))"
  "spec_requests demo_setup (new_collection (mk_plan Uniform))
   = ([Done, Done, Done],
      \<lparr>col_plan = mk_plan Uniform, col_items = [5, 3, 9, 3], col_keys = [number_key],
       col_active = Some number_key, col_direction = Descending\<rparr>)"
  by (simp_all add: demo_setup_def new_collection_def key_named_def spec_add_all_def removed_slot_def)

lemma demo_inv [simp]: "index_inv demo_index"
  and demo_contents [simp]: "contents demo_index =
    \<lparr>col_plan = mk_plan Uniform, col_items = [5, 3, 9, 3], col_keys = [number_key],
     col_active = Some number_key, col_direction = Descending\<rparr>"
proof -
  have "index_inv (new_index (mk_plan Uniform) :: u64 index)" by (rule new_index_inv) (rule wf_mk_plan)
  from run_requests_refine[OF this, of demo_setup]
  show "index_inv demo_index" and "contents demo_index =
    \<lparr>col_plan = mk_plan Uniform, col_items = [5, 3, 9, 3], col_keys = [number_key],
     col_active = Some number_key, col_direction = Descending\<rparr>"
    by (simp_all add: demo_index_def demo_contents_admissible)
qed

lemma demo_reachable [simp]: "reachable (mk_plan Uniform) demo_index"
  unfolding demo_index_def
  using demo_contents_admissible(1) by (intro reachable_run[OF wf_mk_plan(3) reachable.created]) simp

lemma demo_parts [simp]:
  "ix_items demo_index = [5, 3, 9, 3]" "map ks_key (ix_states demo_index) = [number_key]"
  "sort_key_names demo_index = [''n'']" "ix_direction demo_index = Descending"
  "active_sort_key demo_index = Some number_key" "ix_plan demo_index = mk_plan Uniform"
proof -
  note parts = contents_sel[of demo_index, unfolded demo_contents]
  show keys: "map ks_key (ix_states demo_index) = [number_key]" using parts(3) by simp
  show "sort_key_names demo_index = [''n'']" using names_contents[of demo_index, unfolded demo_contents] by simp
qed (use contents_sel[of demo_index, unfolded demo_contents] in simp_all)

lemma demo_view: "view number_key Ascending [5, 3, 9, 3] = [3, 3, 5, 9]" "view number_key Descending [5, 3, 9, 3] = [9, 5, 3, 3]"
  by (simp_all add: view_def stable_sort.simps Let_def)

lemma demo_index_view [simp]: "index_view demo_index = [9, 5, 3, 3]"
  using shown_contents(1)[of demo_index] by (simp add: shown_def demo_view)

lemma demo_states [simp]: "length (ix_states demo_index) = 1" "ks_key (ix_states demo_index ! 0) = number_key"
  using demo_parts(2) by (auto simp del: demo_parts simp: map_eq_Cons_conv)

lemma demo_active [simp]: "ix_active demo_index = Some 0"
proof -
  obtain a where "ix_active demo_index = Some a"
    using demo_parts(5) by (auto simp: active_sort_key_def)
  moreover have "case ix_active demo_index of None \<Rightarrow> True | Some a \<Rightarrow> a < length (ix_states demo_index)"
    using demo_inv unfolding index_inv_def by (elim conjE)
  ultimately show ?thesis by simp
qed

end
