(* ===== verification/Index_Properties.thy ===== *)
theory Index_Properties
  imports List_Runs
begin

text \<open>
  What a client of \<open>BucketIndex\<close> can rely on: the refinement of the plain collection, the
  invariant of every reachable index, the order that is shown, the error behaviour, and
  that lazy sorting and maintenance cannot be observed.
\<close>

section \<open>Refinement\<close>

text \<open>
  C1: A \<open>BucketIndex\<close> is a stably sorted list. Started from an empty index with a plan made
  by the factories, every sequence of requests (sort keys, order, reads, rebalancing, plan
  changes, additions, removals, updates) is answered exactly as the collection without
  buckets answers it, exceptions included, and the contents afterwards are the same. The
  client owes lawful sort keys, groups in range and plans made by the factories.
\<close>

theorem requests_refine_collection:
  assumes "wf_plan plan" and "admissible_run reqs (new_collection plan)"
  shows "fst (run_requests reqs (new_index plan)) = fst (spec_requests reqs (new_collection plan))
    \<and> contents (snd (run_requests reqs (new_index plan))) = snd (spec_requests reqs (new_collection plan))"
  using run_requests_refine[OF new_index_inv[OF assms(1)], of reqs] assms(2) by simp

definition demo_run :: "u64 request list" where
  "demo_run = demo_setup @ [For_each, At 1, Remove_if (\<lambda>x. x = 3), Sort_all, Page, Sort_by ''x'' Ascending]"

theorem requests_refine_collection_witness:
  "fst (run_requests demo_run (new_index (mk_plan Uniform)))
   = [Done, Done, Done, Elements [9, 5, 3, 3], Element 5, Count 2, Done, Elements [9, 5],
      Failed (Invalid_argument (''BucketIndex: unknown sort key '' @ quoted ''x''))]"
proof -
  have v: "view number_key Descending [5, 9] = [9, 5]" by (simp add: view_def stable_sort.simps Let_def)
  have adm: "admissible_run demo_run (new_collection (mk_plan Uniform))"
    by (simp add: demo_run_def demo_setup_def new_collection_def key_named_def spec_add_all_def removed_slot_def)
  have "page_size (mk_plan Uniform) = 64" by (simp add: mk_plan_def default_page_size_def)
  then have "fst (spec_requests demo_run (new_collection (mk_plan Uniform)))
     = [Done, Done, Done, Elements [9, 5, 3, 3], Element 5, Count 2, Done, Elements [9, 5],
        Failed (Invalid_argument (''BucketIndex: unknown sort key '' @ quoted ''x''))]"
    by (simp add: demo_run_def demo_setup_def new_collection_def key_named_def spec_add_all_def removed_slot_def
        shown_def demo_view v)
  then show ?thesis using requests_refine_collection[OF wf_mk_plan(3) adm] by simp
qed

text \<open>
  C2: The invariant of the class holds in every reachable state: normalized keys and bucket
  ids are up to date, the counts are those of the buckets, the cached grouping lists every
  placed slot once inside its bucket with a sorted prefix, splitter slots are in range, and
  there are at most 65535 buckets.
\<close>

theorem reachable_indexes_valid:
  assumes "wf_plan plan" and "reachable plan ix" and "i < length (ix_states ix)"
  defines "st \<equiv> ix_states ix ! i"
  shows "key_inv (ix_items ix) st \<and> bucket_total st \<le> 65535
    \<and> ks_buckets st = map (home st) (ix_items ix)
    \<and> ks_counts st = map (\<lambda>b. length (filter (\<lambda>x. home st x = b) (ix_items ix))) [0..<bucket_total st]"
proof -
  have "st \<in> set (ix_states ix)" unfolding st_def using assms(3) by (rule nth_mem)
  then have "key_inv (ix_items ix) st" using reachable_inv[OF assms(2,1)] by (simp add: index_inv_def)
  then show ?thesis by (simp add: key_inv_def layouts_wf_def assigned_def)
qed

theorem reachable_indexes_valid_witness: "bucket_total (ix_states demo_index ! 0) \<le> 65535"
  using reachable_indexes_valid[OF wf_mk_plan(3) demo_reachable, of 0] by simp

section \<open>The order that is shown\<close>

lemma view_perm: "key_base items st \<Longrightarrow> mset (view (ks_key st) dir items) = mset items"
proof -
  assume base: "key_base items st"
  have "mset (view (ks_key st) dir items) = image_mset ((!) items) (mset [0..<length items])"
    by (simp only: view_slots mset_map mset_slot_view[OF base])
  also have "\<dots> = mset (map ((!) items) [0..<length items])" by (simp only: mset_map)
  finally show ?thesis by (simp only: map_nth)
qed

lemma active_base:
  assumes "index_inv ix" and "ix_active ix = Some a"
  shows "key_base (ix_items ix) (ix_states ix ! a)" and "lawful_key (ks_key (ix_states ix ! a))"
    and "index_view ix = view (ks_key (ix_states ix ! a)) (ix_direction ix) (ix_items ix)"
  using assms by (auto simp: index_inv_def key_inv_def key_base_def index_view_def)

lemma ascending_view:
  assumes "lawful_key k"
  shows "sorted_wrt (\<lambda>x y. order_cmp k x y \<le> 0) (view k Ascending items)"
    and "filter (\<lambda>y. order_cmp k x y = 0) (view k Ascending items) = filter (\<lambda>y. order_cmp k x y = 0) items"
proof -
  have law: "three_way (order_cmp k)" using assms by (simp add: lawful_key_def)
  note swo = three_way.less_swo[OF law]
  have le: "\<not> order_cmp k x y < 0 \<longleftrightarrow> order_cmp k y x \<le> 0" for x y by (rule three_way.cmp_not_less[OF law])
  have v: "view k Ascending items = stable_sort (\<lambda>x y. order_cmp k x y < 0) items" by (simp add: view_def)
  show "sorted_wrt (\<lambda>x y. order_cmp k x y \<le> 0) (view k Ascending items)"
    using strict_weak_order.sorted_stable_sort[OF swo, of items] by (simp add: v le)
  have eq: "order_cmp k x y = 0 \<longleftrightarrow> \<not> order_cmp k x y < 0 \<and> \<not> order_cmp k y x < 0" for y
    using le[of x y] le[of y x] by linarith
  show "filter (\<lambda>y. order_cmp k x y = 0) (view k Ascending items) = filter (\<lambda>y. order_cmp k x y = 0) items"
    using strict_weak_order.stable_sort_stable[OF swo, of x items] by (simp only: v eq)
qed

text \<open>
  C3: Visiting every element in ascending order passes over a stable sort: all elements
  once, in the exact order of the sort key (groups, normalized key, tie-breaker), elements
  that compare equal in insertion order.
\<close>

theorem ascending_is_stable_sort:
  assumes "index_inv ix" and "ix_active ix = Some a" and "ix_direction ix = Ascending"
  defines "k \<equiv> ks_key (ix_states ix ! a)"
  shows "\<exists>xs ix'. for_each ix = (Inr xs, ix') \<and> mset xs = mset (ix_items ix)
    \<and> sorted_wrt (\<lambda>x y. order_cmp k x y \<le> 0) xs
    \<and> (\<forall>x. filter (\<lambda>y. order_cmp k x y = 0) xs = filter (\<lambda>y. order_cmp k x y = 0) (ix_items ix))"
proof -
  let ?xs = "view k Ascending (ix_items ix)"
  note act = active_base[OF assms(1,2), folded k_def]
  obtain ix' where "for_each ix = (Inr ?xs, ix')" using for_each_ok[OF assms(1)] act(3) assms(3) by auto
  moreover have "mset ?xs = mset (ix_items ix)" using view_perm[OF act(1)] by (simp add: k_def)
  ultimately show ?thesis using ascending_view[OF act(2), where items = "ix_items ix"] by blast
qed

theorem ascending_is_stable_sort_witness:
  "\<exists>xs ix'. for_each (demo_index\<lparr>ix_direction := Ascending\<rparr>) = (Inr xs, ix') \<and> mset xs = mset [5, 3, 9, 3]"
proof -
  have "index_inv (demo_index\<lparr>ix_direction := Ascending\<rparr>)"
    using demo_inv by (simp add: index_inv_def sort_key_names_def del: demo_inv)
  from ascending_is_stable_sort[OF this, of 0] show ?thesis by auto
qed

lemma sorted_wrt_const: "(\<And>x. x \<in> set xs \<Longrightarrow> f x = c) \<Longrightarrow> sorted_wrt (\<lambda>x y. f x \<le> f y) xs" for c :: nat
  by (simp add: sorted_wrt_iff_nth_less)

text \<open>
  C4: Descending order keeps the groups of the sort key in place (folders stay before files)
  and reverses the order inside each of them: the elements of every group are shown in the
  reverse of the order they have in the stable ascending sort, and groups never mix. With a
  single group the whole order is reversed.
\<close>

theorem descending_reverses_groups:
  assumes "index_inv ix" and "ix_active ix = Some a" and "ix_direction ix = Descending"
  defines "k \<equiv> ks_key (ix_states ix ! a)"
  defines "asc \<equiv> stable_sort (\<lambda>x y. order_cmp k x y < 0) (ix_items ix)"
  shows "\<exists>xs ix'. for_each ix = (Inr xs, ix') \<and> mset xs = mset (ix_items ix)
    \<and> sorted_wrt (\<lambda>x y. group_number k x \<le> group_number k y) xs
    \<and> (\<forall>g < sk_groups k. filter (\<lambda>x. group_number k x = g) xs = rev (filter (\<lambda>x. group_number k x = g) asc))
    \<and> (sk_groups k = 1 \<longrightarrow> xs = rev asc)"
proof -
  let ?xs = "view k Descending (ix_items ix)" and ?part = "\<lambda>g. rev (filter (\<lambda>x. group_number k x = g) asc)"
  note act = active_base[OF assms(1,2), folded k_def]
  have wf: "wf_key k" and valid: "\<And>x. x \<in> set (ix_items ix) \<Longrightarrow> valid_item k x"
    using act(1) by (simp_all add: key_base_def k_def)
  obtain ix' where e: "for_each ix = (Inr ?xs, ix')" using for_each_ok[OF assms(1)] act(3) assms(3) by auto
  have m: "mset ?xs = mset (ix_items ix)" using view_perm[OF act(1)] by (simp add: k_def)
  have v: "?xs = concat (map ?part [0..<sk_groups k])" by (simp add: view_def asc_def)
  have srt: "sorted_wrt (\<lambda>x y. group_number k x \<le> group_number k y) (concat (map ?part [0..<n]))" for n
    by (induction n) (auto simp: sorted_wrt_append intro!: sorted_wrt_const)
  have parts: "filter (\<lambda>x. group_number k x = g) (concat (map ?part [0..<n])) = (if g < n then ?part g else [])" for g n
    by (induction n) (auto simp: less_Suc_eq filter_empty_conv filter_id_conv)
  have "?xs = rev asc" if "sk_groups k = 1"
  proof -
    have "filter (\<lambda>x. group_number k x = 0) asc = asc"
      using group_number_less[OF wf valid] that by (intro filter_True) (auto simp: asc_def)
    then show ?thesis using v that by simp
  qed
  then show ?thesis using e m srt[of "sk_groups k"] parts[of _ "sk_groups k"] v by auto
qed

theorem descending_reverses_groups_witness: "\<exists>xs ix'. for_each demo_index = (Inr xs, ix') \<and> xs = [9, 5, 3, 3]"
proof -
  have "rev (stable_sort (\<lambda>x y. order_cmp number_key x y < 0) [5, 3, 9, 3]) = [9, 5, 3, 3]"
    by (simp add: stable_sort.simps Let_def)
  then show ?thesis using descending_reverses_groups[OF demo_inv demo_active demo_parts(4)] by auto
qed

section \<open>Reading\<close>

text \<open>
  C5: All reads agree. Whatever is already sorted, \<open>at\<close>, \<open>range\<close> and \<open>first_page\<close> show the
  positions of the sequence \<open>for_each\<close> visits, a range is clamped to the size, a position
  past the end throws, and reading again after the lazy sorting shows the same.
\<close>

theorem reads_agree:
  assumes "index_inv ix" and "for_each ix = (Inr xs, ix1)"
  shows "length xs = length (ix_items ix)
    \<and> fst (at i ix) = (if i < length xs then Inr (xs ! i) else Inl (Out_of_range ''BucketIndex::at: position out of range''))
    \<and> fst (range_of i j ix) = Inr (take (j - i) (drop i xs))
    \<and> fst (first_page ix) = Inr (take (page_size (ix_plan ix)) xs)
    \<and> fst (for_each ix1) = Inr xs \<and> fst (range_of i j ix1) = Inr (take (j - i) (drop i xs))"
proof -
  from bucketed.each_law[OF assms(1)] assms(2) have xs: "xs = index_view ix" and ix1: "index_inv ix1" "index_view ix1 = index_view ix"
    by auto
  have len: "length (index_view ix) = length (ix_items ix)" by (rule index_slots_facts(4)[OF assms(1)])
  have range: "fst (range_of i j ix) = Inr (take (j - i) (drop i (index_view ix)))" if "index_inv ix" for ix i j
    using bucketed.range_law[OF that, of i j] by auto
  have "fst (at i ix) = (if i < length xs then Inr (xs ! i) else Inl (Out_of_range ''BucketIndex::at: position out of range''))"
  proof (cases "i < length xs")
    case True
    then show ?thesis using bucketed.at_law[OF assms(1), of i] len by (auto simp: xs)
  qed (simp add: at_def len xs)
  moreover have "fst (first_page ix) = Inr (take (page_size (ix_plan ix)) xs)"
    using range[OF assms(1), of 0 "page_size (ix_plan ix)"] by (simp add: first_page_def xs)
  moreover have "fst (for_each ix1) = Inr xs" using bucketed.each_law[OF ix1(1)] ix1(2) by (auto simp: xs)
  ultimately show ?thesis using range[OF assms(1)] range[OF ix1(1)] len ix1(2) by (simp add: xs)
qed

theorem reads_agree_witness: "\<exists>ix1. for_each demo_index = (Inr [9, 5, 3, 3], ix1) \<and> fst (range_of 1 3 ix1) = Inr [5, 3]"
proof -
  obtain ix1 where e: "for_each demo_index = (Inr [9, 5, 3, 3], ix1)"
    using bucketed.each_law[OF demo_inv] by auto
  then show ?thesis using reads_agree[OF demo_inv e, of 1 3] by simp
qed

text \<open>
  C7: \<open>position_if\<close> finds the display position of the first match in insertion order: reading
  at the reported position gives that element, and nothing is reported exactly if nothing
  matches. For a value (\<open>position_of\<close>) reading there gives the value back.
\<close>

theorem position_leads_to_match:
  assumes "index_inv ix" and "position_if p ix = (r, ix1)"
  shows "case r of
      Inl e \<Rightarrow> False
    | Inr None \<Rightarrow> \<not> (\<exists>x\<in>set (ix_items ix). p x)
    | Inr (Some q) \<Rightarrow> fst (at q ix1) = Inr (ix_items ix ! find_index p (ix_items ix)) \<and> p (ix_items ix ! find_index p (ix_items ix))"
proof -
  from bucketed.position_law[OF assms(1), of p] assms(2) obtain q where r: "r = Inr q"
    and none: "q = None \<Longrightarrow> \<not> (\<exists>x\<in>set (ix_items ix). p x)" by (auto split: option.splits)
  show ?thesis
  proof (cases q)
    case (Some i)
    then show ?thesis using bucketed.position_then_at[OF assms(1), of p i ix1] assms(2) r by auto
  qed (use none r in simp)
qed

theorem position_leads_to_match_witness:
  "\<exists>q ix1. position_if (\<lambda>x. x = 9) demo_index = (Inr (Some q), ix1) \<and> fst (at q ix1) = Inr 9"
proof -
  obtain r ix1 where p: "position_if (\<lambda>x. x = 9) demo_index = (r, ix1)" by (cases "position_if (\<lambda>x. x = 9) demo_index")
  then show ?thesis using position_leads_to_match[OF demo_inv p] by (auto split: sum.splits option.splits)
qed

section \<open>Changing the collection\<close>

text \<open>
  The conveniences for values: \<open>remove\<close> deletes every equal element and tells whether
  there was one, \<open>update\<close> only re-reads keys (elements and order stay), \<open>position_of\<close> finds
  nothing after \<open>remove\<close>.
\<close>

theorem value_conveniences:
  assumes "index_inv ix"
  shows "\<exists>ix1 ix2 ix3. remove v ix = (Inr (v \<in> set (ix_items ix)), ix1) \<and> index_inv ix1
      \<and> ix_items ix1 = filter (\<lambda>x. x \<noteq> v) (ix_items ix) \<and> position_of v ix1 = (Inr None, ix2)
      \<and> update v ix = (Inr (v \<in> set (ix_items ix)), ix3) \<and> index_inv ix3 \<and> index_view ix3 = index_view ix"
proof -
  from bucketed.remove_law[OF assms, of "\<lambda>x. x = v"] obtain n s where n: "remove_if (\<lambda>x. x = v) ix = (Inr n, s)" by blast
  from bucketed.removed_has_no_position[OF assms n] obtain ix2 where "position_of v s = (Inr None, ix2)"
    by (auto simp: position_of_def)
  moreover from bucketed.remove_value[OF assms, of v] n have "remove v ix = (Inr (v \<in> set (ix_items ix)), s)"
    "index_inv s" "ix_items s = filter (\<lambda>x. x \<noteq> v) (ix_items ix)"
    by (auto simp: remove_def)
  moreover from bucketed.update_value[OF assms, of v] obtain ix3 where "update v ix = (Inr (v \<in> set (ix_items ix)), ix3)"
    "index_inv ix3" "index_view ix3 = index_view ix" by (auto simp: update_def)
  ultimately show ?thesis by blast
qed

theorem value_conveniences_witness: "\<exists>ix1. remove 3 demo_index = (Inr True, ix1) \<and> ix_items ix1 = [5, 9]"
  using value_conveniences[OF demo_inv, of 3] by auto

text \<open>
  C8: Removing by a predicate removes exactly the matching elements and reports their number;
  updating rewrites exactly the matching ones. The remaining elements keep their insertion
  order, every sort key and the selected order are kept, and the result is valid again.
\<close>

theorem remove_and_update:
  assumes "index_inv ix" and "list_all (\<lambda>x. accepts ix (f x)) (filter p (ix_items ix))"
  shows "\<exists>ix1 ix2. remove_if p ix = (Inr (length (filter p (ix_items ix))), ix1) \<and> index_inv ix1
      \<and> contents ix1 = (contents ix)\<lparr>col_items := filter (\<lambda>x. \<not> p x) (ix_items ix)\<rparr>
      \<and> update_if p (Some f) ix = (Inr (length (filter p (ix_items ix))), ix2) \<and> index_inv ix2
      \<and> contents ix2 = (contents ix)\<lparr>col_items := map (\<lambda>x. if p x then f x else x) (ix_items ix)\<rparr>"
proof -
  have u: "updated_item p (Some f) = (\<lambda>x. if p x then f x else x)" by (simp add: updated_item_def fun_eq_iff)
  have "\<forall>x\<in>set (ix_items ix). accepts ix (updated_item p (Some f) x)"
    using assms by (auto simp: u list_all_iff accepts_def index_inv_def key_inv_def key_base_def)
  from refines_items[OF assms(1) _ update_if_ok[OF assms(1) this], of Count]
    refines_items[OF assms(1) _ remove_if_ok[OF assms(1), of p], of Count]
    update_if_ok[OF assms(1) this] remove_if_ok[OF assms(1), of p]
  show ?thesis by (auto simp: refines_def reply_of_def u)
qed

theorem remove_and_update_witness:
  "\<exists>ix1. update_if (\<lambda>x. x = 3) (Some (\<lambda>x. x + 4)) demo_index = (Inr 2, ix1) \<and> ix_items ix1 = [5, 7, 9, 7]"
proof -
  have "list_all (\<lambda>x. accepts demo_index (x + 4)) (filter (\<lambda>x. x = 3) (ix_items demo_index))"
    by (simp add: accepts_contents)
  from remove_and_update[OF demo_inv this] show ?thesis by (auto dest: arg_cong[where f = col_items])
qed

section \<open>Laziness and maintenance\<close>

lemma spec_requests_append:
  "spec_requests (rs @ rs') c = (fst (spec_requests rs c) @ fst (spec_requests rs' (snd (spec_requests rs c))),
     snd (spec_requests rs' (snd (spec_requests rs c))))"
  by (induction rs arbitrary: c) (simp_all add: case_prod_beta)

lemma admissible_run_append:
  "admissible_run (rs @ rs') c \<longleftrightarrow> admissible_run rs c \<and> admissible_run rs' (snd (spec_requests rs c))"
  by (induction rs arbitrary: c) (simp_all add: case_prod_beta)

lemma length_spec_requests [simp]: "length (fst (spec_requests rs c)) = length rs"
  by (induction rs arbitrary: c) (simp_all add: case_prod_beta)

text \<open>The requests that only read, sort or rebalance.\<close>

fun maintenance :: "'a request \<Rightarrow> bool" where
  "maintenance Sort_all = True"
| "maintenance (Rebalance _) = True"
| "maintenance Rebalance_all = True"
| "maintenance (At _) = True"
| "maintenance (Range _ _) = True"
| "maintenance Page = True"
| "maintenance (Position_if _) = True"
| "maintenance For_each = True"
| "maintenance Sort_key_names = True"
| "maintenance Active_sort_key = True"
| "maintenance Direction_of = True"
| "maintenance Size_of = True"
| "maintenance Plan_of = True"
| "maintenance _ = False"

lemma maintenance_keeps: "maintenance req \<Longrightarrow> snd (spec_request req c) = c \<and> admissible req c"
  by (cases req) simp_all

text \<open>
  C6: Maintenance cannot be observed: inserting a read, \<open>sort_all\<close>, \<open>rebalance\<close> or
  \<open>rebalance_all\<close> anywhere in a run changes no reply of the other requests, although it
  rebuilds layouts and reorders the cached grouping.
\<close>

theorem maintenance_is_invisible:
  assumes "index_inv ix" and "admissible_run (before @ later) (contents ix)" and "maintenance req"
  defines "replies \<equiv> fst (run_requests (before @ req # later) ix)"
  shows "take (length before) replies @ drop (length before + 1) replies = fst (run_requests (before @ later) ix)"
proof -
  let ?c = "contents ix" and ?c1 = "snd (spec_requests before (contents ix))"
  note keep = maintenance_keeps[OF assms(3), of ?c1]
  have adm: "admissible_run before ?c" "admissible_run later ?c1" using assms(2) by (simp_all add: admissible_run_append)
  then have adm': "admissible_run (before @ req # later) ?c" using keep by (simp add: admissible_run_append)
  have "replies = fst (spec_requests before ?c) @ fst (spec_request req ?c1) # fst (spec_requests later ?c1)"
    using run_requests_refine[OF assms(1) adm'] keep by (simp add: replies_def spec_requests_append case_prod_beta)
  moreover have "fst (run_requests (before @ later) ix) = fst (spec_requests before ?c) @ fst (spec_requests later ?c1)"
    using run_requests_refine[OF assms(1,2)] by (simp add: spec_requests_append)
  ultimately show ?thesis by simp
qed

theorem maintenance_is_invisible_witness:
  "drop 1 (fst (run_requests [Rebalance ''n'', For_each, Clear, For_each] demo_index))
   = fst (run_requests [For_each, Clear, For_each] demo_index)"
  using maintenance_is_invisible[OF demo_inv, of "[]" "[For_each, Clear, For_each]" "Rebalance ''n''"] by simp

section \<open>Errors\<close>

text \<open>
  What the client owes of a request that changes elements or the plan: groups in range for
  what is added or rewritten, a plan made by the factories. All other requests are free.
\<close>

definition changes_in_range :: "'a request \<Rightarrow> 'a index \<Rightarrow> bool" where
  "changes_in_range req ix =
     (case req of
        Add x \<Rightarrow> accepts ix x
      | Add_all xs \<Rightarrow> list_all (accepts ix) xs
      | Update_if p f \<Rightarrow> list_all (\<lambda>x. accepts ix (updated_item p f x)) (ix_items ix)
      | Set_plan plan \<Rightarrow> wf_plan plan
      | _ \<Rightarrow> True)"

lemma changes_in_range_admissible:
  "changes_in_range req ix \<Longrightarrow> (\<And>k. req \<noteq> Add_sort_key k) \<Longrightarrow> admissible req (contents ix)"
  by (cases req) (auto simp: changes_in_range_def accepts_contents[abs_def])

lemma add_sort_key_failed: "add_sort_key k ix = (Inl e, ix1) \<Longrightarrow> ix1 = ix"
  by (auto simp: add_sort_key_def Let_def split: if_splits prod.splits sum.splits)

lemma key_named_none: "key_named (contents ix) name = None \<longleftrightarrow> require_state ix name
    = Inl (Invalid_argument (''BucketIndex: unknown sort key '' @ quoted name))"
  by (auto simp: key_named_state require_state_def split: option.splits)

text \<open>
  C9: Which requests can be answered with an exception, and what it leaves behind. As long as
  the elements that are added or rewritten have their groups in range (nothing is asked of a
  sort key that is added), only six kinds of requests can fail: registering a sort key,
  \<open>sort_by\<close> and \<open>rebalance\<close> of an unknown name, \<open>at\<close> past the end, and additions to a full
  index. Each leaves the index exactly as it was; only a bulk insert that runs out of slots
  keeps the elements that still fitted, in a valid index. An addition with a group out of
  range is excluded: it throws and does change the index.
\<close>

theorem failures_change_nothing:
  assumes "index_inv ix" and "changes_in_range req ix" and "run_request req ix = (Failed e, ix1)"
  shows "index_inv ix1
    \<and> (case req of
         Add_sort_key k \<Rightarrow> ix1 = ix
       | Sort_by name dir \<Rightarrow> ix1 = ix \<and> name \<notin> set (sort_key_names ix)
           \<and> e = Invalid_argument (''BucketIndex: unknown sort key '' @ quoted name)
       | Rebalance name \<Rightarrow> ix1 = ix \<and> name \<notin> set (sort_key_names ix)
           \<and> e = Invalid_argument (''BucketIndex: unknown sort key '' @ quoted name)
       | At p \<Rightarrow> ix1 = ix \<and> length (ix_items ix) \<le> p
           \<and> e = Out_of_range ''BucketIndex::at: position out of range''
       | Add x \<Rightarrow> ix1 = ix \<and> removed_slot \<le> length (ix_items ix)
           \<and> e = Length_error ''BucketIndex: too many elements''
       | Add_all xs \<Rightarrow> removed_slot < length (ix_items ix) + length xs
           \<and> e = Length_error ''BucketIndex: too many elements''
           \<and> contents ix1 = (contents ix)\<lparr>col_items := ix_items ix @ take (removed_slot - length (ix_items ix)) xs\<rparr>
       | _ \<Rightarrow> False)"
proof (cases "\<exists>k. req = Add_sort_key k")
  case True
  then obtain k where "req = Add_sort_key k" by blast
  then show ?thesis
    using assms(1,3) add_sort_key_failed[of k ix] by (auto simp: reply_of_def split: prod.splits sum.splits)
next
  case False
  then have "admissible req (contents ix)" by (intro changes_in_range_admissible[OF assms(2)]) blast
  note step = request_step[OF assms(1) this, unfolded assms(3) fst_conv snd_conv]
  have spec: "fst (spec_request req (contents ix)) = Failed e" using step(3) by simp
  have "case req of
         Sort_by name dir \<Rightarrow> ix1 = ix \<and> name \<notin> set (sort_key_names ix)
           \<and> e = Invalid_argument (''BucketIndex: unknown sort key '' @ quoted name)
       | Rebalance name \<Rightarrow> ix1 = ix \<and> name \<notin> set (sort_key_names ix)
           \<and> e = Invalid_argument (''BucketIndex: unknown sort key '' @ quoted name)
       | At p \<Rightarrow> ix1 = ix \<and> length (ix_items ix) \<le> p
           \<and> e = Out_of_range ''BucketIndex::at: position out of range''
       | Add x \<Rightarrow> ix1 = ix \<and> removed_slot \<le> length (ix_items ix)
           \<and> e = Length_error ''BucketIndex: too many elements''
       | Add_all xs \<Rightarrow> removed_slot < length (ix_items ix) + length xs
           \<and> e = Length_error ''BucketIndex: too many elements''
           \<and> contents ix1 = (contents ix)\<lparr>col_items := ix_items ix @ take (removed_slot - length (ix_items ix)) xs\<rparr>
       | _ \<Rightarrow> False"
  proof (cases req)
    case (Sort_by name dir)
    then have "key_named (contents ix) name = None" using spec by (cases "key_named (contents ix) name") simp_all
    then have req: "require_state ix name = Inl (Invalid_argument (''BucketIndex: unknown sort key '' @ quoted name))"
      by (simp add: key_named_none)
    then have "name \<notin> set (sort_key_names ix)" by (auto simp: require_state_def find_state_none split: option.splits)
    then show ?thesis using Sort_by assms(3) req by (simp add: sort_by_def reply_of_def)
  next
    case (Rebalance name)
    then have "key_named (contents ix) name = None" using spec by (cases "key_named (contents ix) name") simp_all
    then have req: "require_state ix name = Inl (Invalid_argument (''BucketIndex: unknown sort key '' @ quoted name))"
      by (simp add: key_named_none)
    then have "name \<notin> set (sort_key_names ix)" by (auto simp: require_state_def find_state_none split: option.splits)
    then show ?thesis using Rebalance assms(3) req by (simp add: rebalance_def reply_of_def)
  next
    case (At p)
    then show ?thesis using spec assms(3) by (simp add: at_def reply_of_def split: if_splits)
  next
    case (Add x)
    then have "removed_slot \<le> length (ix_items ix)" using spec by (simp add: spec_add_all_def Let_def split: if_splits)
    then show ?thesis using Add assms(3) append_item_full[of ix x] by (simp add: add_def reply_of_def)
  next
    case (Add_all xs)
    then show ?thesis using spec step(2) by (auto simp: spec_add_all_def Let_def split: if_splits)
  next
    case (Remove_sort_key name)
    then show ?thesis using spec by (cases "key_named (contents ix) name") simp_all
  qed (use spec False in simp_all)
  then show ?thesis using step(1) False by (cases req) auto
qed

theorem failures_change_nothing_witness:
  "\<exists>e. run_request (Add_sort_key number_key) demo_index = (Failed e, demo_index)"
proof -
  have "changes_in_range (Add_sort_key number_key) demo_index" by (simp add: changes_in_range_def)
  moreover obtain e ix1 where r: "run_request (Add_sort_key number_key) demo_index = (Failed e, ix1)"
    using add_sort_key_duplicate[of number_key demo_index] by (auto simp: reply_of_def)
  ultimately have "ix1 = demo_index" using failures_change_nothing[OF demo_inv] by fastforce
  then show ?thesis using r by blast
qed

lemma unknown_state: "name \<notin> set (sort_key_names ix) \<Longrightarrow>
  require_state ix name = Inl (Invalid_argument (''BucketIndex: unknown sort key '' @ quoted name))"
  by (simp add: require_state_def find_state_none[symmetric])

text \<open>
  C10: Every operation that takes a sort key name rejects an unknown one with the same
  exception and changes nothing, except that \<open>remove_sort_key\<close> answers \<open>false\<close>; registering
  a name twice and an element too many are rejected too.
\<close>

theorem unknown_names_rejected:
  assumes "name \<notin> set (sort_key_names ix)" and "sk_name k \<in> set (sort_key_names ix)" and "removed_slot \<le> length (ix_items ix')"
  defines "unknown \<equiv> Invalid_argument (''BucketIndex: unknown sort key '' @ quoted name)"
  shows "sort_by name dir ix = (Inl unknown, ix) \<and> bucket_of x name ix = Inl unknown
    \<and> bucket_count name ix = Inl unknown \<and> bucket_sizes name ix = Inl unknown \<and> layout_of name g ix = Inl unknown
    \<and> stats name ix = Inl unknown \<and> estimate_bucket_sizes name plan ix = Inl unknown
    \<and> needs_rebalance name ix = Inl unknown \<and> rebalance name ix = (Inl unknown, ix)
    \<and> remove_sort_key name ix = (Inr False, ix)
    \<and> add_sort_key k ix = (Inl (Invalid_argument (''BucketIndex: duplicate sort key '' @ quoted (sk_name k))), ix)
    \<and> add x ix' = (Inl (Length_error ''BucketIndex: too many elements''), ix')"
proof -
  note req = unknown_state[OF assms(1), folded unknown_def]
  have "sort_by name dir ix = (Inl unknown, ix)" "bucket_of x name ix = Inl unknown" "layout_of name g ix = Inl unknown"
    "stats name ix = Inl unknown" "estimate_bucket_sizes name plan ix = Inl unknown" "rebalance name ix = (Inl unknown, ix)"
    unfolding sort_by_def bucket_of_def layout_of_def stats_def estimate_bucket_sizes_def rebalance_def req sum.case
    by (rule refl)+
  moreover have "bucket_count name ix = Inl unknown" "bucket_sizes name ix = Inl unknown" "needs_rebalance name ix = Inl unknown"
    by (simp_all add: bucket_count_def bucket_sizes_def needs_rebalance_def query_def req)
  moreover have "add x ix' = (Inl (Length_error ''BucketIndex: too many elements''), ix')"
    unfolding add_def by (rule append_item_full[OF assms(3)])
  ultimately show ?thesis
    using remove_sort_key_unknown[OF assms(1)] add_sort_key_duplicate[OF assms(2)] by blast
qed

theorem unknown_names_rejected_witness:
  "bucket_count ''x'' demo_index = Inl (Invalid_argument (''BucketIndex: unknown sort key '' @ quoted ''x''))"
proof -
  let ?full = "(new_index (mk_plan Uniform))\<lparr>ix_items := replicate removed_slot (0 :: u64)\<rparr>"
  have "''x'' \<notin> set (sort_key_names demo_index)" "sk_name number_key \<in> set (sort_key_names demo_index)"
    "removed_slot \<le> length (ix_items ?full)" by simp_all
  from unknown_names_rejected[OF this] show ?thesis by blast
qed

end
