(* ===== verification/Index_Statistics.thy ===== *)
theory Index_Statistics
  imports Index_Properties
begin

text \<open>
  What \<open>BucketIndex\<close> reports about its buckets, and what that says about the work it does:
  bucket sizes count the elements, bucket ids follow the order, estimates predict the layout
  a plan gives, \<open>sort_all\<close> leaves nothing to sort, and the first page sorts no more
  elements than \<open>stats\<close> announces.
\<close>

section \<open>Bucket sizes and bucket ids\<close>

lemma named_state:
  assumes inv: "index_inv ix" and i: "find_state ix name = Some i"
  defines "st \<equiv> ix_states ix ! i"
  shows "key_inv (ix_items ix) st" and "layouts_wf st" and "wf_key (ks_key st)" and "lawful_key (ks_key st)"
    and "\<And>f. query f name ix = Inr (f st)" and "require_state ix name = Inr i"
    and "\<And>x. valid_item (ks_key st) x \<Longrightarrow> bucket_of x name ix = Inr (home st x) \<and> home st x < bucket_total st"
proof -
  have "i < length (ix_states ix)" by (rule find_state_some(1)[OF i])
  then show ki: "key_inv (ix_items ix) st" using inv by (simp add: index_inv_def st_def)
  then show lw: "layouts_wf st" and wf: "wf_key (ks_key st)" and "lawful_key (ks_key st)"
    by (simp_all add: key_inv_def key_base_def)
  show rs: "require_state ix name = Inr i" by (simp add: require_state_def i)
  then show "query f name ix = Inr (f st)" for f by (simp add: query_def st_def)
  show "bucket_of x name ix = Inr (home st x) \<and> home st x < bucket_total st" if "valid_item (ks_key st) x" for x
    using bucket_for_home[OF lw wf that] home_bounds(3)[OF lw wf that] by (simp add: bucket_of_def rs st_def Let_def)
qed

text \<open>
  C17: The reported bucket sizes are the numbers of elements \<open>bucket_of\<close> sends to each bucket;
  there is one per bucket, at most 65535 of them, and they add up to the size. Every element
  the sort key can order has a bucket, in the collection or not.
\<close>

theorem bucket_sizes_count_elements:
  assumes "index_inv ix" and "find_state ix name = Some i" and "valid_item (ks_key (ix_states ix ! i)) x"
  shows "\<exists>sizes k b. bucket_sizes name ix = Inr sizes \<and> bucket_count name ix = Inr k \<and> length sizes = k \<and> k \<le> 65535
    \<and> sum_list sizes = length (ix_items ix)
    \<and> sizes = map (\<lambda>b. length (filter (\<lambda>y. bucket_of y name ix = Inr b) (ix_items ix))) [0..<k]
    \<and> bucket_of x name ix = Inr b \<and> b < k"
proof -
  let ?st = "ix_states ix ! i" and ?items = "ix_items ix"
  note st = named_state[OF assms(1,2)]
  have as: "ks_counts ?st = map (\<lambda>b. length (filter (\<lambda>y. home ?st y = b) ?items)) [0..<bucket_total ?st]"
    and total: "bucket_total ?st \<le> 65535" and valid: "\<And>y. y \<in> set ?items \<Longrightarrow> valid_item (ks_key ?st) y"
    using st(1) by (simp_all add: key_inv_def assigned_def layouts_wf_def key_base_def)
  have home: "bucket_of y name ix = Inr (home ?st y)" "home ?st y < bucket_total ?st" if "y \<in> set ?items" for y
    using st(7)[OF valid[OF that]] by simp_all
  have "filter (\<lambda>y. home ?st y = b) ?items = filter (\<lambda>y. bucket_of y name ix = Inr b) ?items" for b
    using home(1) by (intro filter_cong) auto
  then have counts: "ks_counts ?st = map (\<lambda>b. length (filter (\<lambda>y. bucket_of y name ix = Inr b) ?items)) [0..<bucket_total ?st]"
    by (simp add: as)
  have "sum_list (ks_counts ?st) = length (filter (\<lambda>y. home ?st y < bucket_total ?st) ?items)"
    unfolding as by (rule sum_counts_less)
  also have "\<dots> = length ?items" using home(2) by (intro arg_cong[where f = length] filter_True) blast
  finally have "sum_list (ks_counts ?st) = length ?items" .
  then show ?thesis
    using st(5)[of ks_counts] st(5)[of bucket_total] counts total st(7)[OF assms(3)]
    by (intro exI[of _ "ks_counts ?st"] exI[of _ "bucket_total ?st"] exI[of _ "home ?st x"])
      (simp add: bucket_sizes_def bucket_count_def)
qed

lemma demo_state: "find_state demo_index ''n'' = Some 0"
proof -
  have "distinct (sort_key_names demo_index)" by simp
  from find_state_nth[OF this, of 0] show ?thesis by simp
qed

theorem bucket_sizes_count_elements_witness: "\<exists>sizes. bucket_sizes ''n'' demo_index = Inr sizes \<and> sum_list sizes = 4"
  using bucket_sizes_count_elements[OF demo_inv demo_state, of 7] by auto

text \<open>
  C18: Pre-sorting is right: an element in a lower bucket comes strictly before one in a higher
  bucket in the exact order of the sort key, so elements that compare equal share a bucket
  and sorting inside buckets sorts everything.
\<close>

theorem bucket_ids_follow_order:
  assumes "index_inv ix" and "find_state ix name = Some i"
  defines "k \<equiv> ks_key (ix_states ix ! i)"
  assumes "valid_item k x" and "valid_item k y" and "bucket_of x name ix = Inr b" and "bucket_of y name ix = Inr c"
  shows "(b < c \<longrightarrow> order_cmp k x y < 0) \<and> (order_cmp k x y = 0 \<longrightarrow> b = c) \<and> (order_cmp k x y < 0 \<longrightarrow> b \<le> c)"
proof -
  note st = named_state[OF assms(1,2), folded k_def]
  have b: "b = home (ix_states ix ! i) x" and c: "c = home (ix_states ix ! i) y"
    using st(7) assms(4-7) by simp_all
  have less: "order_cmp k u v < 0"
    if "valid_item k u" "valid_item k v" "home (ix_states ix ! i) u < home (ix_states ix ! i) v" for u v
    using home_less[of "ix_states ix ! i" u v] st(2-4) that by (simp add: k_def)
  have law: "three_way (order_cmp k)" using st(4) by (simp add: lawful_key_def)
  show ?thesis
    using less[OF assms(4,5)] less[OF assms(5,4)] three_way.cmp_flip[OF law, of y x] b c by fastforce
qed

theorem bucket_ids_follow_order_witness:
  "\<exists>b. bucket_of 4 ''n'' demo_index = Inr b"
proof -
  obtain b where b: "bucket_of 4 ''n'' demo_index = Inr b"
    using bucket_sizes_count_elements[OF demo_inv demo_state, of 4] by auto
  then show ?thesis using bucket_ids_follow_order[OF demo_inv demo_state _ _ b b] by simp
qed

section \<open>Estimates\<close>

lemma assign_expected: "ks_expected (snd (for_do (assign_bucket items) is st)) = ks_expected st"
proof (induction "is" arbitrary: st)
  case (Cons i "is")
  have "ks_expected (snd (assign_bucket items i st)) = ks_expected st"
    by (simp add: assign_bucket_def split: sum.splits)
  then show ?case using Cons[of "snd (assign_bucket items i st)"]
    by (cases "assign_bucket items i st") (auto split: sum.splits)
qed simp

lemma relayout_expected:
  assumes "relayout plan items st = (Inr (), st')" and "estimate_layouts st items plan = Inr ls"
  shows "ks_expected st' = concat (map expected_sizes ls)"
proof -
  let ?s = "install_layouts ls items st"
  obtain s where s: "for_do (assign_bucket items) [0..<length items] ?s = (Inr (), s)" "st' = reset_order s"
    using assms by (auto simp: relayout_def split: prod.splits sum.splits)
  have "ks_expected s = ks_expected ?s" using assign_expected[of items "[0..<length items]" ?s] s(1) by simp
  then show ?thesis by (simp add: s(2) reset_order_def install_layouts_eq Let_def)
qed

lemma each_do_nth:
  "each_do f ss = (Inr (), ss') \<Longrightarrow> i < length ss \<Longrightarrow> f (ss ! i) = (Inr (), ss' ! i)"
proof (induction ss arbitrary: ss' i)
  case (Cons s ss)
  from Cons.prems(1) obtain s' ts where "f s = (Inr (), s')" "each_do f ss = (Inr (), ts)" "ss' = s' # ts"
    by (auto split: prod.splits sum.splits)
  then show ?case using Cons.IH[of ts] Cons.prems(2) by (cases i) simp_all
qed simp

text \<open>
  C19: \<open>estimate_bucket_sizes\<close> predicts: the sizes it reports for a plan, without changing
  anything, are the expected bucket sizes \<open>stats\<close> reports after \<open>set_plan\<close> with that plan.
\<close>

theorem estimate_predicts_set_plan:
  assumes "index_inv ix" and "wf_plan plan" and "find_state ix name = Some i"
  shows "\<exists>sizes ix1 s. estimate_bucket_sizes name plan ix = Inr sizes \<and> set_plan plan ix = (Inr (), ix1)
    \<and> stats name ix1 = Inr s \<and> bs_expected_sizes s = sizes"
proof -
  let ?st = "ix_states ix ! i" and ?items = "ix_items ix"
  have il: "i < length (ix_states ix)" by (rule find_state_some(1)[OF assms(3)])
  have "key_base ?items ?st" using named_state(1)[OF assms(1,3)] by (simp add: key_inv_def)
  from estimate_layouts_ok[OF this assms(2)] obtain ls where ls: "estimate_layouts ?st ?items plan = Inr ls" by blast
  from set_plan_ok[OF assms(1,2)] obtain ix1 where ix1: "set_plan plan ix = (Inr (), ix1)" "index_inv ix1"
    "same_contents (ix\<lparr>ix_plan := plan\<rparr>) ix1" by blast
  from ix1(1) have "each_do (relayout plan ?items) (ix_states ix) = (Inr (), ix_states ix1)"
    by (auto simp: set_plan_def rebalance_all_def on_states_def split: prod.splits)
  from relayout_expected[OF each_do_nth[OF this il] ls]
  have "ks_expected (ix_states ix1 ! i) = concat (map expected_sizes ls)" .
  moreover have "require_state ix1 name = Inr i"
  proof -
    have "sort_key_names ix1 = sort_key_names ix" using same_contents_names[OF ix1(3)] by (simp add: sort_key_names_def)
    moreover have "length (ix_states ix1) = length (ix_states ix)" using same_contents_key(2)[OF ix1(3), of i] il by simp
    moreover have "sort_key_names ix ! i = name" using find_state_some(2)[OF assms(3)] il by (simp add: sort_key_names_def)
    ultimately have "find_state ix1 name = Some i"
      using find_state_nth[of ix1 i] ix1(2) il by (simp add: index_inv_def)
    then show ?thesis by (simp add: require_state_def)
  qed
  moreover have "estimate_bucket_sizes name plan ix = Inr (concat (map expected_sizes ls))"
    using ls by (simp add: estimate_bucket_sizes_def named_state(6)[OF assms(1,3)])
  ultimately show ?thesis using ix1(1) by (simp add: stats_def Let_def case_prod_beta)
qed

theorem estimate_predicts_set_plan_witness:
  "\<exists>sizes ix1. estimate_bucket_sizes ''n'' (mk_plan First_page) demo_index = Inr sizes
    \<and> set_plan (mk_plan First_page) demo_index = (Inr (), ix1)"
  using estimate_predicts_set_plan[OF demo_inv wf_mk_plan(2) demo_state] by blast

section \<open>Sorting everything\<close>

lemma prepare_current:
  assumes "prepare plan items st = (Inr (), st')"
  shows "\<not> ks_order_stale st'"
proof -
  obtain s where "st' = (if \<not> ks_has_order s then build_order (length items) s
      else if ks_order_stale s then regroup (length items) s else s)"
    using assms by (auto simp: prepare_def split: prod.splits sum.splits)
  then show ?thesis by (simp add: build_order_def regroup_def Let_def case_prod_beta)
qed

lemma stats_fold_sorted:
  "fst (snd (fold (stats_step plan st) bs acc)) = fst (snd acc)
    + length (filter (\<lambda>b. ks_has_order st \<and> \<not> ks_order_stale st \<and> ks_sorted_len st ! b = ks_counts st ! b) bs)"
  by (induction bs arbitrary: acc) (simp_all add: stats_step_def case_prod_beta)

lemma ready_counts:
  assumes r: "ready items st" and b: "b < bucket_total st"
  shows "ks_start st ! Suc b - ks_start st ! b = ks_counts st ! b"
    and "ks_start st ! b = sum_list (take b (ks_counts st))"
proof -
  have as: "assigned items st" using r by (simp add: ready_def key_inv_def)
  have split: "length (filter (\<lambda>x. home st x < Suc b) xs)
      = length (filter (\<lambda>x. home st x < b) xs) + length (filter (\<lambda>x. home st x = b) xs)" for xs
    by (induction xs) (auto simp: less_Suc_eq)
  show "ks_start st ! Suc b - ks_start st ! b = ks_counts st ! b"
    using start_count[OF r, of b] start_count[OF r, of "Suc b"] split[of items] as b by (simp add: assigned_def)
  have "take b (ks_counts st) = map (\<lambda>b. length (filter (\<lambda>x. home st x = b) items)) [0..<b]"
    using as b by (simp add: assigned_def take_map take_upt)
  then show "ks_start st ! b = sum_list (take b (ks_counts st))"
    using start_count[OF r, of b] sum_counts_less[of "home st" items b] b by simp
qed

text \<open>
  C20: \<open>sort_all\<close> finishes the work: afterwards \<open>stats\<close> of the active sort key counts every
  bucket as sorted.
\<close>

theorem sort_all_sorts_every_bucket:
  assumes "index_inv ix" and "ix_active ix = Some a"
  defines "name \<equiv> sk_name (ks_key (ix_states ix ! a))"
  shows "\<exists>ix1 s. sort_all ix = (Inr (), ix1) \<and> stats name ix1 = Inr s \<and> bs_sorted_buckets s = bs_bucket_count s"
proof -
  have al: "a < length (ix_states ix)" using assms(1,2) by (simp add: index_inv_def)
  have "key_inv (ix_items ix) (ix_states ix ! a)" and plan: "wf_plan (ix_plan ix)"
    using assms(1) al by (simp_all add: index_inv_def)
  from prepare_ok[OF this] obtain st where st: "prepare (ix_plan ix) (ix_items ix) (ix_states ix ! a) = (Inr (), st)"
    "ready (ix_items ix) st" "ks_key st = ks_key (ix_states ix ! a)" by blast
  define st' where "st' = snd (for_do (sort_bucket (ix_items ix)) [0..<bucket_total st] st)"
  have bs: "\<forall>b\<in>set [0..<bucket_total st]. b < bucket_total st" by simp
  note sb = sort_buckets_ok[OF st(2) bs, folded st'_def]
  let ?ix = "ix\<lparr>ix_states := (ix_states ix)[a := st']\<rparr>"
  have run: "sort_all ix = (Inr (), ?ix)"
    using st(1) al sb(8) by (simp add: sort_all_def assms(2) on_state_def)
  have same: "same_contents ix ?ix"
    using al sb(2) st(3) by (simp add: same_contents_def map_update list_update_same_conv)
  have "distinct (sort_key_names ix)" using assms(1) by (simp add: index_inv_def)
  then have "find_state ?ix (sort_key_names ?ix ! a) = Some a"
    using same_contents_names[OF same] al by (intro find_state_nth) simp_all
  moreover have "sort_key_names ?ix ! a = name"
    using same_contents_names[OF same] al by (simp add: name_def sort_key_names_def)
  ultimately have req: "require_state ?ix name = Inr a" by (simp add: require_state_def)
  have "ks_sorted_len st' ! b = ks_counts st' ! b" if "b < bucket_total st'" for b
    using sb(7)[of b] that ready_counts(1)[OF sb(1) that] by (simp add: sb(6) bucket_sorted_def)
  moreover have "ks_has_order st'" "\<not> ks_order_stale st'"
    using sb(1) prepare_current[OF st(1)] by (simp_all add: ready_def sb(10))
  ultimately have "filter (\<lambda>b. ks_has_order st' \<and> \<not> ks_order_stale st' \<and> ks_sorted_len st' ! b = ks_counts st' ! b)
      [0..<bucket_total st'] = [0..<bucket_total st']" by (intro filter_True) simp
  then have "fst (snd (fold (stats_step (ix_plan ix) st') [0..<bucket_total st'] (0, 0, Fin False 0 0))) = bucket_total st'"
    by (simp add: stats_fold_sorted)
  then show ?thesis using run req al by (simp add: stats_def Let_def case_prod_beta)
qed

theorem sort_all_sorts_every_bucket_witness:
  "\<exists>ix1 s. sort_all demo_index = (Inr (), ix1) \<and> stats ''n'' ix1 = Inr s \<and> bs_sorted_buckets s = bs_bucket_count s"
  using sort_all_sorts_every_bucket[OF demo_inv demo_active] by simp

section \<open>The cost of the first page\<close>

lemma page_cost_sum:
  "page_cost page cs c = c + sum_list (map (\<lambda>b. if c + sum_list (take b cs) < page then cs ! b else 0) [0..<length cs])"
proof (induction cs arbitrary: c)
  case (Cons x cs)
  have shift: "[0..<length (x # cs)] = 0 # map Suc [0..<length cs]" by (simp add: map_Suc_upt upt_conv_Cons del: upt_Suc)
  show ?case
  proof (cases "c < page")
    case True
    then show ?thesis using Cons[of "c + x"] unfolding shift by (simp add: comp_def add.assoc cong: if_cong)
  next
    case False
    then have "sum_list (map (\<lambda>b. if c + sum_list (take b (x # cs)) < page then (x # cs) ! b else 0) [0..<length (x # cs)]) = 0"
      by (simp add: sum_list_eq_0_iff)
    then show ?thesis using False by simp
  qed
qed simp

text \<open>Preparing again only notes that the staleness check was made.\<close>

lemma auto_rebalance_settles:
  assumes "maybe_auto_rebalance plan items st = (Inr (), s)"
  shows "\<not> auto_rebalance plan \<or> ks_stale_checked_at s = Some (ks_churn s) \<or> ks_churn s = 0"
proof -
  have "ks_churn s = 0" if "relayout plan items t = (Inr (), s)" for t
    using that by (auto simp: relayout_def reset_order_def split: sum.splits prod.splits)
  then show ?thesis using assms by (auto simp: maybe_auto_rebalance_def Let_def split: if_splits)
qed

lemma prepare_again:
  assumes p: "prepare plan items st = (Inr (), st')" and ho: "ks_has_order st'" and page: "0 < page_size plan"
  obtains c where "prepare plan items st' = (Inr (), st'\<lparr>ks_stale_checked_at := c\<rparr>)"
proof -
  obtain s where s: "maybe_auto_rebalance plan items st = (Inr (), s)"
    and st': "st' = (if \<not> ks_has_order s then build_order (length items) s
      else if ks_order_stale s then regroup (length items) s else s)"
    using p by (auto simp: prepare_def split: prod.splits sum.splits)
  have same: "ks_churn st' = ks_churn s" "ks_stale_checked_at st' = ks_stale_checked_at s"
    by (simp_all add: st' build_order_def regroup_def Let_def case_prod_beta)
  consider (id) "\<not> auto_rebalance plan \<or> ks_stale_checked_at st' = Some (ks_churn st')" | (zero) "auto_rebalance plan" "ks_churn st' = 0"
    using auto_rebalance_settles[OF s] same by auto
  then obtain c where "maybe_auto_rebalance plan items st' = (Inr (), st'\<lparr>ks_stale_checked_at := c\<rparr>)"
  proof cases
    case id
    then show ?thesis by (intro that[of "ks_stale_checked_at st'"]) (simp add: maybe_auto_rebalance_def)
  next
    case zero
    then show ?thesis
      using page by (cases "ks_stale_checked_at st' = Some (ks_churn st')")
        (auto simp: maybe_auto_rebalance_def Let_def intro: that[of "ks_stale_checked_at st'"] that[of "Some 0"])
  qed
  then have "prepare plan items st' = (Inr (), st'\<lparr>ks_stale_checked_at := c\<rparr>)"
    using ho prepare_current[OF p] by (simp add: prepare_def)
  then show thesis by (rule that)
qed

text \<open>The first page of a prepared state touches only buckets that start inside the page.\<close>

lemma page_work:
  assumes r: "ready items st" and till: "0 < till" "till \<le> length items"
  defines "st' \<equiv> snd (range_in items Ascending 0 till st)"
  shows "sum_list (map ((!) (ks_counts st)) (filter (\<lambda>b. ks_sorted_len st' ! b \<noteq> ks_sorted_len st ! b) [0..<bucket_total st]))
    \<le> page_cost till (map ((!) (ks_counts st)) [0..<bucket_total st]) 0"
proof -
  let ?bs = "[bucket_at st 0..<Suc (bucket_at st (till - 1))]" and ?total = "bucket_total st"
  let ?touched = "\<lambda>b. ks_sorted_len st' ! b \<noteq> ks_sorted_len st ! b"
  have last: "till - 1 < length items" using till by linarith
  have bs: "\<forall>b\<in>set ?bs. b < ?total" using bucket_at_bounds(1)[OF r last] by auto
  note sb = sort_buckets_ok(8,11)[OF r bs]
  have st': "st' = snd (for_do (sort_bucket items) ?bs st)"
    using sb(1) by (simp add: st'_def range_in_def Let_def case_prod_beta split: sum.split)
  have len: "length (ks_counts st) = ?total" using r by (simp add: ready_def key_inv_def assigned_def)
  then have counts: "map ((!) (ks_counts st)) [0..<?total] = ks_counts st" by (metis map_nth)
  have inside: "sum_list (take b (ks_counts st)) < till" if "?touched b" "b < ?total" for b
  proof -
    have "b \<in> set ?bs" using sb(2)[of b] that(1) unfolding st' by blast
    then have "ks_start st ! b \<le> ks_start st ! bucket_at st (till - 1)"
      using bucket_at_bounds(1)[OF r last] by (intro start_mono[OF r]) auto
    also have "\<dots> \<le> till - 1" by (rule bucket_at_bounds(2)[OF r last])
    finally show ?thesis using ready_counts(2)[OF r that(2)] till by linarith
  qed
  have "sum_list (map ((!) (ks_counts st)) (filter ?touched [0..<?total]))
      = sum_list (map (\<lambda>b. if ?touched b then ks_counts st ! b else 0) [0..<?total])"
    by (rule sum_list_map_filter')
  also have "\<dots> \<le> sum_list (map (\<lambda>b. if sum_list (take b (ks_counts st)) < till then ks_counts st ! b else 0) [0..<?total])"
    using inside by (intro sum_list_mono) auto
  also have "\<dots> = page_cost till (map ((!) (ks_counts st)) [0..<?total]) 0"
    unfolding counts using len page_cost_sum[of till "ks_counts st" 0] by simp
  finally show ?thesis .
qed

text \<open>
  C16: The promised saving of a view: after switching to a sort key in ascending order, reading
  the first page sorts buckets holding no more elements than \<open>stats\<close> reports as the
  ascending first-page cost; all other buckets are left as they were.
\<close>

theorem first_page_sorts_reported_cost:
  assumes "index_inv ix" and "find_state ix name = Some i"
  shows "\<exists>ix1 s xs ix2. sort_by name Ascending ix = (Inr (), ix1) \<and> stats name ix1 = Inr s \<and> first_page ix1 = (Inr xs, ix2)
    \<and> sum_list (map ((!) (bs_actual_sizes s)) (filter (\<lambda>b. ks_sorted_len (ix_states ix2 ! i) ! b \<noteq> ks_sorted_len (ix_states ix1 ! i) ! b)
        [0..<bs_bucket_count s])) \<le> bs_first_page_cost_ascending s"
proof -
  have il: "i < length (ix_states ix)" by (rule find_state_some(1)[OF assms(2)])
  have inv: "key_inv (ix_items ix) (ix_states ix ! i)" and plan: "wf_plan (ix_plan ix)"
    using assms(1) il by (simp_all add: index_inv_def)
  from prepare_ok[OF inv plan] obtain st where st: "prepare (ix_plan ix) (ix_items ix) (ix_states ix ! i) = (Inr (), st)"
    "ready (ix_items ix) st" "ks_key st = ks_key (ix_states ix ! i)" by blast
  define ix1 where "ix1 = ix\<lparr>ix_active := Some i, ix_direction := Ascending, ix_states := (ix_states ix)[i := st]\<rparr>"
  have sort: "sort_by name Ascending ix = (Inr (), ix1)"
    using st(1) assms(2) by (simp add: sort_by_def require_state_def on_state_def ix1_def)
  have ho: "ks_has_order st" and kinv: "key_inv (ix_items ix) st" using st(2) by (simp_all add: ready_def)
  have page: "0 < page_size (ix_plan ix)" using plan by (simp add: wf_plan_def)
  obtain c where again: "prepare (ix_plan ix) (ix_items ix) st = (Inr (), st\<lparr>ks_stale_checked_at := c\<rparr>)"
    by (rule prepare_again[OF st(1) ho page])
  let ?t = "st\<lparr>ks_stale_checked_at := c\<rparr>"
  have ready: "ready (ix_items ix) ?t" using prepare_ok[OF kinv plan] again by auto
  have il1: "i < length (ix_states ix1)" "ix_states ix1 ! i = st" using il by (simp_all add: ix1_def)
  have req: "require_state ix1 name = Inr i"
  proof -
    have "map ks_key (ix_states ix1) = map ks_key (ix_states ix)"
      using il st(3) by (simp add: ix1_def map_update list_update_same_conv)
    then have "map sk_name (map ks_key (ix_states ix1)) = map sk_name (map ks_key (ix_states ix))" by (simp only:)
    then have names: "sort_key_names ix1 = sort_key_names ix" by (simp add: sort_key_names_def comp_def)
    have "sort_key_names ix ! i = name" using find_state_some(2)[OF assms(2)] il by (simp add: sort_key_names_def)
    moreover have "distinct (sort_key_names ix1)" using assms(1) names by (simp add: index_inv_def)
    ultimately show ?thesis using find_state_nth[of ix1 i] il1(1) names by (simp add: require_state_def)
  qed
  define m where "m = min (page_size (ix_plan ix)) (length (ix_items ix))"
  obtain s where s: "stats name ix1 = Inr s" "bs_actual_sizes s = ks_counts st" "bs_bucket_count s = bucket_total st"
    "bs_first_page_cost_ascending s = page_cost m (map ((!) (ks_counts st)) [0..<bucket_total st]) 0"
    by (simp add: stats_def req Let_def case_prod_beta il1(2)) (simp add: ix1_def m_def)
  show ?thesis
  proof (cases "ix_items ix = []")
    case True
    then have "first_page ix1 = (Inr [], ix1)" by (simp add: first_page_def range_of_def ix1_def)
    then show ?thesis using sort s(1) by (intro exI[of _ ix1] exI[of _ s] exI[of _ "[]"] conjI) simp_all
  next
    case False
    then have pos: "0 < m" using page by (simp add: m_def)
    obtain xs u where read: "range_in (ix_items ix) Ascending 0 m ?t = (Inr xs, u)"
      using range_in_ok[OF ready pos, of Ascending] by (auto simp: m_def)
    define ix2 where "ix2 = ix1\<lparr>ix_states := (ix_states ix1)[i := u]\<rparr>"
    have "first_page ix1 = (Inr xs, ix2)"
      using again il pos read by (simp flip: m_def add: first_page_def range_of_def Let_def ix1_def ix2_def on_state_def case_prod_beta not_le)
    moreover have "ix_states ix2 ! i = u" using il1(1) by (simp add: ix2_def)
    moreover have "sum_list (map ((!) (ks_counts ?t)) (filter (\<lambda>b. ks_sorted_len u ! b \<noteq> ks_sorted_len ?t ! b) [0..<bucket_total ?t]))
        \<le> page_cost m (map ((!) (ks_counts ?t)) [0..<bucket_total ?t]) 0"
      using page_work[OF ready pos] by (simp add: m_def[symmetric] read) (simp add: m_def)
    ultimately show ?thesis using sort s il1(2)
      by (intro exI[of _ ix1] exI[of _ s] exI[of _ xs] exI[of _ ix2] conjI) (simp_all add: bucket_total_def)
  qed
qed

theorem first_page_sorts_reported_cost_witness:
  "\<exists>ix1 s. sort_by ''n'' Ascending demo_index = (Inr (), ix1) \<and> stats ''n'' ix1 = Inr s"
  using first_page_sorts_reported_cost[OF demo_inv demo_state] by blast

end
