(* ===== verification/Order_Switching.thy ===== *)
theory Order_Switching
  imports Index_Statistics
begin

text \<open>
  What \<open>sort_by\<close> promises in \<open>bucketed_list.hpp\<close>: switching back to a sort key used before
  reuses its cached grouping and sorted buckets. A key state whose order is current stays so
  through every request that only looks at the collection, under whatever sort keys, and the
  buckets that were sorted remain sorted.
\<close>

section \<open>What looking at a collection leaves of a key state\<close>

definition kept :: "'a key_state \<Rightarrow> 'a key_state \<Rightarrow> bool" where
  "kept st st' \<longleftrightarrow>
     st' = st\<lparr>ks_order := ks_order st', ks_sorted_len := ks_sorted_len st', ks_stale_checked_at := ks_stale_checked_at st'\<rparr>
     \<and> (ks_stale_checked_at st' = ks_stale_checked_at st \<or> ks_stale_checked_at st' = Some (ks_churn st))
     \<and> (\<forall>b. bucket_sorted st b \<longrightarrow> bucket_sorted st' b)"

text \<open>The grouping is current, and the next check for staleness will not find any.\<close>

definition calm :: "bucket_plan \<Rightarrow> 'a key_state \<Rightarrow> bool" where
  "calm plan st \<longleftrightarrow> ks_has_order st \<and> \<not> ks_order_stale st
     \<and> (\<not> auto_rebalance plan \<or> ks_stale_checked_at st = Some (ks_churn st) \<or> ks_churn st < page_size plan)"

lemma kept_refl [simp]: "kept st st"
  by (simp add: kept_def)

lemma kept_fields:
  assumes "kept st st'"
  shows "ks_key st' = ks_key st" "ks_layouts st' = ks_layouts st" "ks_buckets st' = ks_buckets st"
    "ks_counts st' = ks_counts st" "ks_start st' = ks_start st" "ks_group_offset st' = ks_group_offset st"
    "ks_churn st' = ks_churn st" "ks_has_order st' = ks_has_order st" "ks_order_stale st' = ks_order_stale st"
  using assms by (cases st, cases st', simp add: kept_def)+

lemma kept_trans:
  assumes "kept a b" and "kept b c"
  shows "kept a c"
proof -
  have "c = a\<lparr>ks_order := ks_order c, ks_sorted_len := ks_sorted_len c, ks_stale_checked_at := ks_stale_checked_at c\<rparr>"
    using assms by (cases a, cases b, cases c) (simp add: kept_def)
  then show ?thesis using assms kept_fields(7)[OF assms(1)] unfolding kept_def by metis
qed

lemma kept_calm: "kept st st' \<Longrightarrow> calm plan st \<Longrightarrow> calm plan st'"
  using kept_fields(7-9)[of st st'] by (auto simp: calm_def) (simp add: kept_def)

lemma kept_checked:
  "c = ks_stale_checked_at st \<or> c = Some (ks_churn st) \<Longrightarrow> kept st (st\<lparr>ks_stale_checked_at := c\<rparr>)"
  by (simp add: kept_def bucket_sorted_def)

lemma kept_sort_bucket: "kept st (sorted_state items b st)"
proof (cases rule: sort_bucket_cases[of items b st])
  case (returns slots)
  have "bucket_sorted (sorted_state items b st) c" if "bucket_sorted st c" for c
    using that returns by (cases "c = b"; cases "b < length (ks_sorted_len st)") (simp_all add: bucket_sorted_def list_update_beyond)
  then show ?thesis using returns by (simp add: kept_def)
qed simp

text \<open>A loop keeps what each of its turns keeps, wherever it ends.\<close>

lemma for_do_kept:
  assumes "\<And>i s. kept (f s) (f (snd (body i s)))"
  shows "kept (f s) (f (snd (for_do body is s)))"
proof (induction "is" arbitrary: s)
  case (Cons i "is")
  obtain r s' where b: "body i s = (r, s')" by fastforce
  have "kept (f s) (f s')" using assms[of s i] by (simp add: b)
  then show ?case using kept_trans[OF _ Cons[of s']] by (cases r) (simp_all add: b)
qed simp

lemma kept_sort_buckets: "kept st (snd (for_do (sort_bucket items) bs st))"
  by (rule for_do_kept[where f = "\<lambda>st. st"]) (rule kept_sort_bucket)

lemma prepare_calm:
  assumes "calm plan st"
  obtains c where "prepare plan items st = (Inr (), st\<lparr>ks_stale_checked_at := c\<rparr>)"
    "c = ks_stale_checked_at st \<or> c = Some (ks_churn st)"
proof (cases "\<not> auto_rebalance plan \<or> ks_stale_checked_at st = Some (ks_churn st)")
  case True
  then show ?thesis
    using assms by (intro that[of "ks_stale_checked_at st"]) (simp_all add: calm_def prepare_def maybe_auto_rebalance_def)
next
  case False
  then show ?thesis
    using assms by (intro that[of "Some (ks_churn st)"]) (auto simp: calm_def prepare_def maybe_auto_rebalance_def Let_def)
qed

lemma prepared_calm:
  assumes p: "prepare plan items st = (Inr (), st')" and "ks_has_order st'" and "0 < page_size plan"
  shows "calm plan st'"
proof -
  obtain s where s: "maybe_auto_rebalance plan items st = (Inr (), s)"
    and st': "st' = (if \<not> ks_has_order s then build_order (length items) s
      else if ks_order_stale s then regroup (length items) s else s)"
    using p by (auto simp: prepare_def split: prod.splits sum.splits)
  have "ks_churn st' = ks_churn s" "ks_stale_checked_at st' = ks_stale_checked_at s"
    by (simp_all add: st' build_order_def regroup_def Let_def case_prod_beta)
  then show ?thesis
    using auto_rebalance_settles[OF s] prepare_current[OF p] assms(2,3) by (auto simp: calm_def)
qed

section \<open>Reads keep the state of every sort key\<close>

lemma range_step_kept: "kept (fst (snd acc)) (fst (snd (snd (range_step items dir p acc))))"
proof -
  obtain sb st out where acc: "acc = (sb, st, out)" by (cases acc)
  let ?b = "bucket_at st (to_ascending dir (length items) st p)"
  obtain r st' where "sort_bucket items ?b st = (r, st')" by fastforce
  moreover from this have "kept st st'" using kept_sort_bucket[of st items ?b] by simp
  ultimately show ?thesis by (cases r) (auto simp: acc range_step_def Let_def)
qed

lemma range_steps_kept: "kept (fst (snd acc)) (fst (snd (snd (for_do (range_step items dir) ps acc))))"
  by (rule for_do_kept[where f = "\<lambda>acc. fst (snd acc)"]) (rule range_step_kept)

lemma range_in_kept: "kept st (snd (range_in items dir from till st))"
proof (cases "dir = Descending \<and> 1 < length (ks_layouts st)")
  case True
  then show ?thesis
    using range_steps_kept[of "(None, st, [])" items dir "[from..<till]"]
    by (simp add: range_in_def case_prod_beta)
next
  case False
  have "kept st (snd (case for_do (sort_bucket items) bs st of (Inl e, st) \<Rightarrow> (Inl e, st) | (Inr _, st) \<Rightarrow> (Inr (f st), st)))"
    for bs and f :: "'a key_state \<Rightarrow> 'a list"
    using kept_sort_buckets[of st items bs] by (auto split: prod.split sum.split)
  then show ?thesis unfolding range_in_def Let_def if_not_P[OF False] .
qed

lemma visit_kept: "kept (snd acc) (snd (snd (visit_bucket items dir b acc)))"
  using kept_sort_bucket[of "snd acc" items b] by (cases acc) (auto simp: visit_bucket_def Let_def split: prod.split sum.split)

lemma visits_kept: "kept (snd acc) (snd (snd (for_do (visit_bucket items dir) bs acc)))"
  by (rule for_do_kept[where f = snd]) (rule visit_kept)

lemma group_visits_kept:
  "kept (snd acc) (snd (snd (for_do (\<lambda>g. for_do (visit_bucket items dir) (bs g)) gs acc)))"
  by (rule for_do_kept[where f = snd]) (rule visits_kept)

lemma for_each_in_kept: "kept st (snd (for_each_in items dir st))"
  using visits_kept[of "([], st)" items dir "[0..<bucket_total st]"]
    group_visits_kept[of "([], st)" items dir "\<lambda>g. rev [ks_group_offset st ! g..<ks_group_offset st ! (g + 1)]"]
  by (cases dir) (simp_all add: for_each_in_def case_prod_beta)

section \<open>The state of one sort key across requests\<close>

text \<open>The state at index \<open>i\<close> is kept, and the rest of the index is compatible.\<close>

definition keeps_state :: "nat \<Rightarrow> 'a index \<Rightarrow> 'a index \<Rightarrow> bool" where
  "keeps_state i ix ix' \<longleftrightarrow> ix_plan ix' = ix_plan ix \<and> length (ix_states ix') = length (ix_states ix)
     \<and> kept (ix_states ix ! i) (ix_states ix' ! i)"

lemma keeps_state_refl [simp]: "keeps_state i ix ix"
  by (simp add: keeps_state_def)

lemma keeps_state_trans: "keeps_state i a b \<Longrightarrow> keeps_state i b c \<Longrightarrow> keeps_state i a c"
  by (auto simp: keeps_state_def intro: kept_trans)

lemma keeps_state_calm: "keeps_state i ix ix' \<Longrightarrow> calm (ix_plan ix) (ix_states ix ! i) \<Longrightarrow> calm (ix_plan ix') (ix_states ix' ! i)"
  by (auto simp: keeps_state_def intro: kept_calm)

lemma on_state_keeps:
  assumes "\<And>st. kept st (snd (f st)) \<or> a \<noteq> i"
  shows "keeps_state i ix (snd (on_state a f ix))"
  using assms by (cases "a = i"; cases "i < length (ix_states ix)")
    (auto simp: on_state_def keeps_state_def case_prod_beta list_update_beyond)

lemma prepare_keeps:
  assumes "calm (ix_plan ix) (ix_states ix ! i)"
  shows "keeps_state i ix (snd (prepare_state a ix))"
proof -
  obtain c where "prepare (ix_plan ix) (ix_items ix) (ix_states ix ! i) = (Inr (), (ix_states ix ! i)\<lparr>ks_stale_checked_at := c\<rparr>)"
    "c = ks_stale_checked_at (ix_states ix ! i) \<or> c = Some (ks_churn (ix_states ix ! i))"
    using prepare_calm[OF assms] .
  then show ?thesis
    using kept_checked by (cases "a = i"; cases "i < length (ix_states ix)")
      (auto simp: on_state_def keeps_state_def case_prod_beta list_update_beyond)
qed

text \<open>The shape of every read.\<close>

lemma read_keeps:
  assumes "calm (ix_plan ix) (ix_states ix ! i)" and "\<And>ix st. kept st (snd (f ix st))"
  shows "keeps_state i ix (snd (case prepare_state a ix of (Inl e, ix) \<Rightarrow> (Inl e, ix) | (Inr _, ix) \<Rightarrow> on_state a (f ix) ix))"
proof -
  obtain r ix1 where p: "prepare_state a ix = (r, ix1)" by fastforce
  have "keeps_state i ix ix1" using prepare_keeps[OF assms(1), of a] by (simp add: p)
  moreover have "keeps_state i ix1 (snd (on_state a (f ix1) ix1))" by (rule on_state_keeps) (simp add: assms(2))
  ultimately show ?thesis by (cases r) (auto simp: p intro: keeps_state_trans)
qed

text \<open>The requests that look at the collection and choose how.\<close>

fun looking :: "'a request \<Rightarrow> bool" where
  "looking (Sort_by name dir) = True"
| "looking Unsort = True"
| "looking Sort_key_names = True"
| "looking Active_sort_key = True"
| "looking Direction_of = True"
| "looking Size_of = True"
| "looking Plan_of = True"
| "looking (At p) = True"
| "looking (Range from till) = True"
| "looking Page = True"
| "looking (Position_if p) = True"
| "looking For_each = True"
| "looking Sort_all = True"
| "looking _ = False"

lemma snd_reply_of [simp]: "snd (reply_of f r) = snd r"
  by (simp add: reply_of_def case_prod_beta)

lemma sort_then_kept:
  "kept st (snd (case sort_bucket items b st of (Inl e, st) \<Rightarrow> (Inl e, st) | (Inr _, st) \<Rightarrow> (Inr (g st), st)))"
  using kept_sort_bucket[of st items b] by (auto split: prod.split sum.split)

lemma at_keeps: "calm (ix_plan ix) (ix_states ix ! i) \<Longrightarrow> keeps_state i ix (snd (at p ix))"
  unfolding at_def by (auto split: option.split intro!: read_keeps sort_then_kept simp: Let_def)

lemma range_keeps: "calm (ix_plan ix) (ix_states ix ! i) \<Longrightarrow> keeps_state i ix (snd (range_of from till ix))"
  unfolding range_of_def Let_def
  by (auto split: option.split intro!: read_keeps range_in_kept)

lemma for_each_keeps: "calm (ix_plan ix) (ix_states ix ! i) \<Longrightarrow> keeps_state i ix (snd (for_each ix))"
  unfolding for_each_def
  by (auto split: option.split intro!: read_keeps for_each_in_kept)

lemma sort_all_keeps: "calm (ix_plan ix) (ix_states ix ! i) \<Longrightarrow> keeps_state i ix (snd (sort_all ix))"
  unfolding sort_all_def by (auto split: option.split intro!: read_keeps kept_sort_buckets)

lemma position_keeps: "calm (ix_plan ix) (ix_states ix ! i) \<Longrightarrow> keeps_state i ix (snd (position_if p ix))"
  unfolding position_if_def Let_def by (auto split: option.split intro!: read_keeps sort_then_kept)

lemma sort_by_keeps:
  assumes "calm (ix_plan ix) (ix_states ix ! i)"
  shows "keeps_state i ix (snd (sort_by name dir ix))"
proof (cases "require_state ix name")
  case (Inr a)
  let ?ix = "ix\<lparr>ix_active := Some a, ix_direction := dir\<rparr>"
  have "keeps_state i ?ix (snd (prepare_state a ?ix))" by (rule prepare_keeps) (simp add: assms)
  then show ?thesis by (simp add: sort_by_def Inr keeps_state_def)
qed (simp add: sort_by_def)

lemma unsort_keeps [simp]: "keeps_state i ix (unsort ix)"
  by (simp add: keeps_state_def unsort_def)

lemma looking_keeps:
  assumes "looking req" and "calm (ix_plan ix) (ix_states ix ! i)"
  shows "keeps_state i ix (snd (run_request req ix))"
  using assms
  by (cases req) (simp_all add: at_keeps range_keeps first_page_def for_each_keeps sort_all_keeps position_keeps sort_by_keeps)

lemma looking_run_keeps:
  "list_all looking reqs \<Longrightarrow> calm (ix_plan ix) (ix_states ix ! i) \<Longrightarrow> keeps_state i ix (snd (run_requests reqs ix))"
proof (induction reqs arbitrary: ix)
  case (Cons req reqs)
  have k: "keeps_state i ix (snd (run_request req ix))" using Cons.prems by (intro looking_keeps) simp_all
  have "keeps_state i (snd (run_request req ix)) (snd (run_requests reqs (snd (run_request req ix))))"
    using Cons.prems by (intro Cons.IH keeps_state_calm[OF k]) simp_all
  then show ?case by (auto simp: case_prod_beta intro: keeps_state_trans[OF k])
qed simp

lemma looking_run_admissible:
  "list_all looking reqs \<Longrightarrow> admissible_run reqs c \<and> col_keys (snd (spec_requests reqs c)) = col_keys c"
proof (induction reqs arbitrary: c)
  case (Cons req reqs)
  have "admissible req c \<and> col_keys (snd (spec_request req c)) = col_keys c"
    using Cons.prems by (cases req) (simp_all split: option.split)
  then show ?case using Cons by (simp add: case_prod_beta)
qed simp

lemma looking_run_items:
  "list_all looking reqs \<Longrightarrow> col_items (snd (spec_requests reqs c)) = col_items c"
proof (induction reqs arbitrary: c)
  case (Cons req reqs)
  have "col_items (snd (spec_request req c)) = col_items c"
    using Cons.prems by (cases req) (simp_all split: option.split)
  then show ?case using Cons by (simp add: case_prod_beta)
qed simp

section \<open>Switching back\<close>

lemma find_index_map: "find_index p (map f xs) = find_index (\<lambda>x. p (f x)) xs"
  by (induction xs) simp_all

lemma find_state_same_keys:
  fixes ix :: "'a index"
  assumes "map ks_key (ix_states ix') = map ks_key (ix_states ix)"
  shows "find_state ix' name = find_state ix name"
proof -
  have "find_state ix' name = (let i = find_index (\<lambda>k. sk_name k = name) (map ks_key (ix_states ix'))
    in if i < length (map ks_key (ix_states ix')) then Some i else None)" for ix' :: "'a index"
    by (simp add: find_state_def find_index_map comp_def)
  then show ?thesis using assms map_eq_imp_length_eq[OF assms] by simp
qed

lemma sort_by_calm:
  fixes dir :: direction
  assumes inv: "index_inv ix" and i: "find_state ix name = Some i"
  defines "ix1 \<equiv> snd (sort_by name dir ix)"
  shows "index_inv ix1" and "find_state ix1 name = Some i" and "calm (ix_plan ix1) (ix_states ix1 ! i)"
    and "ready (ix_items ix1) (ix_states ix1 ! i)"
proof -
  note il = find_state_some(1)[OF i]
  have st: "key_inv (ix_items ix) (ix_states ix ! i)" and plan: "wf_plan (ix_plan ix)" using inv il by (simp_all add: index_inv_def)
  from prepare_ok[OF st plan] obtain t where t: "prepare (ix_plan ix) (ix_items ix) (ix_states ix ! i) = (Inr (), t)"
    "ready (ix_items ix) t" "ks_key t = ks_key (ix_states ix ! i)" by blast
  have ix1: "ix1 = ix\<lparr>ix_active := Some i, ix_direction := dir, ix_states := (ix_states ix)[i := t]\<rparr>"
    using t(1) i by (simp add: ix1_def sort_by_def require_state_def on_state_def)
  obtain ix' where "sort_by name dir ix = (Inr (), ix')" "index_inv ix'" using sort_by_ok[OF inv i, of dir] by blast
  then show "index_inv ix1" unfolding ix1_def by (simp only: snd_conv)
  have "map ks_key (ix_states ix1) = map ks_key (ix_states ix)"
    using il t(3) by (simp add: ix1 map_update list_update_same_conv)
  then show "find_state ix1 name = Some i" using i find_state_same_keys[of ix1 ix] by simp
  show "ready (ix_items ix1) (ix_states ix1 ! i)" using il t(2) by (simp add: ix1)
  have "calm (ix_plan ix) t" using t(2) plan by (intro prepared_calm[OF t(1)]) (simp_all add: ready_def wf_plan_def)
  then show "calm (ix_plan ix1) (ix_states ix1 ! i)" using il by (simp add: ix1)
qed

lemma kept_ready_slots:
  assumes "kept st st'" and "ready items st" and "ready items st'" and b: "b < bucket_total st" "bucket_sorted st b"
  shows "map ((!) (ks_order st')) [ks_start st ! b..<ks_start st ! Suc b] = map ((!) (ks_order st)) [ks_start st ! b..<ks_start st ! Suc b]"
proof -
  note same = kept_fields[OF assms(1)]
  have b': "b < bucket_total st'" "bucket_sorted st' b" using assms(1) b same by (simp_all add: kept_def bucket_total_def)
  show ?thesis
    using sorted_position[OF assms(2) b] sorted_position[OF assms(3) b'] by (simp add: same)
qed

text \<open>
  C13: Switching back to a sort key reuses its cached grouping and its sorted buckets. After
  \<open>sort_by\<close> and any requests that only look, under any sort keys, the layouts, the bucket ids
  and the bucket starts are the same and every bucket that was sorted is still sorted, with the
  same slots; selecting the key again succeeds and touches nothing but the note of its last
  staleness check.
\<close>

theorem switching_back_reuses_cache:
  fixes dir :: direction
  assumes "index_inv ix" and "find_state ix name = Some i" and "list_all looking reqs"
  defines "ix1 \<equiv> snd (sort_by name dir ix)"
  defines "ix2 \<equiv> snd (run_requests reqs ix1)"
  defines "st1 \<equiv> ix_states ix1 ! i" and "st2 \<equiv> ix_states ix2 ! i"
  shows "(\<exists>c. sort_by name dir' ix2 = (Inr (), ix2\<lparr>ix_active := Some i, ix_direction := dir',
              ix_states := (ix_states ix2)[i := st2\<lparr>ks_stale_checked_at := c\<rparr>]\<rparr>))
    \<and> ks_layouts st2 = ks_layouts st1 \<and> ks_buckets st2 = ks_buckets st1 \<and> ks_start st2 = ks_start st1
    \<and> (\<forall>b\<in>set (filter (bucket_sorted st1) [0..<bucket_total st1]). bucket_sorted st2 b
         \<and> map ((!) (ks_order st2)) [ks_start st1 ! b..<ks_start st1 ! Suc b]
           = map ((!) (ks_order st1)) [ks_start st1 ! b..<ks_start st1 ! Suc b])"
proof -
  note first = sort_by_calm[OF assms(1,2), of dir, folded ix1_def, folded st1_def]
  have adm: "admissible_run reqs (contents ix1)" using looking_run_admissible[OF assms(3)] by blast
  note run = run_requests_refine[OF first(1) adm, folded ix2_def]
  have keeps: "keeps_state i ix1 ix2"
    unfolding ix2_def using first(3) by (intro looking_run_keeps[OF assms(3)]) (simp add: st1_def)
  then have kept: "kept st1 st2" and calm: "calm (ix_plan ix2) st2"
    using keeps_state_calm[OF keeps] first(3) by (simp_all add: keeps_state_def st1_def st2_def)
  have "col_keys (contents ix2) = col_keys (contents ix1)"
    using run looking_run_admissible[OF assms(3), of "contents ix1"] by simp
  then have i2: "find_state ix2 name = Some i" using first(2) find_state_same_keys[of ix2 ix1] by simp
  obtain c where c: "prepare (ix_plan ix2) (ix_items ix2) st2 = (Inr (), st2\<lparr>ks_stale_checked_at := c\<rparr>)"
    using prepare_calm[OF calm] .
  then have again: "sort_by name dir' ix2 = (Inr (), ix2\<lparr>ix_active := Some i, ix_direction := dir',
      ix_states := (ix_states ix2)[i := st2\<lparr>ks_stale_checked_at := c\<rparr>]\<rparr>)"
    using i2 by (simp add: sort_by_def require_state_def on_state_def st2_def)
  have items: "ix_items ix2 = ix_items ix1" using looking_run_items[OF assms(3), of "contents ix1"] run by (metis contents_sel(2))
  have "key_inv (ix_items ix2) st2" using run find_state_some(1)[OF i2] by (simp add: index_inv_def st2_def)
  then have "ready (ix_items ix1) st2" using calm items by (simp add: ready_def calm_def key_inv_def)
  from kept_ready_slots[OF kept first(4) this]
  have "map ((!) (ks_order st2)) [ks_start st1 ! b..<ks_start st1 ! Suc b]
      = map ((!) (ks_order st1)) [ks_start st1 ! b..<ks_start st1 ! Suc b]"
    if "b \<in> set [0..<bucket_total st1]" "bucket_sorted st1 b" for b
    using that by simp
  then have "\<forall>b\<in>set (filter (bucket_sorted st1) [0..<bucket_total st1]). bucket_sorted st2 b
         \<and> map ((!) (ks_order st2)) [ks_start st1 ! b..<ks_start st1 ! Suc b]
           = map ((!) (ks_order st1)) [ks_start st1 ! b..<ks_start st1 ! Suc b]"
    using kept unfolding kept_def set_filter by blast
  then show ?thesis using again kept_fields(2,3,5)[OF kept] by blast
qed

theorem switching_back_reuses_cache_witness:
  "ks_start (ix_states (snd (run_requests [At 1, Unsort, Sort_by ''n'' Ascending, Page] (snd (sort_by ''n'' Descending demo_index)))) ! 0)
   = ks_start (ix_states (snd (sort_by ''n'' Descending demo_index)) ! 0)"
proof -
  have "list_all looking [At 1, Unsort, Sort_by ''n'' Ascending, Page :: u64 request]" by simp
  from switching_back_reuses_cache[OF demo_inv demo_state this, where dir = Descending and dir' = Ascending]
  show ?thesis by blast
qed

end
