(* ===== verification/Bucket_Queries.thy ===== *)
theory Bucket_Queries
  imports Index_Statistics
begin

text \<open>
  Where the bucket numbers of a \<open>BucketIndex\<close> come from, and why they fit their types: the
  buckets of all groups are numbered through, an element's bucket is determined by the layout
  \<open>layout\<close> returns for its group, and the narrow integers of the key states hold the values
  that were computed for them, without truncation.
\<close>

section \<open>The bucket of an element is read off the layouts\<close>

text \<open>
  C15: What \<open>layout\<close>, \<open>bucket_count\<close>, \<open>bucket_sizes\<close> and \<open>bucket_of\<close> say about a registered sort
  key fits together. There is one layout per group and \<open>out_of_range\<close> beyond; the bucket count
  is the sum of the layouts' counts, and so is the number of reported sizes; and the bucket of
  a value with its group in range, in the collection or not, is the number of buckets of the
  groups before its group plus the number of split points of its own group's layout at or
  below it.
\<close>

theorem bucket_of_follows_layouts:
  assumes "index_inv ix" and "find_state ix name = Some i"
  defines "k \<equiv> ks_key (ix_states ix ! i)"
  assumes "valid_item k x"
  shows "\<exists>ls sizes. length ls = sk_groups k
    \<and> (\<forall>g. layout_of name g ix = (if g < sk_groups k then Inr (ls ! g)
         else Inl (Out_of_range ''BucketIndex::layout: group out of range'')))
    \<and> bucket_count name ix = Inr (sum_list (map layout_bucket_count ls))
    \<and> bucket_sizes name ix = Inr sizes \<and> length sizes = sum_list (map layout_bucket_count ls)
    \<and> group_of k x = Inr (group_number k x) \<and> group_number k x < sk_groups k
    \<and> bucket_of x name ix = Inr (sum_list (map layout_bucket_count (take (group_number k x) ls))
         + length (filter (at_or_above k (ls ! group_number k x) x)
             [0..<layout_bucket_count (ls ! group_number k x) - 1]))"
proof -
  define st where "st = ix_states ix ! i"
  let ?ls = "ks_layouts st" and ?g = "group_number k x"
  note facts = named_state[OF assms(1,2), folded k_def st_def]
  have len: "length ?ls = sk_groups k" and offset: "ks_group_offset st = offsets (map layout_bucket_count ?ls)"
    and total: "bucket_total st = sum_list (map layout_bucket_count ?ls)" and k: "ks_key st = k"
    using facts(2) bucket_total_sum[OF facts(2)] by (simp_all add: layouts_wf_def st_def k_def)
  have g: "?g < sk_groups k" using facts(3) assms(4) unfolding k by (rule group_number_less)
  have ok: "layout_ok k ?g (?ls ! ?g)" using facts(2) g by (simp add: layouts_wf_def k)
  have "split_bucket k (?ls ! ?g) x = length (filter (at_or_above k (?ls ! ?g) x) [0..<layout_bucket_count (?ls ! ?g) - 1])"
    using split_bucket_count[OF ok facts(4)[unfolded k] assms(4) refl] ok by (simp add: layout_bucket_count_def layout_ok_def)
  moreover have "ks_group_offset st ! ?g = sum_list (map layout_bucket_count (take ?g ?ls))"
    using g len by (simp add: offset take_map)
  ultimately have "home st x = sum_list (map layout_bucket_count (take ?g ?ls))
      + length (filter (at_or_above k (?ls ! ?g) x) [0..<layout_bucket_count (?ls ! ?g) - 1])"
    by (simp add: home_def k Let_def)
  moreover have "layout_of name g ix = (if g < sk_groups k then Inr (?ls ! g)
         else Inl (Out_of_range ''BucketIndex::layout: group out of range''))" for g
    using len by (simp add: layout_of_def facts(6) st_def)
  moreover have "length (ks_counts st) = bucket_total st" using facts(1) by (simp add: key_inv_def assigned_def)
  ultimately show ?thesis
    using facts(5)[of bucket_total] facts(5)[of ks_counts] facts(7)[of x] assms(4) group_of_valid[OF assms(4)] g len total k
    by (intro exI[of _ ?ls] exI[of _ "ks_counts st"]) (simp add: bucket_count_def bucket_sizes_def)
qed

theorem bucket_of_follows_layouts_witness:
  "\<exists>ly. layout_of ''n'' 0 demo_index = Inr ly \<and> bucket_count ''n'' demo_index = Inr (layout_bucket_count ly)
    \<and> bucket_of 4 ''n'' demo_index
      = Inr (length (filter (at_or_above number_key ly 4) [0..<layout_bucket_count ly - 1]))"
proof -
  have k: "sk_groups number_key = 1" "group_number number_key x = 0" for x
    by (simp_all add: number_key_def group_number_def)
  from bucket_of_follows_layouts[OF demo_inv demo_state, of 4] obtain ls where
    ls: "length ls = 1" "\<forall>g. layout_of ''n'' g demo_index = (if g < 1 then Inr (ls ! g)
         else Inl (Out_of_range ''BucketIndex::layout: group out of range''))"
      "bucket_count ''n'' demo_index = Inr (sum_list (map layout_bucket_count ls))"
      "bucket_of 4 ''n'' demo_index = Inr (sum_list (map layout_bucket_count (take 0 ls))
         + length (filter (at_or_above number_key (ls ! 0) 4) [0..<layout_bucket_count (ls ! 0) - 1]))"
    by (auto simp: k)
  then obtain ly where "ls = [ly]" by (auto simp: length_Suc_conv)
  then show ?thesis using ls by (intro exI[of _ ly]) simp
qed

section \<open>Widths\<close>

text \<open>
  C14: The narrow integer types hold their values. In every reachable index, for every sort key:
  there are fewer than \<open>2 ^ 32\<close> elements and at most 65535 buckets; the 16-bit id stored for a
  slot is the very bucket the layouts give its element, no truncation in between, and it is
  below the number of buckets; the 32-bit slots in the cached order are exactly the slots
  placed so far, each once, all of them slots of elements and none the \<open>removed_slot\<close> marker;
  splitter slots are slots of elements. Every vector has the length it is indexed with.
\<close>

theorem narrow_types_hold:
  assumes "reachable plan ix" and "wf_plan plan" and "i < length (ix_states ix)"
  defines "st \<equiv> ix_states ix ! i" and "items \<equiv> ix_items ix"
  shows "length items < 2 ^ 32 \<and> bucket_total st \<le> 65535
    \<and> (\<forall>s<length items. bucket_for st (items ! s) (if has_key (ks_key st) then ks_keys st ! s else 0)
           = Inr (ks_buckets st ! s) \<and> ks_buckets st ! s < bucket_total st)
    \<and> length (ks_buckets st) = length items
    \<and> (if has_key (ks_key st) then length (ks_keys st) = length items else True)
    \<and> length (ks_layouts st) = sk_groups (ks_key st)
    \<and> length (ks_group_offset st) = sk_groups (ks_key st) + 1
    \<and> length (ks_counts st) = bucket_total st \<and> length (ks_expected st) = bucket_total st
    \<and> (\<forall>s\<in>set (ks_splitter_slots st). s < length items)
    \<and> (if ks_has_order st
       then mset (ks_order st) = mset [0..<ks_ordered_slots st]
         \<and> (if ks_order_stale st then ks_ordered_slots st \<le> length items else ks_ordered_slots st = length items)
         \<and> removed_slot \<notin> set (ks_order st)
         \<and> length (ks_moved st) = ks_ordered_slots st \<and> length (ks_start st) = bucket_total st + 1
         \<and> length (ks_sorted_len st) = bucket_total st
       else True)"
proof -
  have inv: "key_inv items st" using reachable_inv[OF assms(1,2)] assms(3) by (simp add: index_inv_def st_def items_def)
  let ?k = "ks_key st" and ?key = "\<lambda>s. if has_key (ks_key st) then ks_keys st ! s else 0"
  have lw: "layouts_wf st" and k: "wf_key ?k" and valid: "\<forall>x\<in>set items. valid_item ?k x"
    and size: "length items < 2 ^ 32" and keys: "has_key ?k \<Longrightarrow> ks_keys st = map (key_of ?k) items"
    and buckets: "ks_buckets st = map (home st) items" and counts: "length (ks_counts st) = bucket_total st"
    and splitters: "\<forall>s\<in>set (ks_splitter_slots st). s < length items"
    using inv by (simp_all add: key_inv_def key_base_def assigned_def splitters_wf_def)
  have ids: "bucket_for st (items ! s) (?key s) = Inr (ks_buckets st ! s) \<and> ks_buckets st ! s < bucket_total st"
    if "s < length items" for s
    using bucket_for_home[OF lw k, of "items ! s" "?key s"] home_bounds(3)[OF lw k, of "items ! s"] valid that keys
    by (simp add: buckets)
  have order: "mset (ks_order st) = mset [0..<ks_ordered_slots st]
      \<and> (if ks_order_stale st then ks_ordered_slots st \<le> length items else ks_ordered_slots st = length items)
      \<and> removed_slot \<notin> set (ks_order st)
      \<and> length (ks_moved st) = ks_ordered_slots st \<and> length (ks_start st) = bucket_total st + 1
      \<and> length (ks_sorted_len st) = bucket_total st" if "ks_has_order st"
  proof -
    from that obtain segs where segs: "grouping items st segs" using inv by (auto simp: key_inv_def)
    have m: "mset (ks_order st) = mset [0..<ks_ordered_slots st]" "ks_ordered_slots st \<le> length items"
      "length segs = bucket_total st" "ks_start st = seg_starts segs" "length (ks_sorted_len st) = bucket_total st"
      "length (ks_moved st) = ks_ordered_slots st"
      using segs unfolding grouping_def by blast+
    have "removed_slot \<notin> set (ks_order st)"
      using mset_eq_setD[OF m(1)] m(2) size by (simp add: removed_slot_def)
    moreover have "ks_ordered_slots st = length items" if "\<not> ks_order_stale st"
      using that inv \<open>ks_has_order st\<close> by (simp add: key_inv_def settled_def)
    ultimately show ?thesis using m by simp
  qed
  have "length (ks_layouts st) = sk_groups ?k" "length (ks_group_offset st) = sk_groups ?k + 1"
    "bucket_total st \<le> 65535" "length (ks_expected st) = bucket_total st"
    using lw by (simp_all add: layouts_wf_def)
  then show ?thesis using size ids order splitters counts keys by (simp add: buckets)
qed

theorem narrow_types_hold_witness:
  "bucket_for (ix_states demo_index ! 0) 5 (ks_keys (ix_states demo_index ! 0) ! 0)
    = Inr (ks_buckets (ix_states demo_index ! 0) ! 0)
   \<and> length (ks_group_offset (ix_states demo_index ! 0)) = 2"
  using narrow_types_hold[OF demo_reachable wf_mk_plan(3), of 0] by (auto simp: number_key_def has_key_def)

end
