(* ===== verification/Index_Failures.thy ===== *)
theory Index_Failures
  imports Index_Properties
begin

text \<open>
  Where the exception safety of \<open>BucketIndex\<close> ends. \<open>append\<close> stores the element before it
  asks every sort key for a bucket; a group function whose value is out of range makes that
  throw, and the element stays behind without a bucket. This is why the other theorems ask
  for group values in range. A comparator with cycles, promised to be harmless, can make the
  estimation of a layout read past the end of its sample; so they ask for lawful comparators.
\<close>

section \<open>Groups out of range\<close>

lemma each_do_fails:
  assumes "s \<in> set ss" and "f s = (Inl e, s')"
  shows "\<exists>e ss' i. each_do f ss = (Inl e, ss') \<and> i < length ss \<and> length ss' = length ss \<and> f (ss ! i) = (Inl e, ss' ! i)"
  using assms(1)
proof (induction ss)
  case (Cons t ts)
  obtain r t' where t: "f t = (r, t')" by (cases "f t")
  show ?case
  proof (cases r)
    case (Inl d)
    then show ?thesis using t by (intro exI[of _ d] exI[of _ "t' # ts"] exI[of _ 0]) simp
  next
    case (Inr u)
    then have "s \<in> set ts" using Cons.prems assms(2) t by auto
    from Cons.IH[OF this] obtain d ss' i where "each_do f ts = (Inl d, ss')" "i < length ts" "length ss' = length ts"
      "f (ts ! i) = (Inl d, ss' ! i)" by blast
    then show ?thesis using t Inr by (intro exI[of _ d] exI[of _ "t' # ss'"] exI[of _ "Suc i"]) simp
  qed
qed simp

lemma append_state_failed: "append_state x st = (Inl e, st') \<Longrightarrow> ks_buckets st' = ks_buckets st"
  by (auto simp: append_state_def Let_def split: sum.splits if_splits)

lemma append_state_out_of_range:
  assumes "layouts_wf st" and "1 < sk_groups (ks_key st)" and "\<not> valid_item (ks_key st) x"
  obtains e st' where "append_state x st = (Inl e, st')"
proof -
  obtain e where "group_of (ks_key st) x = Inl e"
    using assms(3) by (auto simp: valid_item_def group_of_def Let_def split: option.splits)
  then have "bucket_for s x key = Inl e" if "ks_key s = ks_key st" "ks_layouts s = ks_layouts st" for s key
    using that assms(1,2) by (simp add: bucket_for_def layouts_wf_def)
  then show ?thesis by (intro that) (simp add: append_state_def Let_def)
qed

text \<open>
  C11: Adding an element whose group is out of range throws but does not undo the insertion:
  the element stays in the collection and some sort key has no bucket for it, although the
  operations that follow read a bucket for every element.
\<close>

theorem failed_add_leaves_element:
  assumes "index_inv ix" and "length (ix_items ix) < removed_slot"
    and "find_state ix name = Some i" and "1 < sk_groups (ks_key (ix_states ix ! i))"
    and "\<not> valid_item (ks_key (ix_states ix ! i)) x"
  shows "\<exists>e ix' j. add x ix = (Inl e, ix') \<and> ix_items ix' = ix_items ix @ [x]
    \<and> j < length (ix_states ix') \<and> length (ks_buckets (ix_states ix' ! j)) < length (ix_items ix')"
proof -
  let ?sts = "ix_states ix"
  have inv: "layouts_wf st" "length (ks_buckets st) = length (ix_items ix)" if "st \<in> set ?sts" for st
    using assms(1) that by (auto simp: index_inv_def key_inv_def assigned_def)
  have st: "?sts ! i \<in> set ?sts" using find_state_some(1)[OF assms(3)] by simp
  obtain e st' where "append_state x (?sts ! i) = (Inl e, st')"
    by (rule append_state_out_of_range[OF inv(1)[OF st] assms(4,5)])
  from each_do_fails[of _ _ "append_state x", OF st this] obtain e sts j where
    fail: "each_do (append_state x) ?sts = (Inl e, sts)" "j < length ?sts" "length sts = length ?sts"
      "append_state x (?sts ! j) = (Inl e, sts ! j)" by blast
  have "length (ks_buckets (sts ! j)) = length (ix_items ix)"
    using append_state_failed[OF fail(4)] inv(2) fail(2) by simp
  then show ?thesis
    using fail(1-3) assms(2)
    by (intro exI[of _ e] exI[of _ "ix\<lparr>ix_items := ix_items ix @ [x], ix_states := sts\<rparr>"] exI[of _ j])
      (simp add: add_def append_item_def on_states_def)
qed

definition grouped_key :: "u64 sort_key" where
  "grouped_key = number_key\<lparr>sk_groups := 2, sk_group := Some unat\<rparr>"

definition grouped_index :: "u64 index" where
  "grouped_index = snd (run_requests [Add_sort_key grouped_key, Add 1] (new_index (mk_plan Uniform)))"

lemma grouped_key_sel: "sk_name grouped_key = ''n''" "sk_groups grouped_key = 2" "valid_item grouped_key x \<longleftrightarrow> unat x < 2"
  by (simp_all add: grouped_key_def number_key_def valid_item_def)

lemma grouped_index_facts:
  "index_inv grouped_index" "ix_items grouped_index = [1]" "sort_key_names grouped_index = [''n'']"
  "map ks_key (ix_states grouped_index) = [grouped_key]"
proof -
  have "wf_key grouped_key" "lawful_key grouped_key"
    by (simp add: grouped_key_def number_key_def wf_key_def max_groups_def)
      (rule lawful_no_compare, simp add: grouped_key_def number_key_def)
  then have "admissible_run [Add_sort_key grouped_key, Add 1] (contents (new_index (mk_plan Uniform)))"
    and "snd (spec_requests [Add_sort_key grouped_key, Add 1] (contents (new_index (mk_plan Uniform))))
      = \<lparr>col_plan = mk_plan Uniform, col_items = [1], col_keys = [grouped_key], col_active = None, col_direction = Ascending\<rparr>"
    by (simp_all add: new_collection_def key_named_def grouped_key_sel spec_add_all_def removed_slot_def)
  with run_requests_refine[OF new_index_inv[OF wf_mk_plan(3)], of "[Add_sort_key grouped_key, Add 1]"]
  have inv: "index_inv grouped_index" and c: "contents grouped_index
      = \<lparr>col_plan = mk_plan Uniform, col_items = [1], col_keys = [grouped_key], col_active = None, col_direction = Ascending\<rparr>"
    by (simp_all add: grouped_index_def)
  show "index_inv grouped_index" by (rule inv)
  show "ix_items grouped_index = [1]" "map ks_key (ix_states grouped_index) = [grouped_key]"
    using contents_sel(2,3)[of grouped_index, unfolded c] by simp_all
  show "sort_key_names grouped_index = [''n'']"
    using names_contents[of grouped_index, unfolded c] by (simp add: grouped_key_sel)
qed

theorem failed_add_leaves_element_witness:
  "\<exists>e ix'. add 7 grouped_index = (Inl e, ix') \<and> ix_items ix' = [1, 7]"
proof -
  have st: "find_state grouped_index ''n'' = Some 0"
    using find_state_nth[of grouped_index 0] grouped_index_facts(3,4) by (auto simp: map_eq_Cons_conv)
  have "ks_key (ix_states grouped_index ! 0) = grouped_key" using grouped_index_facts(4) by (auto simp: map_eq_Cons_conv)
  then show ?thesis
    using failed_add_leaves_element[OF grouped_index_facts(1) _ st, of 7]
    by (auto simp: grouped_index_facts(2) grouped_key_sel removed_slot_def)
qed

text \<open>
  With a single group the group of an element is not looked at when it is added: as long as
  the layout has no splitters a comparator-only key accepts it, and the exception comes from
  the first comparison with it, that is from a read.
\<close>

lemma single_group_unchecked:
  assumes "\<not> has_key (ks_key st)" and "length (ks_layouts st) = 1" and "splitters (ks_layouts st ! 0) = []"
    and "sk_group (ks_key st) = Some f" and "sk_groups (ks_key st) \<le> f (items ! a)"
  defines "e \<equiv> Out_of_range (''SortKey '' @ quoted (sk_name (ks_key st)) @ '': group out of range'')"
  shows "bucket_for st (items ! a) key = Inr (ks_group_offset st ! 0)" and "bucket_less st items a b = Inl e"
  using assms
  by (simp_all add: bucket_for_def layout_bucket_of_def upper_bound_exn_def bisect_exn.simps Let_def
      bucket_less_def compare_values_def group_of_def)

section \<open>Inconsistent comparators\<close>

text \<open>Six values compared by size, except for five pairs. There are cycles: 0 < 3 < 1 < 0.\<close>

definition cyclic_less :: "nat \<Rightarrow> nat \<Rightarrow> bool" where
  "cyclic_less a b \<longleftrightarrow>
     (let swapped = [(1, 0), (3, 1), (4, 1), (5, 2), (4, 3)]
      in (a, b) \<in> set swapped \<or> (b, a) \<notin> set swapped \<and> a < b)"

definition cyclic_compare :: "nat \<Rightarrow> nat \<Rightarrow> int" where
  "cyclic_compare a b = (if cyclic_less a b then -1 else if cyclic_less b a then 1 else 0)"

definition cyclic_key :: "nat sort_key" where
  "cyclic_key = \<lparr>sk_name = ''c'', sk_key = None, sk_compare = Some cyclic_compare, sk_groups = 1, sk_group = None\<rparr>"

lemma cyclic_sample_less: "a < 6 \<Longrightarrow> b < 6 \<Longrightarrow> sample_less cyclic_key [0..<6] [] a b = Inr (cyclic_less a b)"
  by (simp add: sample_less_def has_key_def cyclic_key_def compare_less_def compare_values_def compare_in_group_def tie_break_def
      cyclic_compare_def)

lemma cyclic_sorted: "stable_sort_exn (sample_less cyclic_key [0..<6] []) [0..<6] = Inr [4, 3, 1, 0, 5, 2]"
proof -
  have "stable_sort_exn (sample_less cyclic_key [0..<6] []) [0..<6] = Inr (stable_sort cyclic_less [0..<6])"
    by (rule stable_sort_exn_ok) (simp add: cyclic_sample_less)
  also have "stable_sort cyclic_less [0..<6] = [4, 3, 1, 0, 5, 2]" by (simp add: upt_rec stable_sort.simps cyclic_less_def)
  finally show ?thesis .
qed

text \<open>
  C12: The documentation promises that nothing crashes when a comparator has cycles. A uniform
  plan with six buckets and six elements is a counterexample: the sorted sample has length 6
  and the chosen split position is 6, so \<open>estimate\<close> reads the sample past its end.
\<close>

theorem cyclic_comparator_reads_past_end:
  "of_comparator ''c'' (Some cyclic_compare) = Inr cyclic_key
   \<and> (\<exists>plan. plan_uniform 6 = Inr plan
        \<and> (\<exists>srt. stable_sort_exn (sample_less cyclic_key [0..<6] []) (sample_indices 6 (sample_size plan) (seed plan)) = Inr srt
            \<and> length srt = 6
            \<and> split_positions cyclic_key [0..<6] [] srt (desired_positions (length srt) 6 (target_sizes plan 6)) = Inr [6]))"
proof (intro conjI exI)
  let ?lt = "sample_less cyclic_key [0..<6] []" and ?srt = "[4, 3, 1, 0, 5, 2] :: nat list"
  let ?plan = "(mk_plan Uniform)\<lparr>max_buckets := 6\<rparr>"
  show "of_comparator ''c'' (Some cyclic_compare) = Inr cyclic_key"
    by (simp add: of_comparator_def mk_sort_key_def cyclic_key_def)
  show "plan_uniform 6 = Inr ?plan" by (simp add: plan_uniform_def require_positive_def max_bucket_limit_def)
  have sample: "sample_indices 6 (sample_size ?plan) (seed ?plan) = [0..<6]" by (rule sample_all) (simp add: mk_plan_def)
  have targets: "target_sizes ?plan 6 = replicate 6 1"
    by (simp add: target_sizes_def uniform_sizes_def mk_plan_def)
  have desired: "desired_positions 6 6 (replicate 6 1) = [1, 2, 3, 4, 5]"
  proof -
    have "[0..<5] = [0, 1, 2, 3, 4]" by (simp add: upt_rec)
    then show ?thesis by (simp add: desired_positions_def desired_step_def size_t_def Let_def)
  qed
  have "lower_bound cyclic_less ?srt 3 = 6" "lower_bound cyclic_less ?srt 1 = 2" "lower_bound cyclic_less ?srt 0 = 0"
    "lower_bound cyclic_less ?srt 5 = 4" "lower_bound cyclic_less ?srt 2 = 5"
    by (simp_all add: lower_bound_def bisect.simps cyclic_less_def Let_def)
  moreover have "upper_bound cyclic_less ?srt 3 = 6" "upper_bound cyclic_less ?srt 1 = 3" "upper_bound cyclic_less ?srt 0 = 4"
    "upper_bound cyclic_less ?srt 5 = 5" "upper_bound cyclic_less ?srt 2 = 6"
    by (simp_all add: upper_bound_def bisect.simps cyclic_less_def Let_def)
  moreover have "lower_bound_exn ?lt ?srt v = Inr (lower_bound cyclic_less ?srt v)"
    "upper_bound_exn ?lt ?srt v = Inr (upper_bound cyclic_less ?srt v)" if "v < 6" for v
    using that by (auto intro!: lower_bound_exn_ok upper_bound_exn_ok cyclic_sample_less)
  moreover have len: "length ?srt = 6" by simp
  ultimately have split: "split_positions cyclic_key [0..<6] [] ?srt [1, 2, 3, 4, 5] = Inr [6]"
    by (simp add: split_positions_def choose_split_positions_def split_step_def size_t_diff_def)
  show "stable_sort_exn ?lt (sample_indices 6 (sample_size ?plan) (seed ?plan)) = Inr ?srt"
    unfolding sample by (rule cyclic_sorted)
  show "split_positions cyclic_key [0..<6] [] ?srt (desired_positions (length ?srt) 6 (target_sizes ?plan 6)) = Inr [6]"
    unfolding targets len desired by (rule split)
  show "length ?srt = 6" by (rule len)
qed

end
