(* ===== verification/Natural_Compare.thy ===== *)
theory Natural_Compare
  imports Sort_Keys "HOL-Library.List_Lexorder" "HOL-Library.Product_Lexorder"
begin

text \<open>
  The natural comparison of the file browser (\<open>examples/bucketization/file_browser.cpp\<close>):
  case-insensitive, runs of digits by value, equal names by bytes. It is shown to be the
  order of a key in a linear order, and so a lawful comparator for \<open>SortKey\<close>. Characters are
  bytes; \<open>std::isdigit\<close> and \<open>std::tolower\<close> are those of the C locale.
\<close>

section \<open>The comparison\<close>

definition is_digit :: "byte \<Rightarrow> bool" where
  "is_digit c \<longleftrightarrow> 48 \<le> c \<and> c \<le> 57"

definition to_lower :: "byte \<Rightarrow> byte" where
  "to_lower c = (if 65 \<le> c \<and> c \<le> 90 then c + 32 else c)"

text \<open>The digits of the run that starts here without leading zeros, and the text behind the run.\<close>

definition digit_run :: "byte list \<Rightarrow> byte list" where
  "digit_run xs = takeWhile is_digit (dropWhile (\<lambda>c. c = 48) xs)"

definition after_run :: "byte list \<Rightarrow> byte list" where
  "after_run xs = dropWhile is_digit (dropWhile (\<lambda>c. c = 48) xs)"

lemma length_dropWhile: "length (dropWhile p xs) \<le> length xs"
  by (induction xs) auto

lemma after_run_shorter: "is_digit x \<Longrightarrow> length (after_run (x # xs)) \<le> length xs"
proof -
  assume "is_digit x"
  then have "length (after_run (x # xs)) \<le> length (dropWhile (\<lambda>c. c = 48) xs)
      \<or> length (after_run (x # xs)) \<le> length (dropWhile is_digit xs)"
    using length_dropWhile[of is_digit] by (auto simp: after_run_def)
  then show ?thesis using length_dropWhile le_trans by blast
qed

text \<open>The loop on what is left of both names; \<open>a\<close> and \<open>b\<close> are the whole names.\<close>

function natural_loop :: "byte list \<Rightarrow> byte list \<Rightarrow> byte list \<Rightarrow> byte list \<Rightarrow> int" where
  "natural_loop a b (x # xs) (y # ys) =
     (if is_digit x \<and> is_digit y then
        let da = digit_run (x # xs); db = digit_run (y # ys)
        in if length da \<noteq> length db then if length da < length db then -1 else 1
           else let c = string_compare da db
                in if c \<noteq> 0 then if c < 0 then -1 else 1
                   else natural_loop a b (after_run (x # xs)) (after_run (y # ys))
      else
        let ca = to_lower x; cb = to_lower y
        in if ca \<noteq> cb then if ca < cb then -1 else 1 else natural_loop a b xs ys)"
| "natural_loop a b [] ys =
     (if length ys \<noteq> 0 then -1 else let c = string_compare a b in (if 0 < c then 1 else 0) - (if c < 0 then 1 else 0))"
| "natural_loop a b (x # xs) [] = 1"
  by pat_completeness auto
termination
  by (relation "measure (\<lambda>(a, b, xs, ys). length xs)") (auto simp: le_imp_less_Suc after_run_shorter)

definition natural_compare :: "byte list \<Rightarrow> byte list \<Rightarrow> int" where
  "natural_compare a b = natural_loop a b a b"

section \<open>The key it compares by\<close>

text \<open>
  A name is a list of pieces: characters below the digits, runs of digits, characters above
  the digits; runs are ordered by length without leading zeros, then digit by digit.
\<close>

function natural_key :: "byte list \<Rightarrow> (nat \<times> nat \<times> byte list) list" where
  "natural_key [] = []"
| "natural_key (x # xs) =
     (if is_digit x then (1, length (digit_run (x # xs)), digit_run (x # xs)) # natural_key (after_run (x # xs))
      else (if to_lower x < 48 then 0 else 2, unat (to_lower x), []) # natural_key xs)"
  by pat_completeness auto
termination
  by (relation "measure length") (auto simp: le_imp_less_Suc after_run_shorter)

lemma string_compare_lex: "string_compare a b < 0 \<longleftrightarrow> a < b" "0 < string_compare a b \<longleftrightarrow> b < a"
  by (induction a b rule: string_compare.induct) auto

lemma lower_digit: "is_digit c \<Longrightarrow> to_lower c = c"
  by (auto simp: is_digit_def to_lower_def word_le_nat_alt)

lemma lower_not_digit: "\<not> is_digit c \<Longrightarrow> \<not> is_digit (to_lower c)"
proof (cases "65 \<le> c \<and> c \<le> 90")
  case True
  then have "unat (c + 32) = unat c + 32" by (simp add: word_le_nat_alt unat_word_ariths)
  then show ?thesis using True by (simp add: is_digit_def to_lower_def word_le_nat_alt)
qed (auto simp: to_lower_def)

lemma natural_loop_key:
  "natural_loop a b xs ys = then_compare (key_compare (\<lambda>(name, rest). natural_key rest)) (\<lambda>(a, _) (b, _). sign_of (string_compare a b)) (a, xs) (b, ys)"
proof (induction a b xs ys rule: natural_loop.induct)
  case (1 a b x xs y ys)
  show ?case
  proof (cases "is_digit x \<and> is_digit y")
    case True
    let ?da = "digit_run (x # xs)" and ?db = "digit_run (y # ys)"
    consider "length ?da \<noteq> length ?db" | "length ?da = length ?db" "string_compare ?da ?db \<noteq> 0" | "string_compare ?da ?db = 0"
      by blast
    then show ?thesis
    proof cases
      case 1
      then show ?thesis using True by (auto simp: then_compare_def key_compare_def)
    next
      case 2
      then show ?thesis
        using True string_compare_lex[of ?da ?db] by (auto simp: then_compare_def key_compare_def)
    next
      case 3
      then have eq: "?da = ?db" by (simp add: string_compare_eq)
      have "natural_loop a b (x # xs) (y # ys) = natural_loop a b (after_run (x # xs)) (after_run (y # ys))"
        using True eq by (simp add: string_compare_eq)
      moreover have "length ?da = length ?db" using eq by simp
      ultimately show ?thesis using "1.IH"(1)[OF True refl refl _ refl] 3 True eq
        by (simp add: then_compare_def key_compare_def)
    qed
  next
    case False
    let ?ca = "to_lower x" and ?cb = "to_lower y"
    let ?kx = "natural_key (x # xs)" and ?ky = "natural_key (y # ys)"
    show ?thesis
    proof (cases "?ca = ?cb")
      case True
      then have both: "\<not> is_digit x" "\<not> is_digit y"
        using False lower_digit lower_not_digit by (metis, metis)
      then show ?thesis using "1.IH"(2)[OF False refl refl] True by (simp add: then_compare_def key_compare_def)
    next
      case ne: False
      have "(?ca < ?cb \<longleftrightarrow> ?kx < ?ky) \<and> (?cb < ?ca \<longleftrightarrow> ?ky < ?kx)"
      proof (cases "is_digit x")
        case True
        then have "\<not> is_digit ?cb" "48 \<le> ?ca" "?ca \<le> 57"
          using False lower_not_digit lower_digit[of x] by (auto simp: is_digit_def)
        then show ?thesis using True False by (auto simp: is_digit_def)
      next
        case x: False
        then have cx: "\<not> is_digit ?ca" by (rule lower_not_digit)
        show ?thesis
        proof (cases "is_digit y")
          case True
          then have "48 \<le> ?cb" "?cb \<le> 57" using lower_digit[of y] by (auto simp: is_digit_def)
          then show ?thesis using True x cx by (auto simp: is_digit_def)
        next
          case y: False
          then have "\<not> is_digit ?cb" by (rule lower_not_digit)
          moreover have "unat ?ca \<noteq> unat ?cb" using ne by (simp add: word_unat_eq_iff)
          ultimately show ?thesis using x y cx by (auto simp: is_digit_def word_less_nat_alt word_le_nat_alt)
        qed
      qed
      then show ?thesis using False ne by (auto simp: then_compare_def key_compare_def Let_def simp del: natural_key.simps)
    qed
  qed
next
  case (2 a b ys)
  then show ?case by (cases ys) (auto simp: then_compare_def key_compare_def sign_of_def Let_def)
next
  case (3 a b x xs)
  then show ?case by (auto simp: then_compare_def key_compare_def)
qed

lemma natural_compare_key:
  "natural_compare = then_compare (key_compare natural_key) (\<lambda>a b. sign_of (string_compare a b))"
  by (simp add: fun_eq_iff natural_compare_def natural_loop_key then_compare_def key_compare_def)

interpretation natural_order: three_way natural_compare
  unfolding natural_compare_key
  by (intro three_way_then three_way_key_compare) (rule three_way_string_sign[of "\<lambda>x. x"])

section \<open>Properties\<close>

text \<open>
  C29: The natural comparison is a total order, as its comment says: antisymmetric with exact
  signs, transitive, equal only for equal names, and it never answers anything but -1, 0, 1.
  So it is a lawful comparator, and a sort key made of it is accepted and lawful.
\<close>

theorem natural_compare_total_order:
  "(natural_compare a b < 0 \<longleftrightarrow> 0 < natural_compare b a)
   \<and> (natural_compare a b \<le> 0 \<longrightarrow> natural_compare b c \<le> 0 \<longrightarrow> natural_compare a c \<le> 0)
   \<and> (natural_compare a b = 0 \<longleftrightarrow> a = b) \<and> natural_compare a b \<in> {-1, 0, 1}
   \<and> (case of_comparator ''natural'' (Some (\<lambda>x y. natural_compare (f x) (f y))) of
        Inl _ \<Rightarrow> False | Inr k \<Rightarrow> wf_key k \<and> lawful_key k)"
proof -
  let ?k = "\<lparr>sk_name = ''natural'', sk_key = None, sk_compare = Some (\<lambda>x y. natural_compare (f x) (f y)), sk_groups = 1, sk_group = None\<rparr>"
  have "tie_break ?k = (\<lambda>x y. natural_compare (f x) (f y))" by (simp add: tie_break_def fun_eq_iff)
  then have "lawful_key ?k" using three_way_map[OF natural_order.three_way_axioms, of f] by (intro lawful_keyI) simp
  moreover have "wf_key ?k" by (simp add: wf_key_def max_groups_def)
  moreover have "natural_compare a b = 0 \<longleftrightarrow> a = b"
    by (auto simp: natural_compare_key then_compare_def key_compare_def sign_of_def string_compare_eq split: if_splits)
  moreover have "natural_compare a b \<in> {-1, 0, 1}"
    by (auto simp: natural_compare_key then_compare_def key_compare_def sign_of_def)
  ultimately show ?thesis using natural_order.cmp_flip natural_order.cmp_trans
    by (simp add: of_comparator_def mk_sort_key_def)
qed

theorem natural_compare_total_order_witness: "natural_compare [65, 50] [97, 49, 48] < 0 \<longleftrightarrow> 0 < natural_compare [97, 49, 48] [65, 50]"
  using natural_compare_total_order[of "[65, 50]" "[97, 49, 48]" "[]" id] by (rule conjunct1)

text \<open>
  The documented order on examples: \<open>file2\<close> before \<open>file10\<close>, \<open>File2\<close> between \<open>file1\<close> and
  \<open>file3\<close> (case does not matter), leading zeros do not count except to tell equal names
  apart, and a prefix comes first.
\<close>

theorem natural_compare_examples:
  "natural_compare [102, 50] [102, 49, 48] = -1 \<and> natural_compare [70, 50] [102, 49] = 1 \<and> natural_compare [70, 50] [102, 51] = -1
   \<and> natural_compare [97, 48, 48, 55] [97, 55] = -1 \<and> natural_compare [97] [97, 98] = -1
   \<and> natural_compare [49, 48, 120] [49, 48, 88] = 1"
  by (simp add: natural_compare_def digit_run_def after_run_def is_digit_def to_lower_def)

end
