(* ===== verification/File_Browser.thy ===== *)
theory File_Browser
  imports Index_Statistics Natural_Compare
begin

text \<open>
  The file browser of \<open>examples/bucketization/file_browser.cpp\<close>: four sort keys on directory
  entries and the pages it prints. Reading the directory and printing are not modelled: the
  entries are an argument, the pages are the result. The theorem describes every page
  without reference to buckets; it rests on the refinement of the plain collection.
\<close>

section \<open>The program\<close>

record entry =
  en_name :: "byte list"
  en_is_dir :: bool
  en_size :: u64
  en_modified :: u64

text \<open>The keys of \<open>main\<close>, in the order they are added.\<close>

definition modified_key :: "exn + entry sort_key" where
  "modified_key =
     (case of_exact ''modified'' (\<lambda>e. V_signed (en_modified e)) of
        Inl e \<Rightarrow> Inl e
      | Inr k \<Rightarrow> with_groups k 2 (Some (\<lambda>e. if en_is_dir e then 0 else 1)))"

definition browser_keys :: "(exn + entry sort_key) list" where
  "browser_keys =
     [of_string ''name'' en_name,
      of_comparator ''natural'' (Some (\<lambda>a b. natural_compare (en_name a) (en_name b))),
      of_exact ''size'' (\<lambda>e. V_signed (en_size e)),
      modified_key]"

definition browser_plan :: "nat \<Rightarrow> exn + bucket_plan" where
  "browser_plan rows = (case plan_defaults of Inl e \<Rightarrow> Inl e | Inr p \<Rightarrow> with_page_size p rows)"

text \<open>\<open>print_page\<close> reads the first rows and asks for the direction and the active key.\<close>

definition print_page :: "nat \<Rightarrow> entry request list" where
  "print_page rows = [Range 0 rows, Direction_of, Active_sort_key]"

definition browse :: "nat \<Rightarrow> entry list \<Rightarrow> entry request list" where
  "browse rows entries =
     [Add_all entries, Size_of, Sort_by ''natural'' Ascending] @ print_page rows
     @ [Sort_by ''size'' Descending] @ print_page rows
     @ [Sort_by ''modified'' Descending] @ print_page rows
     @ [Sort_by ''name'' Ascending] @ print_page rows"

text \<open>
  The calls of \<open>main\<close> in order: their replies and the statistics of the size key. A factory
  or constructor that throws ends the program.
\<close>

fun made :: "(exn + 'b) list \<Rightarrow> exn + 'b list" where
  "made [] = Inr []"
| "made (Inl e # rs) = Inl e"
| "made (Inr x # rs) = map_sum id (Cons x) (made rs)"

definition browser_main :: "nat \<Rightarrow> entry list \<Rightarrow> exn + (entry reply list \<times> (exn + bucket_stats))" where
  "browser_main rows entries =
     (case browser_plan rows of
        Inl e \<Rightarrow> Inl e
      | Inr plan \<Rightarrow>
          (case made browser_keys of
             Inl e \<Rightarrow> Inl e
           | Inr keys \<Rightarrow>
               (case run_requests (map Add_sort_key keys @ browse rows entries) (new_index plan) of
                  (replies, ix) \<Rightarrow> Inr (replies, stats ''size'' ix))))"

section \<open>The sort keys\<close>

definition name_k :: "entry sort_key" where
  "name_k = \<lparr>sk_name = ''name'', sk_key = Some (\<lambda>e. from_string (en_name e)),
     sk_compare = Some (\<lambda>a b. sign_of (string_compare (en_name a) (en_name b))), sk_groups = 1, sk_group = None\<rparr>"

definition natural_k :: "entry sort_key" where
  "natural_k = \<lparr>sk_name = ''natural'', sk_key = None,
     sk_compare = Some (\<lambda>a b. natural_compare (en_name a) (en_name b)), sk_groups = 1, sk_group = None\<rparr>"

definition size_k :: "entry sort_key" where
  "size_k = \<lparr>sk_name = ''size'', sk_key = Some (\<lambda>e. from_signed (en_size e)), sk_compare = None, sk_groups = 1, sk_group = None\<rparr>"

definition modified_k :: "entry sort_key" where
  "modified_k = \<lparr>sk_name = ''modified'', sk_key = Some (\<lambda>e. from_signed (en_modified e)), sk_compare = None,
     sk_groups = 2, sk_group = Some (\<lambda>e. if en_is_dir e then 0 else 1)\<rparr>"

lemma browser_keys_made: "made browser_keys = Inr [name_k, natural_k, size_k, modified_k]"
  by (simp add: browser_keys_def of_string_def of_comparator_def of_exact_def modified_key_def of_key_def mk_sort_key_def
      with_groups_def max_groups_def name_k_def natural_k_def size_k_def modified_k_def sign_of_def Let_def)

lemma browser_names [simp]:
  "sk_name name_k = ''name''" "sk_name natural_k = ''natural''" "sk_name size_k = ''size''" "sk_name modified_k = ''modified''"
  by (simp_all add: name_k_def natural_k_def size_k_def modified_k_def)

lemma browser_keys_wf [simp]: "wf_key name_k" "wf_key natural_k" "wf_key size_k" "wf_key modified_k"
  by (simp_all add: name_k_def natural_k_def size_k_def modified_k_def wf_key_def max_groups_def)

lemma browser_keys_valid [simp]: "valid_item name_k e" "valid_item natural_k e" "valid_item size_k e" "valid_item modified_k e"
  by (simp_all add: name_k_def natural_k_def size_k_def modified_k_def valid_item_def)

lemma browser_keys_lawful [simp]: "lawful_key name_k" "lawful_key natural_k" "lawful_key size_k" "lawful_key modified_k"
proof -
  have "tie_break name_k = (\<lambda>a b. sign_of (string_compare (en_name a) (en_name b)))"
    by (simp add: name_k_def tie_break_def fun_eq_iff)
  then show "lawful_key name_k" using three_way_string_sign[of en_name] by (intro lawful_keyI) simp
  have "tie_break natural_k = (\<lambda>a b. natural_compare (en_name a) (en_name b))"
    by (simp add: natural_k_def tie_break_def fun_eq_iff)
  then show "lawful_key natural_k" using three_way_map[OF natural_order.three_way_axioms, of en_name] by (intro lawful_keyI) simp
  show "lawful_key size_k" "lawful_key modified_k" by (rule lawful_no_compare, simp add: size_k_def modified_k_def)+
qed

lemma browser_orders:
  "order_cmp name_k a b < 0 \<longleftrightarrow> string_compare (en_name a) (en_name b) < 0"
  "order_cmp natural_k a b < 0 \<longleftrightarrow> natural_compare (en_name a) (en_name b) < 0"
  "order_cmp size_k a b < 0 \<longleftrightarrow> sint (en_size a) < sint (en_size b)"
proof -
  show "order_cmp name_k a b < 0 \<longleftrightarrow> string_compare (en_name a) (en_name b) < 0"
    using string_compare_le_key[of "en_name a" "en_name b"] string_compare_le_key[of "en_name b" "en_name a"]
      string_compare_flip[of "en_name b" "en_name a"]
    by (auto simp: order_cmp_def then_compare_def key_compare_def compare_in_group_def group_number_def has_key_def
        key_of_def tie_break_def name_k_def sign_of_def)
  show "order_cmp natural_k a b < 0 \<longleftrightarrow> natural_compare (en_name a) (en_name b) < 0"
    by (simp add: order_cmp_def then_compare_def key_compare_def compare_in_group_def group_number_def has_key_def
        tie_break_def natural_k_def)
  show "order_cmp size_k a b < 0 \<longleftrightarrow> sint (en_size a) < sint (en_size b)"
    using from_signed_less[of "en_size a" "en_size b"]
    by (auto simp: order_cmp_def then_compare_def key_compare_def compare_in_group_def group_number_def has_key_def
        key_of_def tie_break_def size_k_def)
qed

text \<open>Directories first, oldest first within each kind.\<close>

definition dirs_then_oldest :: "entry \<Rightarrow> entry \<Rightarrow> bool" where
  "dirs_then_oldest a b \<longleftrightarrow>
     en_is_dir a \<and> \<not> en_is_dir b \<or> en_is_dir a = en_is_dir b \<and> sint (en_modified a) < sint (en_modified b)"

lemma browser_order_modified: "order_cmp modified_k a b < 0 \<longleftrightarrow> dirs_then_oldest a b"
  using from_signed_less[of "en_modified a" "en_modified b"]
  by (auto simp: order_cmp_def then_compare_def key_compare_def compare_in_group_def group_number_def has_key_def
      key_of_def tie_break_def modified_k_def dirs_then_oldest_def)

lemma view_name: "view name_k Ascending es = stable_sort (\<lambda>a b. string_compare (en_name a) (en_name b) < 0) es"
  by (simp add: view_def browser_orders)

lemma view_natural: "view natural_k Ascending es = stable_sort (\<lambda>a b. natural_compare (en_name a) (en_name b) < 0) es"
  by (simp add: view_def browser_orders)

lemma view_size: "view size_k Descending es = rev (stable_sort (\<lambda>a b. sint (en_size a) < sint (en_size b)) es)"
proof -
  have "group_number size_k x = 0" "sk_groups size_k = 1" for x by (simp_all add: size_k_def group_number_def)
  then show ?thesis by (simp add: view_def browser_orders Let_def)
qed

lemma view_modified: "view modified_k Descending es =
  (let old = stable_sort dirs_then_oldest es in rev (filter en_is_dir old) @ rev (filter (\<lambda>e. \<not> en_is_dir e) old))"
proof -
  have group: "group_number modified_k x = (if en_is_dir x then 0 else 1)" "sk_groups modified_k = 2" for x
    by (simp_all add: modified_k_def group_number_def)
  have "dirs_then_oldest = (\<lambda>a b. order_cmp modified_k a b < 0)"
    by (simp add: browser_order_modified fun_eq_iff)
  moreover have "[0..<sk_groups modified_k] = [0, 1]" by (simp add: group upt_rec numeral_2_eq_2)
  moreover have "group_number modified_k x = 0 \<longleftrightarrow> en_is_dir x" "group_number modified_k x = 1 \<longleftrightarrow> \<not> en_is_dir x" for x
    by (simp_all add: group)
  ultimately show ?thesis by (simp add: view_def Let_def)
qed

section \<open>What the program prints\<close>

lemma browser_plan_ok:
  assumes "0 < rows" and "rows < 2 ^ 63"
  obtains plan where "browser_plan rows = Inr plan" and "wf_plan plan"
proof -
  have "\<not> f64_lt (Fin False 2 0) f64_one" "f64_isfinite (Fin False 2 0)" "at_least_one (Fin False 2 0)"
    by (simp_all add: f64_one_def signed_nat_def)
  then have "browser_plan rows = Inr ((mk_plan Geometric)\<lparr>page_size := rows, growth := Fin False 2 0\<rparr>)"
    and "wf_plan ((mk_plan Geometric)\<lparr>page_size := rows, growth := Fin False 2 0\<rparr>)"
    using assms wf_mk_plan(1)
    by (simp_all add: browser_plan_def plan_defaults_def plan_geometric_def require_positive_def with_page_size_def
        wf_plan_def mk_plan_def default_page_size_def)
  then show ?thesis by (rule that)
qed

abbreviation main_requests :: "nat \<Rightarrow> entry list \<Rightarrow> entry request list" where
  "main_requests rows es \<equiv> map Add_sort_key [name_k, natural_k, size_k, modified_k] @ browse rows es"

lemma main_requests_spec:
  assumes "length es \<le> removed_slot"
  shows "admissible_run (main_requests rows es) (new_collection plan)"
    and "fst (spec_requests (main_requests rows es) (new_collection plan))
      = [Done, Done, Done, Done, Done, Count (length es),
         Done, Elements (take rows (view natural_k Ascending es)), Direction_is Ascending, Key_is (Some natural_k),
         Done, Elements (take rows (view size_k Descending es)), Direction_is Descending, Key_is (Some size_k),
         Done, Elements (take rows (view modified_k Descending es)), Direction_is Descending, Key_is (Some modified_k),
         Done, Elements (take rows (view name_k Ascending es)), Direction_is Ascending, Key_is (Some name_k)]"
    and "col_keys (snd (spec_requests (main_requests rows es) (new_collection plan))) = [name_k, natural_k, size_k, modified_k]"
    and "col_items (snd (spec_requests (main_requests rows es) (new_collection plan))) = es"
  using assms by (simp_all add: browse_def print_page_def new_collection_def key_named_def spec_add_all_def shown_def list_all_iff)

text \<open>
  The file browser shows what a file manager should. For every directory listing the four
  pages are the first rows of the entries sorted stably by natural name, by descending size,
  by descending modification time with the folders first, and by name; the counts are the
  number of entries and no call throws.
\<close>

theorem browser_pages:
  assumes "0 < rows" and "rows < 2 ^ 63" and "length es \<le> removed_slot"
  defines "old \<equiv> stable_sort dirs_then_oldest es"
  shows "\<exists>replies s. browser_main rows es = Inr (replies, Inr s) \<and> bs_size s = length es
    \<and> replies =
      [Done, Done, Done, Done, Done, Count (length es),
       Done, Elements (take rows (stable_sort (\<lambda>a b. natural_compare (en_name a) (en_name b) < 0) es)),
         Direction_is Ascending, Key_is (Some natural_k),
       Done, Elements (take rows (rev (stable_sort (\<lambda>a b. sint (en_size a) < sint (en_size b)) es))),
         Direction_is Descending, Key_is (Some size_k),
       Done, Elements (take rows (rev (filter en_is_dir old) @ rev (filter (\<lambda>e. \<not> en_is_dir e) old))),
         Direction_is Descending, Key_is (Some modified_k),
       Done, Elements (take rows (stable_sort (\<lambda>a b. string_compare (en_name a) (en_name b) < 0) es)),
         Direction_is Ascending, Key_is (Some name_k)]"
proof -
  obtain plan where plan: "browser_plan rows = Inr plan" "wf_plan plan" using browser_plan_ok[OF assms(1,2)] .
  let ?run = "run_requests (main_requests rows es) (new_index plan)"
  note spec = main_requests_spec[OF assms(3), of rows plan]
  have "admissible_run (main_requests rows es) (contents (new_index plan :: entry index))" using spec(1) by simp
  note run = run_requests_refine[OF new_index_inv[OF plan(2)] this]
  have "sort_key_names (snd ?run) = [''name'', ''natural'', ''size'', ''modified'']"
    using run spec(3) names_contents[of "snd ?run"] by simp
  moreover have "length (ix_items (snd ?run)) = length es"
    using run spec(4) contents_sel(2)[of "snd ?run"] by simp
  ultimately have "\<exists>s. stats ''size'' (snd ?run) = Inr s \<and> bs_size s = length es"
    using find_state_none[of "snd ?run" "''size''"] by (auto simp: stats_def require_state_def Let_def split: prod.splits option.splits)
  moreover have "browser_main rows es = Inr (fst ?run, stats ''size'' (snd ?run))"
    by (simp add: browser_main_def plan(1) browser_keys_made split: prod.splits)
  moreover have "fst ?run = fst (spec_requests (main_requests rows es) (new_collection plan))" using run by simp
  ultimately show ?thesis
    using spec(2) by (simp add: view_name view_natural view_size view_modified old_def Let_def)
qed

text \<open>The file \<open>f10\<close>, the newer and smaller file \<open>f2\<close> and the old directory \<open>d\<close>.\<close>

definition demo_entries :: "entry list" where
  "demo_entries =
     [\<lparr>en_name = [102, 49, 48], en_is_dir = False, en_size = 7, en_modified = 200\<rparr>,
      \<lparr>en_name = [102, 50], en_is_dir = False, en_size = 5, en_modified = 300\<rparr>,
      \<lparr>en_name = [100], en_is_dir = True, en_size = 0, en_modified = 100\<rparr>]"

theorem browser_pages_witness:
  "\<exists>replies s. browser_main 2 demo_entries = Inr (replies, Inr s) \<and> bs_size s = 3
    \<and> replies ! 7 = Elements [demo_entries ! 2, demo_entries ! 1]
    \<and> replies ! 11 = Elements [demo_entries ! 0, demo_entries ! 1]
    \<and> replies ! 15 = Elements [demo_entries ! 2, demo_entries ! 1]"
proof -
  let ?f10 = "demo_entries ! 0" and ?f2 = "demo_entries ! 1" and ?d = "demo_entries ! 2"
  have es: "demo_entries = [?f10, ?f2, ?d]" by (simp add: demo_entries_def)
  have "natural_compare (en_name ?f2) (en_name ?f10) < 0" "natural_compare (en_name ?d) (en_name ?f2) < 0"
    "natural_compare (en_name ?d) (en_name ?f10) < 0" "\<not> natural_compare (en_name ?f10) (en_name ?f2) < 0"
    by (simp_all add: demo_entries_def natural_compare_def digit_run_def after_run_def is_digit_def to_lower_def)
  then have natural: "stable_sort (\<lambda>a b. natural_compare (en_name a) (en_name b) < 0) demo_entries = [?d, ?f2, ?f10]"
    by (subst es) (simp add: stable_sort.simps)
  have size: "stable_sort (\<lambda>a b. sint (en_size a) < sint (en_size b)) demo_entries = [?d, ?f2, ?f10]"
    by (simp add: stable_sort.simps demo_entries_def)
  have old: "stable_sort dirs_then_oldest demo_entries = [?d, ?f10, ?f2]"
    by (simp add: stable_sort.simps demo_entries_def dirs_then_oldest_def)
  have dirs: "en_is_dir ?d" "\<not> en_is_dir ?f10" "\<not> en_is_dir ?f2" and len: "length demo_entries = 3"
    by (simp_all add: demo_entries_def)
  from browser_pages[of 2 demo_entries] show ?thesis
    by (simp add: len removed_slot_def natural size old dirs[unfolded One_nat_def]) auto
qed

end
