(* ===== verification/Decimal_Text.thy ===== *)
theory Decimal_Text
  imports SU_Prelude "HOL-Library.Char_ord"
begin

text \<open>
  Numbers as text: what \<open>printf\<close> writes for \<open>%lld\<close> and \<open>%zu\<close>, and what \<open>std::stoul\<close> reads.
  A number that is printed is read back.
\<close>

section \<open>Printing\<close>

definition digit_char :: "nat \<Rightarrow> char" where
  "digit_char d = char_of (48 + d)"

text \<open>A number that is not negative.\<close>

fun decimal :: "nat \<Rightarrow> string" where
  "decimal n = (if n < 10 then [digit_char n] else decimal (n div 10) @ [digit_char (n mod 10)])"

declare decimal.simps [simp del]

section \<open>Reading\<close>

definition is_digit_char :: "char \<Rightarrow> bool" where
  "is_digit_char c \<longleftrightarrow> 48 \<le> (of_char c :: nat) \<and> (of_char c :: nat) \<le> 57"

definition is_space_char :: "char \<Rightarrow> bool" where
  "is_space_char c \<longleftrightarrow> (of_char c :: nat) = 32 \<or> 9 \<le> (of_char c :: nat) \<and> (of_char c :: nat) \<le> 13"

definition digits_value :: "string \<Rightarrow> nat" where
  "digits_value ds = fold (\<lambda>c v. v * 10 + (of_char c - 48)) ds 0"

text \<open>
  \<open>std::stoul\<close> in base 10 with a 64-bit \<open>unsigned long\<close>: leading space, an optional sign and
  digits; a negative number wraps, text after the digits is ignored.
\<close>

definition stoul :: "string \<Rightarrow> exn + nat" where
  "stoul s =
     (let s = dropWhile is_space_char s;
          negative = (s \<noteq> [] \<and> hd s = CHR ''-'');
          ds = takeWhile is_digit_char (if s \<noteq> [] \<and> (hd s = CHR ''-'' \<or> hd s = CHR ''+'') then tl s else s);
          v = digits_value ds
      in if ds = [] then Inl (Invalid_argument ''stoul'')
         else if 2 ^ 64 \<le> v then Inl (Out_of_range ''stoul'')
         else Inr (if negative then (2 ^ 64 - v) mod 2 ^ 64 else v))"

section \<open>Round trip\<close>

lemma of_digit_char: "d < 10 \<Longrightarrow> of_char (digit_char d) = 48 + d" for d :: nat
  by (simp add: digit_char_def)

lemma is_digit_digit_char: "d < 10 \<Longrightarrow> is_digit_char (digit_char d)"
  by (simp add: is_digit_char_def of_digit_char)

lemma digits_decimal: "list_all is_digit_char (decimal n)"
proof (induction n rule: decimal.induct)
  case (1 n)
  then show ?case using is_digit_digit_char[of n] is_digit_digit_char[of "n mod 10"] by (subst decimal.simps) auto
qed

lemma decimal_nonempty: "decimal n \<noteq> []"
  by (subst decimal.simps) simp

lemma digits_value_decimal: "digits_value (decimal n) = n"
proof (induction n rule: decimal.induct)
  case (1 n)
  show ?case
  proof (cases "n < 10")
    case True
    then show ?thesis using of_digit_char[of n] by (subst decimal.simps) (simp add: digits_value_def)
  next
    case False
    then have "digits_value (decimal n) = digits_value (decimal (n div 10)) * 10 + n mod 10"
      using of_digit_char[of "n mod 10"] by (subst decimal.simps) (simp add: digits_value_def)
    then show ?thesis using 1 False by simp
  qed
qed

lemma no_digit: "\<not> is_digit_char CHR '',''" "\<not> is_digit_char CHR ''-''" "\<not> is_digit_char CHR ''+''"
  by (simp_all add: is_digit_char_def)

lemma decimal_comma: "CHR '','' \<notin> set (decimal n)"
  using digits_decimal[of n] no_digit(1) by (auto simp: list_all_iff)

lemma stoul_decimal: "n < 2 ^ 64 \<Longrightarrow> stoul (decimal n) = Inr n"
proof -
  assume n: "n < 2 ^ 64"
  obtain c cs where d: "decimal n = c # cs" using decimal_nonempty[of n] by (cases "decimal n") auto
  then have c: "is_digit_char c" using digits_decimal[of n] by simp
  then have space: "\<not> is_space_char c" by (auto simp: is_digit_char_def is_space_char_def)
  have taken: "takeWhile is_digit_char (c # cs) = c # cs"
    using digits_decimal[of n] unfolding d by (simp add: takeWhile_eq_all_conv list_all_iff)
  have sign: "c \<noteq> CHR ''-''" "c \<noteq> CHR ''+''" using c no_digit by auto
  have "digits_value (c # cs) = n" using digits_value_decimal[of n] d by simp
  then show ?thesis
    unfolding d stoul_def Let_def dropWhile.simps if_not_P[OF space] using sign taken n by simp
qed

end
