(* ===== verification/File_Browser_Main.thy ===== *)
theory File_Browser_Main
  imports File_Browser Decimal_Text
begin

text \<open>
  \<open>main\<close> of \<open>examples/bucketization/file_browser.cpp\<close> from its arguments to its exit code:
  reading the number of rows, turning directory entries into elements, and the check of the
  error code after the loop. The operating system's answers about the directory are an
  argument; a question about an entry answers with a value or an error message. The text
  printed is left out.
\<close>

section \<open>Directory entries\<close>

text \<open>
  Clock readings are 64-bit signed numbers of ticks, 10^9 per second as with libstdc++, where
  the file clock has the same ticks. The clocks are read once for every entry.
\<close>

record entry_info =
  fi_name :: "byte list"
  fi_is_directory :: "string + bool"
  fi_size :: "string + u64"
  fi_written :: "string + u64"
  fi_system_now :: u64
  fi_file_now :: u64

text \<open>
  The calls that take an error code return a fixed value on error and set or clear the code:
  \<open>false\<close>, the largest \<open>uintmax_t\<close>, the smallest file time.
\<close>

definition with_error_code :: "'v \<Rightarrow> string + 'v \<Rightarrow> 'v \<times> string option" where
  "with_error_code failure r = (case r of Inl e \<Rightarrow> (failure, Some e) | Inr v \<Rightarrow> (v, None))"

definition ticks_per_second :: int where
  "ticks_per_second = 10 ^ 9"

text \<open>\<open>duration_cast\<close> to seconds truncates towards zero.\<close>

definition to_seconds :: "int \<Rightarrow> int" where
  "to_seconds t = (if 0 \<le> t then t div ticks_per_second else - ((- t) div ticks_per_second))"

text \<open>
  One round of the loop: the element and the error code left behind. The arithmetic on ticks
  is that of \<open>int64_t\<close>; where it overflows, which C++ leaves undefined, the model wraps around.
\<close>

definition make_entry :: "entry_info \<Rightarrow> entry \<times> string option" where
  "make_entry fi =
     (let (is_dir, _) = with_error_code False (fi_is_directory fi);
          size = (if is_dir then 0 else fst (with_error_code (- 1) (fi_size fi)));
          (written, ec) = with_error_code (word_of_int (- (2 ^ 63))) (fi_written fi);
          as_system = fi_system_now fi + (written - fi_file_now fi)
      in (\<lparr>en_name = fi_name fi, en_is_dir = is_dir, en_size = size,
            en_modified = word_of_int (to_seconds (sint as_system))\<rparr>, ec))"

text \<open>
  The loop over \<open>directory_iterator(root, ec)\<close>; a directory that cannot be opened has no
  entries and sets the code.
\<close>

definition list_directory :: "string + entry_info list \<Rightarrow> entry list \<times> string option" where
  "list_directory dir =
     (case dir of
        Inl e \<Rightarrow> ([], Some e)
      | Inr fis \<Rightarrow> fold (\<lambda>fi (es, _). case make_entry fi of (e, ec) \<Rightarrow> (es @ [e], ec)) fis ([], None))"

section \<open>The program\<close>

definition rows_argument :: "string list \<Rightarrow> exn + nat" where
  "rows_argument argv = (if 2 < length argv then stoul (argv ! 2) else Inr 10)"

text \<open>The exit code and, unless the listing failed, the replies of the index; an exception ends the program.\<close>

definition browser_program ::
    "string list \<Rightarrow> string + entry_info list \<Rightarrow> exn + (nat \<times> (entry reply list \<times> (exn + bucket_stats)) option)" where
  "browser_program argv dir =
     (case rows_argument argv of
        Inl e \<Rightarrow> Inl e
      | Inr rows \<Rightarrow>
          (case list_directory dir of (entries, ec) \<Rightarrow>
             if ec \<noteq> None then Inr (1, None)
             else map_sum id (\<lambda>out. (0, Some out)) (browser_main rows entries)))"

section \<open>Listing\<close>

lemma list_fold:
  "fold (\<lambda>fi (es, _). case make_entry fi of (e, ec) \<Rightarrow> (es @ [e], ec)) fis (es, ec)
   = (es @ map (fst \<circ> make_entry) fis, if fis = [] then ec else snd (make_entry (last fis)))"
  by (induction fis arbitrary: es ec) (simp_all add: case_prod_beta)

lemma list_directory_entries:
  "list_directory (Inr fis) = (map (fst \<circ> make_entry) fis, if fis = [] then None else snd (make_entry (last fis)))"
  by (simp add: list_directory_def list_fold)

lemma make_entry_code: "snd (make_entry fi) = (case fi_written fi of Inl e \<Rightarrow> Some e | Inr _ \<Rightarrow> None)"
  by (simp add: make_entry_def with_error_code_def Let_def split: sum.splits)

lemma program_runs:
  assumes "rows_argument argv = Inr rows" and "snd (list_directory dir) = None"
  shows "browser_program argv dir = map_sum id (\<lambda>out. (0, Some out)) (browser_main rows (fst (list_directory dir)))"
  using assms by (simp add: browser_program_def case_prod_beta)

lemma browser_plan_zero: "browser_plan 0 = Inl (Invalid_argument ''BucketPlan: page_size must be > 0'')"
proof -
  have "\<not> f64_lt (Fin False 2 0) f64_one" by (simp add: f64_one_def signed_nat_def)
  then show ?thesis
    by (simp add: browser_plan_def plan_defaults_def plan_geometric_def require_positive_def with_page_size_def default_page_size_def)
qed

section \<open>The elements that are listed\<close>

text \<open>
  What an element is meant to be: directories have size 0, a size that cannot be read is -1,
  and the time is the exact time on the system clock, in whole seconds towards zero. A
  modification time that cannot be read counts as the smallest file time.
\<close>

definition written_ticks :: "entry_info \<Rightarrow> int" where
  "written_ticks fi = (case fi_written fi of Inl _ \<Rightarrow> - (2 ^ 63) | Inr w \<Rightarrow> sint w)"

definition exact_ticks :: "entry_info \<Rightarrow> int" where
  "exact_ticks fi = sint (fi_system_now fi) + (written_ticks fi - sint (fi_file_now fi))"

definition listed_entry :: "entry_info \<Rightarrow> entry" where
  "listed_entry fi =
     \<lparr>en_name = fi_name fi, en_is_dir = (fi_is_directory fi = Inr True),
      en_size = (if fi_is_directory fi = Inr True then 0 else case fi_size fi of Inl _ \<Rightarrow> - 1 | Inr n \<Rightarrow> n),
      en_modified = word_of_int (sgn (exact_ticks fi) * (\<bar>exact_ticks fi\<bar> div 10 ^ 9))\<rparr>"

text \<open>Neither the difference of the file times nor the sum overflows.\<close>

definition clocks_in_range :: "entry_info \<Rightarrow> bool" where
  "clocks_in_range fi \<longleftrightarrow>
     - (2 ^ 63) \<le> written_ticks fi - sint (fi_file_now fi) \<and> written_ticks fi - sint (fi_file_now fi) < 2 ^ 63
     \<and> - (2 ^ 63) \<le> exact_ticks fi \<and> exact_ticks fi < 2 ^ 63"

lemma sint_plus_exact: "- (2 ^ 63) \<le> sint x + sint y \<Longrightarrow> sint x + sint y < 2 ^ 63 \<Longrightarrow> sint (x + y) = sint x + sint y"
  for x y :: u64
  by (simp add: sint_word_ariths signed_take_bit_int_eq_self)

lemma sint_minus_exact: "- (2 ^ 63) \<le> sint x - sint y \<Longrightarrow> sint x - sint y < 2 ^ 63 \<Longrightarrow> sint (x - y) = sint x - sint y"
  for x y :: u64
  by (simp add: sint_word_ariths signed_take_bit_int_eq_self)

lemma to_seconds_truncates: "to_seconds t = sgn t * (\<bar>t\<bar> div 10 ^ 9)"
  by (cases "t = 0") (auto simp: to_seconds_def ticks_per_second_def sgn_if)

lemma make_entry_exact:
  assumes "clocks_in_range fi"
  shows "fst (make_entry fi) = listed_entry fi"
proof -
  let ?w = "fst (with_error_code (word_of_int (- (2 ^ 63))) (fi_written fi)) :: u64"
  have "sint (word_of_int (- (2 ^ 63)) :: u64) = - (2 ^ 63)" by code_simp
  then have w: "sint ?w = written_ticks fi" by (simp add: with_error_code_def written_ticks_def split: sum.split)
  have d: "sint (?w - fi_file_now fi) = written_ticks fi - sint (fi_file_now fi)"
    using assms unfolding clocks_in_range_def w[symmetric] by (intro sint_minus_exact) simp_all
  then have "sint (fi_system_now fi + (?w - fi_file_now fi)) = exact_ticks fi"
    using assms unfolding clocks_in_range_def exact_ticks_def d[symmetric] by (intro sint_plus_exact) simp_all
  then show ?thesis
    by (cases "fi_is_directory fi"; cases "fi_size fi")
      (simp_all add: make_entry_def listed_entry_def with_error_code_def case_prod_beta Let_def to_seconds_truncates)
qed

section \<open>Properties\<close>

text \<open>
  C25: The file browser from its command line to its pages. It is called with a directory and a
  positive number of rows; the modification time of the last entry, if there is one, can be
  read, and no entry's clock readings are so far apart that the 64-bit arithmetic on them
  overflows. Then it exits with 0 and each page shows the first rows of all entries under one
  of the four orders. An element has the size 0 if it is a directory, else the file size or -1
  if that cannot be read, and as time the exact system time of the last change in whole
  seconds. Errors about other entries do not stop it.
\<close>

theorem browser_program_pages:
  assumes "0 < rows" and "rows < 2 ^ 63" and "length fis \<le> removed_slot" and "list_all clocks_in_range fis"
    and "fis = [] \<or> (\<exists>w. fi_written (last fis) = Inr w)"
  defines "es \<equiv> map listed_entry fis"
  shows "\<exists>replies s. browser_program [prog, dir, decimal rows] (Inr fis) = Inr (0, Some (replies, Inr s))
    \<and> bs_size s = length fis \<and> replies ! 5 = Count (length fis)
    \<and> replies ! 7 = Elements (take rows (stable_sort (\<lambda>a b. natural_compare (en_name a) (en_name b) < 0) es))
    \<and> replies ! 11 = Elements (take rows (rev (stable_sort (\<lambda>a b. sint (en_size a) < sint (en_size b)) es)))
    \<and> replies ! 15 = Elements (take rows (let old = stable_sort dirs_then_oldest es
         in rev (filter en_is_dir old) @ rev (filter (\<lambda>e. \<not> en_is_dir e) old)))
    \<and> replies ! 19 = Elements (take rows (stable_sort (\<lambda>a b. string_compare (en_name a) (en_name b) < 0) es))"
proof -
  have "rows_argument [prog, dir, decimal rows] = Inr rows"
    using assms(2) by (simp add: rows_argument_def stoul_decimal)
  moreover have "map (fst \<circ> make_entry) fis = es"
    using assms(4) by (simp add: es_def list_all_iff make_entry_exact)
  then have "list_directory (Inr fis) = (es, None)"
    using assms(5) by (auto simp: list_directory_entries make_entry_code)
  ultimately have "browser_program [prog, dir, decimal rows] (Inr fis) = map_sum id (\<lambda>out. (0, Some out)) (browser_main rows es)"
    by (simp add: program_runs)
  moreover have "length es \<le> removed_slot" using assms(3) by (simp add: es_def)
  ultimately show ?thesis using browser_pages[OF assms(1,2), of es] by (auto simp: es_def Let_def)
qed

text \<open>
  A directory and two files; size and time of the first file cannot be read. The file clock is
  that of libstdc++, which counts from the year 2174.
\<close>

definition demo_file_now :: u64 where
  "demo_file_now = word_of_int (5 * 10 ^ 9 - 6437664000 * 10 ^ 9)"

definition demo_infos :: "entry_info list" where
  "demo_infos =
     [\<lparr>fi_name = [100], fi_is_directory = Inr True, fi_size = Inl ''is a directory'', fi_written = Inr (demo_file_now - 1),
       fi_system_now = 5 * 10 ^ 9, fi_file_now = demo_file_now\<rparr>,
      \<lparr>fi_name = [102], fi_is_directory = Inr False, fi_size = Inl ''denied'', fi_written = Inl ''denied'',
       fi_system_now = 5 * 10 ^ 9, fi_file_now = demo_file_now\<rparr>,
      \<lparr>fi_name = [103], fi_is_directory = Inr False, fi_size = Inr 7, fi_written = Inr demo_file_now,
       fi_system_now = 5 * 10 ^ 9, fi_file_now = demo_file_now\<rparr>]"

lemma demo_clocks:
  "sint demo_file_now = 5 * 10 ^ 9 - 6437664000 * 10 ^ 9"
  "sint (demo_file_now - 1) = 5 * 10 ^ 9 - 6437664000 * 10 ^ 9 - 1" "sint (5 * 10 ^ 9 :: u64) = 5 * 10 ^ 9"
  by code_simp+

lemma demo_infos_in_range: "list_all clocks_in_range demo_infos"
  by (simp add: demo_infos_def clocks_in_range_def exact_ticks_def written_ticks_def demo_clocks[simplified])

theorem browser_program_pages_witness:
  "\<exists>replies s. browser_program [''browse'', ''.'', ''1''] (Inr demo_infos) = Inr (0, Some (replies, Inr s))
    \<and> replies ! 11 = Elements [\<lparr>en_name = [103], en_is_dir = False, en_size = 7, en_modified = 5\<rparr>]"
proof -
  have one: "decimal 1 = ''1''" by (subst decimal.simps, simp add: digit_char_def) code_simp
  have last: "demo_infos = [] \<or> (\<exists>w. fi_written (last demo_infos) = Inr w)" by (simp add: demo_infos_def)
  have "rev (stable_sort (\<lambda>a b. sint (en_size a) < sint (en_size b)) (map listed_entry demo_infos))
      = map listed_entry [demo_infos ! 2, demo_infos ! 0, demo_infos ! 1]"
    by (simp add: stable_sort.simps demo_infos_def listed_entry_def)
  moreover have "listed_entry (demo_infos ! 2) = \<lparr>en_name = [103], en_is_dir = False, en_size = 7, en_modified = 5\<rparr>"
    by (simp add: demo_infos_def listed_entry_def exact_ticks_def written_ticks_def demo_clocks[simplified])
  moreover have "length demo_infos \<le> removed_slot" by (simp add: demo_infos_def removed_slot_def)
  ultimately show ?thesis
    using browser_program_pages[of 1 demo_infos "''browse''" "''.''", OF _ _ _ demo_infos_in_range last]
    by (auto simp: one[unfolded One_nat_def])
qed

text \<open>
  C26: The error check after the loop looks at the last question only. A file whose
  modification time cannot be read, such as a broken link, makes the program report that the
  directory cannot be listed if it is the last entry, and is listed if another one follows. A
  directory that cannot be opened, a row count of 0 and one that is no number end the program.
\<close>

theorem last_entry_decides:
  assumes "rows_argument argv = Inr rows" and "0 < rows" and "rows < 2 ^ 63" and "length fis + 2 \<le> removed_slot"
    and "fi_written bad = Inl e" and "fi_written good = Inr w"
  shows "browser_program argv (Inr (fis @ [bad])) = Inr (1, None)
    \<and> (\<exists>out. browser_program argv (Inr (fis @ [bad, good])) = Inr (0, Some out))
    \<and> browser_program argv (Inl e) = Inr (1, None)
    \<and> browser_program [prog, dir, ''0''] (Inr (fis @ [good])) = Inl (Invalid_argument ''BucketPlan: page_size must be > 0'')
    \<and> browser_program [prog, dir, ''ten''] (Inr fis) = Inl (Invalid_argument ''stoul'')"
proof (intro conjI)
  have "snd (list_directory (Inr (fis @ [bad]))) = Some e" by (simp add: list_directory_entries make_entry_code assms(5))
  then show "browser_program argv (Inr (fis @ [bad])) = Inr (1, None)"
    using assms(1) by (simp add: browser_program_def case_prod_beta)
  let ?es = "map (fst \<circ> make_entry) (fis @ [bad, good])"
  have "list_directory (Inr (fis @ [bad, good])) = (?es, None)" by (simp add: list_directory_entries make_entry_code assms(6))
  then have "browser_program argv (Inr (fis @ [bad, good])) = map_sum id (\<lambda>out. (0, Some out)) (browser_main rows ?es)"
    using program_runs[OF assms(1), of "Inr (fis @ [bad, good])"] by simp
  moreover have "length ?es \<le> removed_slot" using assms(4) by simp
  ultimately show "\<exists>out. browser_program argv (Inr (fis @ [bad, good])) = Inr (0, Some out)"
    using browser_pages[OF assms(2,3), of ?es] by auto
  show "browser_program argv (Inl e) = Inr (1, None)"
    using assms(1) by (simp add: browser_program_def list_directory_def)
  have "stoul ''0'' = Inr 0" "stoul ''ten'' = Inl (Invalid_argument ''stoul'')"
    by (simp_all add: stoul_def is_space_char_def is_digit_char_def digits_value_def)
  then have zero: "rows_argument [prog, dir, ''0''] = Inr 0" and ten: "rows_argument [prog, dir, ''ten''] = Inl (Invalid_argument ''stoul'')"
    by (simp_all add: rows_argument_def)
  have "snd (list_directory (Inr (fis @ [good]))) = None" by (simp add: list_directory_entries make_entry_code assms(6))
  then show "browser_program [prog, dir, ''0''] (Inr (fis @ [good])) = Inl (Invalid_argument ''BucketPlan: page_size must be > 0'')"
    using program_runs[OF zero, of "Inr (fis @ [good])"] browser_plan_zero by (simp add: browser_main_def)
  show "browser_program [prog, dir, ''ten''] (Inr fis) = Inl (Invalid_argument ''stoul'')"
    using ten by (simp add: browser_program_def)
qed

theorem last_entry_decides_witness:
  "browser_program [''browse''] (Inr (take 2 demo_infos)) = Inr (1, None)"
proof -
  have "rows_argument [''browse''] = Inr 10" by (simp add: rows_argument_def)
  from last_entry_decides[OF this, of "[demo_infos ! 0]" "demo_infos ! 1" "''denied''" "demo_infos ! 2" demo_file_now]
  show ?thesis by (simp add: demo_infos_def removed_slot_def)
qed

end
