(* ===== verification/X86_Machine.thy ===== *)
theory X86_Machine
  imports SU_Prelude
begin

text \<open>
  The part of x86-64 that the search routines of
  \<open>src/backends/cpu/x86_64/binary_search_win64.asm\<close> use: sixteen-register state, the flags a
  comparison sets, a memory of aligned 64-bit cells, and one step per instruction. A step is
  \<open>None\<close> where the processor would fault or where the model knows no answer: a cell that is
  not mapped or not aligned, a conditional instruction after arithmetic other than \<open>cmp\<close>,
  whose flags are not modelled, and a jump to a label that does not exist.
\<close>

section \<open>State\<close>

datatype reg = RAX | RBX | RCX | RDX | RSI | RDI | RBP | RSP | R8 | R9 | R10 | R11 | R12 | R13 | R14 | R15

record flags =
  zero_flag :: bool
  sign_flag :: bool
  overflow_flag :: bool

record machine =
  regs :: "reg \<Rightarrow> u64"
  flags :: "flags option"
  cells :: "u64 \<Rightarrow> u64 option"
  ip :: nat
  returned :: "u64 option"

text \<open>The operands are those that occur; \<open>Load d b i\<close> is \<open>mov d, [b + i*8]\<close>.\<close>

datatype instr =
    Push reg | Pop reg | Mov reg reg | Mov_imm reg int | Load reg reg reg
  | Xor reg reg | Add_reg reg reg | Inc reg | Dec reg | Shr reg nat | Lea reg reg int
  | Cmp reg reg | Cmovl reg reg | Cmovg reg reg
  | Jmp string | Je string | Jl string | Jg string
  | Label string | Ret

section \<open>Steps\<close>

definition load_cell :: "machine \<Rightarrow> u64 \<Rightarrow> u64 option" where
  "load_cell s a = (if unat a mod 8 = 0 then cells s a else None)"

definition store_cell :: "u64 \<Rightarrow> u64 \<Rightarrow> machine \<Rightarrow> machine option" where
  "store_cell a v s =
     (if unat a mod 8 = 0 \<and> cells s a \<noteq> None then Some (s\<lparr>cells := (cells s)(a := Some v)\<rparr>) else None)"

definition set_reg :: "reg \<Rightarrow> u64 \<Rightarrow> machine \<Rightarrow> machine" where
  "set_reg r v s = s\<lparr>regs := (regs s)(r := v), ip := ip s + 1\<rparr>"

text \<open>The result of arithmetic; its flags are not modelled.\<close>

definition set_arith :: "reg \<Rightarrow> u64 \<Rightarrow> machine \<Rightarrow> machine" where
  "set_arith r v s = (set_reg r v s)\<lparr>flags := None\<rparr>"

definition cmp_flags :: "u64 \<Rightarrow> u64 \<Rightarrow> flags" where
  "cmp_flags a b =
     \<lparr>zero_flag = (a - b = 0), sign_flag = bit (a - b) 63, overflow_flag = (sint (a - b) \<noteq> sint a - sint b)\<rparr>"

definition is_less :: "flags \<Rightarrow> bool" where
  "is_less f \<longleftrightarrow> sign_flag f \<noteq> overflow_flag f"

definition is_greater :: "flags \<Rightarrow> bool" where
  "is_greater f \<longleftrightarrow> \<not> zero_flag f \<and> sign_flag f = overflow_flag f"

definition jump :: "instr list \<Rightarrow> string \<Rightarrow> machine \<Rightarrow> machine option" where
  "jump code l s =
     (if Label l \<in> set code then Some (s\<lparr>ip := length (takeWhile (\<lambda>i. i \<noteq> Label l) code)\<rparr>) else None)"

definition jump_if :: "(flags \<Rightarrow> bool) \<Rightarrow> instr list \<Rightarrow> string \<Rightarrow> machine \<Rightarrow> machine option" where
  "jump_if c code l s =
     (case flags s of None \<Rightarrow> None
      | Some f \<Rightarrow> if c f then jump code l s else Some (s\<lparr>ip := ip s + 1\<rparr>))"

definition move_if :: "(flags \<Rightarrow> bool) \<Rightarrow> reg \<Rightarrow> reg \<Rightarrow> machine \<Rightarrow> machine option" where
  "move_if c d r s =
     (case flags s of None \<Rightarrow> None
      | Some f \<Rightarrow> Some (set_reg d (if c f then regs s r else regs s d) s))"

fun exec_instr :: "instr list \<Rightarrow> instr \<Rightarrow> machine \<Rightarrow> machine option" where
  "exec_instr code (Push r) s =
     (let a = regs s RSP - 8 in store_cell a (regs s r) (set_reg RSP a s))"
| "exec_instr code (Pop r) s =
     (let a = regs s RSP
      in case load_cell s a of None \<Rightarrow> None
         | Some v \<Rightarrow> Some (s\<lparr>regs := (regs s)(RSP := a + 8, r := v), ip := ip s + 1\<rparr>))"
| "exec_instr code (Mov d r) s = Some (set_reg d (regs s r) s)"
| "exec_instr code (Mov_imm d v) s = Some (set_reg d (word_of_int v) s)"
| "exec_instr code (Load d b i) s =
     map_option (\<lambda>v. set_reg d v s) (load_cell s (regs s b + regs s i * 8))"
| "exec_instr code (Xor d r) s = Some (set_arith d (regs s d XOR regs s r) s)"
| "exec_instr code (Add_reg d r) s = Some (set_arith d (regs s d + regs s r) s)"
| "exec_instr code (Inc d) s = Some (set_arith d (regs s d + 1) s)"
| "exec_instr code (Dec d) s = Some (set_arith d (regs s d - 1) s)"
| "exec_instr code (Shr d n) s = Some (set_arith d (drop_bit n (regs s d)) s)"
| "exec_instr code (Lea d r v) s = Some (set_reg d (regs s r + word_of_int v) s)"
| "exec_instr code (Cmp d r) s = Some (s\<lparr>flags := Some (cmp_flags (regs s d) (regs s r)), ip := ip s + 1\<rparr>)"
| "exec_instr code (Cmovl d r) s = move_if is_less d r s"
| "exec_instr code (Cmovg d r) s = move_if is_greater d r s"
| "exec_instr code (Jmp l) s = jump code l s"
| "exec_instr code (Je l) s = jump_if zero_flag code l s"
| "exec_instr code (Jl l) s = jump_if is_less code l s"
| "exec_instr code (Jg l) s = jump_if is_greater code l s"
| "exec_instr code (Label l) s = Some (s\<lparr>ip := ip s + 1\<rparr>)"
| "exec_instr code Ret s =
     (let a = regs s RSP
      in map_option (\<lambda>v. (set_reg RSP (a + 8) s)\<lparr>returned := Some v\<rparr>) (load_cell s a))"

definition step :: "instr list \<Rightarrow> machine \<Rightarrow> machine option" where
  "step code s =
     (if returned s = None \<and> ip s < length code then exec_instr code (code ! ip s) s else None)"

fun steps :: "nat \<Rightarrow> instr list \<Rightarrow> machine \<Rightarrow> machine option" where
  "steps 0 code s = Some s"
| "steps (Suc n) code s = (case step code s of None \<Rightarrow> None | Some s \<Rightarrow> steps n code s)"

text \<open>Running until \<open>ret\<close>, at most \<open>n\<close> instructions.\<close>

fun run_code :: "nat \<Rightarrow> instr list \<Rightarrow> machine \<Rightarrow> machine option" where
  "run_code 0 code s = (if returned s = None then None else Some s)"
| "run_code (Suc n) code s =
     (if returned s \<noteq> None then Some s
      else case step code s of None \<Rightarrow> None | Some s \<Rightarrow> run_code n code s)"

section \<open>Composing blocks\<close>

lemma steps_numeral [simp]:
  "steps (numeral v) code s = (case step code s of None \<Rightarrow> None | Some s \<Rightarrow> steps (pred_numeral v) code s)"
  by (simp add: numeral_eq_Suc)

lemma steps_1 [simp]: "steps 1 code s = step code s"
  by (simp split: option.split)

lemma run_code_returned [simp]: "returned s = Some a \<Longrightarrow> run_code n code s = Some s"
  by (cases n) simp_all

lemma step_not_returned: "step code s = Some s' \<Longrightarrow> returned s = None"
  by (simp add: step_def split: if_splits)

lemma run_code_steps: "steps k code s = Some s' \<Longrightarrow> run_code (k + n) code s = run_code n code s'"
proof (induction k arbitrary: s)
  case (Suc k)
  then obtain t where t: "step code s = Some t" "steps k code t = Some s'" by (auto split: option.splits)
  then show ?case using step_not_returned[OF t(1)] Suc.IH[OF t(2)] by simp
qed simp

lemma run_code_more: "run_code n code s = Some s' \<Longrightarrow> n \<le> m \<Longrightarrow> run_code m code s = Some s'"
proof (induction n arbitrary: m s)
  case 0
  then show ?case by (cases "returned s") simp_all
next
  case (Suc n)
  then obtain m' where m': "m = Suc m'" "n \<le> m'" by (cases m) simp_all
  then show ?case using Suc.prems(1) Suc.IH[of _ m'] by (auto split: if_splits option.splits)
qed

section \<open>Signed comparison\<close>

text \<open>Less is sign different from overflow: an overflowing difference has the wrong sign.\<close>

lemma sint_range: "- (2 ^ 63) \<le> sint a" "sint a < 2 ^ 63" for a :: u64
  using sint_ge[of a] sint_lt[of a] by simp_all

lemma sint_diff_cases:
  fixes a b :: u64
  defines "d \<equiv> sint a - sint b"
  shows "sint (a - b) = (if d < - (2 ^ 63) then d + 2 ^ 64 else if 2 ^ 63 \<le> d then d - 2 ^ 64 else d)"
proof -
  have s: "sint (a - b) = (d + 2 ^ 63) mod 2 ^ 64 - 2 ^ 63"
    using sint_word_diff[of a b] by (simp add: d_def signed_take_bit_eq_take_bit_shift take_bit_eq_mod)
  have "(d + 2 ^ 63) mod 2 ^ 64 = d + 2 ^ 63 + 2 ^ 64" if "d < - (2 ^ 63)"
    using that sint_range[of a] sint_range[of b]
    by (subst mod_add_self2[symmetric], intro mod_pos_pos_trivial) (simp_all add: d_def)
  moreover have "(d + 2 ^ 63) mod 2 ^ 64 = d + 2 ^ 63 - 2 ^ 64" if "2 ^ 63 \<le> d"
    using that sint_range[of a] sint_range[of b]
    by (subst minus_mod_self2[symmetric], intro mod_pos_pos_trivial) (simp_all add: d_def)
  moreover have "(d + 2 ^ 63) mod 2 ^ 64 = d + 2 ^ 63" if "- (2 ^ 63) \<le> d" "d < 2 ^ 63"
    using that by (intro mod_pos_pos_trivial) simp_all
  ultimately show ?thesis unfolding s by simp
qed

lemma sign_bit_sint: "bit a 63 \<longleftrightarrow> sint a < 0" for a :: u64
  by (simp add: sint_uint bit_uint_iff)

lemma zero_cmp [simp]: "zero_flag (cmp_flags a b) \<longleftrightarrow> a = b"
  by (simp add: cmp_flags_def)

lemma is_less_cmp [simp]: "is_less (cmp_flags a b) \<longleftrightarrow> sint a < sint b"
  using sint_diff_cases[of a b] sint_range[of a] sint_range[of b]
  by (auto simp: is_less_def cmp_flags_def sign_bit_sint)

lemma is_greater_cmp [simp]: "is_greater (cmp_flags a b) \<longleftrightarrow> sint b < sint a"
proof -
  have "is_greater f \<longleftrightarrow> \<not> zero_flag f \<and> \<not> is_less f" for f by (simp add: is_greater_def is_less_def)
  moreover have "sint a = sint b \<longleftrightarrow> a = b" by (rule signed_word_eqI[THEN iffI]) simp_all
  ultimately show ?thesis by auto
qed

end
