(* ===== verification/Binary_Searches.thy ===== *)
theory Binary_Searches
  imports Std_Algorithms
begin

text \<open>
  The C core: the reference binary search, the dispatcher in front of it with its global
  settings and its placeholder GPU backends, and the AVX2 searches of the benchmark suite
  (\<open>legacy/benchmark_win.c\<close>) with the check that compares them with the reference.

  Array elements and indexes are \<open>int64_t\<close> values. A read outside the array, undefined in C,
  is \<open>None\<close>, so \<open>Some\<close> results also say that every read stayed inside. Indexes lie between
  -1 and the size, and \<open>left + (right - left) / 2\<close> never leaves that range, so no arithmetic
  can overflow.
\<close>

definition read :: "int list \<Rightarrow> int \<Rightarrow> int option" where
  "read a i = (if 0 \<le> i \<and> i < int (length a) then Some (a ! nat i) else None)"

section \<open>The reference search\<close>

function ref_loop :: "int list \<Rightarrow> int \<Rightarrow> int \<Rightarrow> int \<Rightarrow> int option" where
  "ref_loop a key left right =
     (if left \<le> right then
        let mid = left + (right - left) div 2
        in case read a mid of
             None \<Rightarrow> None
           | Some v \<Rightarrow>
               if v = key then Some mid
               else if v < key then ref_loop a key (mid + 1) right
               else ref_loop a key left (mid - 1)
      else Some (-1))"
  by pat_completeness auto
termination
  by (relation "measure (\<lambda>(a, key, left, right). nat (right - left + 1))") auto

declare ref_loop.simps [simp del]

definition binary_search_ref :: "int list \<Rightarrow> int \<Rightarrow> int \<Rightarrow> int option" where
  "binary_search_ref a key sz = ref_loop a key 0 (sz - 1)"

section \<open>The AVX2 searches\<close>

text \<open>The benchmark suite has its own copy of the reference.\<close>

definition reference_binary_search :: "int list \<Rightarrow> int \<Rightarrow> int \<Rightarrow> int option" where
  "reference_binary_search a key sz = ref_loop a key 0 (sz - 1)"

lemma reference_binary_search_ref [simp]: "reference_binary_search = binary_search_ref"
  by (simp add: reference_binary_search_def binary_search_ref_def fun_eq_iff)

text \<open>\<open>_mm256_movemask_pd\<close>: bit \<open>i\<close> is the sign bit of lane \<open>i\<close>, set for a true comparison.\<close>

definition movemask :: "bool list \<Rightarrow> nat" where
  "movemask lanes = foldr (\<lambda>lane m. of_bool lane + 2 * m) lanes 0"

text \<open>The four candidate positions of one step.\<close>

definition lane_positions :: "int \<Rightarrow> int \<Rightarrow> int list" where
  "lane_positions left right =
     (let quarter = (right - left + 1) div 4
      in [left + quarter, left + quarter * 2, left + quarter * 3, right])"

text \<open>
  The narrowing loop, which runs while the range is wider than \<open>t\<close>: \<open>Inl\<close> is a position that
  was found, \<open>Inr\<close> the remaining range.
\<close>

function simd_loop :: "nat \<Rightarrow> int list \<Rightarrow> int \<Rightarrow> int \<Rightarrow> int \<Rightarrow> (int + int \<times> int) option" where
  "simd_loop t a key left right =
     (if int t < right - left then
        let pos = lane_positions left right
        in case those (map (read a) pos) of
             None \<Rightarrow> None
           | Some values \<Rightarrow>
               let mask = movemask (map (\<lambda>v. v = key) values)
               in if mask \<noteq> 0 then Some (Inl (pos ! find_index (\<lambda>i. odd (mask div 2 ^ i)) [0..<4]))
                  else
                    let less_bits = movemask (map (\<lambda>v. v < key) values)
                    in if less_bits = 15 then simd_loop t a key (pos ! 3 + 1) right
                       else if less_bits = 7 then simd_loop t a key (pos ! 2 + 1) (pos ! 3 - 1)
                       else if less_bits = 3 then simd_loop t a key (pos ! 1 + 1) (pos ! 2 - 1)
                       else if less_bits = 1 then simd_loop t a key (pos ! 0 + 1) (pos ! 1 - 1)
                       else simd_loop t a key left (pos ! 0 - 1)
      else Some (Inr (left, right)))"
  by pat_completeness auto
termination
  by (relation "measure (\<lambda>(t, a, key, left, right). nat (right - left + 1))")
    (auto simp: lane_positions_def Let_def numeral_nat)

declare simd_loop.simps [simp del]

definition simd_binary_search :: "int list \<Rightarrow> int \<Rightarrow> int \<Rightarrow> int option" where
  "simd_binary_search a key sz =
     (if sz < 32 then reference_binary_search a key sz
      else case simd_loop 16 a key 0 (sz - 1) of
        None \<Rightarrow> None
      | Some (Inl p) \<Rightarrow> Some p
      | Some (Inr (left, right)) \<Rightarrow> ref_loop a key left right)"

text \<open>
  The software-pipelined loop: the value at the middle is loaded one iteration ahead. Between
  iterations \<open>mid\<close> is the middle of the range and \<open>v\<close> the value there.
\<close>

function pipe_loop :: "int list \<Rightarrow> int \<Rightarrow> int \<Rightarrow> int \<Rightarrow> int \<Rightarrow> int option" where
  "pipe_loop a key left right v =
     (if left \<le> right then
        let mid = left + (right - left) div 2
        in if v = key then Some mid
           else
             let left' = (if v < key then mid + 1 else left);
                 right' = (if v < key then right else mid - 1)
             in if right' < left' then Some (-1)
                else case read a (left' + (right' - left') div 2) of
                  None \<Rightarrow> None
                | Some v' \<Rightarrow> pipe_loop a key left' right' v'
      else Some (-1))"
  by pat_completeness auto
termination
  by (relation "measure (\<lambda>(a, key, left, right, v). nat (right - left + 1))") auto

declare pipe_loop.simps [simp del]

definition simd_optimized_binary_search :: "int list \<Rightarrow> int \<Rightarrow> int \<Rightarrow> int option" where
  "simd_optimized_binary_search a key sz =
     (if sz < 32 then reference_binary_search a key sz
      else case simd_loop 32 a key 0 (sz - 1) of
        None \<Rightarrow> None
      | Some (Inl p) \<Rightarrow> Some p
      | Some (Inr (left, right)) \<Rightarrow>
          if right < left then Some (-1)
          else case read a (left + (right - left) div 2) of
            None \<Rightarrow> None
          | Some v \<Rightarrow> pipe_loop a key left right v)"

text \<open>\<open>verify_function\<close>: 1 if every result is the reference's, 0 at the first difference.\<close>

fun verify_function :: "(int list \<Rightarrow> int \<Rightarrow> int \<Rightarrow> int option) \<Rightarrow> int list \<Rightarrow> int \<Rightarrow> int list \<Rightarrow> int option" where
  "verify_function search a sz [] = Some 1"
| "verify_function search a sz (k # keys) =
     (case reference_binary_search a k sz of
        None \<Rightarrow> None
      | Some expected \<Rightarrow>
          (case search a k sz of
             None \<Rightarrow> None
           | Some r \<Rightarrow> if r \<noteq> expected then Some 0 else verify_function search a sz keys))"

text \<open>
  The test data of the benchmark. \<open>rnd i\<close> is the result of the \<open>i\<close>-th call of \<open>rand\<close>, which
  returns numbers that are not negative; every key takes two calls.
\<close>

definition bench_array :: "nat \<Rightarrow> int list" where
  "bench_array sz = map (\<lambda>i. int i * 2) [0..<sz]"

definition bench_key :: "nat \<Rightarrow> (nat \<Rightarrow> int) \<Rightarrow> nat \<Rightarrow> int" where
  "bench_key sz rnd i =
     (if rnd (2 * i) mod 2 = 0 then (rnd (2 * i + 1) mod int sz) * 2
      else (rnd (2 * i + 1) mod int sz) * 2 + 1)"

definition num_keys :: "nat \<Rightarrow> nat" where
  "num_keys sz = (if sz < 100000 then 10000 else 1000)"

definition bench_keys :: "nat \<Rightarrow> (nat \<Rightarrow> int) \<Rightarrow> int list" where
  "bench_keys sz rnd = map (bench_key sz rnd) [0..<num_keys sz]"

definition bench_correct :: "(int list \<Rightarrow> int \<Rightarrow> int \<Rightarrow> int option) \<Rightarrow> nat \<Rightarrow> (nat \<Rightarrow> int) \<Rightarrow> int option" where
  "bench_correct search sz rnd =
     verify_function search (bench_array sz) (int sz) (take (if num_keys sz < 100 then num_keys sz else 100) (bench_keys sz rnd))"

section \<open>The dispatcher\<close>

datatype backend_pref = Backend_auto | Force_cpu | Force_cuda | Force_opencl

record cache_hint =
  l1_bytes :: "32 word"
  l2_bytes :: "32 word"
  l3_bytes :: "32 word"
  cacheline_bytes :: "32 word"

record settings =
  g_threads :: "32 word"
  g_cache :: cache_hint
  g_pref :: backend_pref

definition initial_settings :: settings where
  "initial_settings =
     \<lparr>g_threads = 0,
      g_cache = \<lparr>l1_bytes = 32768, l2_bytes = 262144, l3_bytes = 8388608, cacheline_bytes = 64\<rparr>,
      g_pref = Backend_auto\<rparr>"

definition set_threads_hint :: "32 word \<Rightarrow> settings \<Rightarrow> settings" where
  "set_threads_hint n s = s\<lparr>g_threads := n\<rparr>"

definition set_cache_hint :: "cache_hint \<Rightarrow> settings \<Rightarrow> settings" where
  "set_cache_hint hint s = s\<lparr>g_cache := hint\<rparr>"

definition set_backend_preference :: "backend_pref \<Rightarrow> settings \<Rightarrow> settings" where
  "set_backend_preference pref s = s\<lparr>g_pref := pref\<rparr>"

text \<open>The answers of the GPU backends: availability and the result of the search stub.\<close>

record backends =
  cuda_available :: int
  cuda_stub :: int
  opencl_available :: int
  opencl_stub :: int

text \<open>The functions of the placeholder backends and of the CPU feature tests, and the start-up.\<close>

definition speedup_cuda_available :: int where
  "speedup_cuda_available = 0"

definition speedup_cuda_binary_search_stub :: int where
  "speedup_cuda_binary_search_stub = - 1"

definition speedup_opencl_available :: int where
  "speedup_opencl_available = 0"

definition speedup_opencl_binary_search_stub :: int where
  "speedup_opencl_binary_search_stub = - 1"

definition speedup_gpu_backend_available :: int where
  "speedup_gpu_backend_available = 0"

definition speedup_cpu_has_avx2 :: int where
  "speedup_cpu_has_avx2 = 0"

definition speedup_cpu_has_neon :: int where
  "speedup_cpu_has_neon = 0"

definition speedup_init :: "settings \<Rightarrow> settings" where
  "speedup_init s = s"

definition placeholder_backends :: backends where
  "placeholder_backends =
     \<lparr>cuda_available = speedup_cuda_available, cuda_stub = speedup_cuda_binary_search_stub,
      opencl_available = speedup_opencl_available, opencl_stub = speedup_opencl_binary_search_stub\<rparr>"

definition binary_search_i64 :: "backends \<Rightarrow> settings \<Rightarrow> int list \<Rightarrow> int \<Rightarrow> int \<Rightarrow> int option" where
  "binary_search_i64 gpu s a key sz =
     (let pref = g_pref s
      in if pref = Force_cuda then
           if cuda_available gpu \<noteq> 0 \<and> cuda_stub gpu = 0 then Some (-1) else binary_search_ref a key sz
         else if pref = Force_opencl then
           if opencl_available gpu \<noteq> 0 \<and> opencl_stub gpu = 0 then Some (-1) else binary_search_ref a key sz
         else if pref = Force_cpu then binary_search_ref a key sz
         else if cuda_available gpu \<noteq> 0 \<and> cuda_stub gpu = 0 then Some (-1)
         else if opencl_available gpu \<noteq> 0 \<and> opencl_stub gpu = 0 then Some (-1)
         else binary_search_ref a key sz)"

section \<open>The range that can still hold the key\<close>

definition window :: "int list \<Rightarrow> int \<Rightarrow> int \<Rightarrow> int \<Rightarrow> bool" where
  "window a key left right \<longleftrightarrow>
     0 \<le> left \<and> left \<le> right + 1 \<and> right < int (length a)
     \<and> (\<forall>i<length a. int i < left \<longrightarrow> a ! i < key) \<and> (\<forall>i<length a. right < int i \<longrightarrow> key < a ! i)"

definition found :: "int list \<Rightarrow> int \<Rightarrow> int \<Rightarrow> bool" where
  "found a key r \<longleftrightarrow> r = -1 \<and> key \<notin> set a \<or> 0 \<le> r \<and> r < int (length a) \<and> a ! nat r = key"

lemma window_start: "window a key 0 (int (length a) - 1)"
  by (simp add: window_def)

lemma window_end: "window a key left right \<Longrightarrow> right < left \<Longrightarrow> found a key (-1)"
proof -
  assume w: "window a key left right" and "right < left"
  have "a ! i \<noteq> key" if "i < length a" for i
  proof -
    have "int i < left \<or> right < int i" using \<open>right < left\<close> by linarith
    then show ?thesis using w that unfolding window_def by (metis less_irrefl)
  qed
  then show ?thesis by (auto simp: found_def in_set_conv_nth)
qed

lemma window_above:
  assumes "sorted a" and w: "window a key left right" and p: "0 \<le> p" "p \<le> right" and lt: "a ! nat p < key"
  shows "window a key (p + 1) right"
proof -
  have "a ! i < key" if "i < length a" "int i < p + 1" for i
  proof -
    have "a ! i \<le> a ! nat p" using that p w assms(1) by (intro sorted_nth_mono) (auto simp: window_def)
    then show ?thesis using lt by simp
  qed
  then show ?thesis using w p by (auto simp: window_def)
qed

lemma window_below:
  assumes "sorted a" and w: "window a key left right" and p: "left \<le> p" "p < int (length a)" and lt: "key < a ! nat p"
  shows "window a key left (p - 1)"
proof -
  have p0: "0 \<le> p" using w p by (simp add: window_def)
  have "key < a ! i" if "i < length a" "p - 1 < int i" for i
  proof -
    have "a ! nat p \<le> a ! i" using that p0 assms(1) by (intro sorted_nth_mono) auto
    then show ?thesis using lt by simp
  qed
  then show ?thesis using w p by (auto simp: window_def)
qed

lemma read_in: "window a key left right \<Longrightarrow> left \<le> i \<Longrightarrow> i \<le> right \<Longrightarrow> read a i = Some (a ! nat i) \<and> 0 \<le> i \<and> i < int (length a)"
  by (auto simp: window_def read_def)

section \<open>Every loop finds the key or shows that it is absent\<close>

lemma ref_loop_ok:
  assumes "sorted a" and "window a key left right"
  shows "\<exists>r. ref_loop a key left right = Some r \<and> found a key r"
  using assms
proof (induction a key left right rule: ref_loop.induct)
  case (1 a key left right)
  note rec = ref_loop.simps[of a key left right]
  show ?case
  proof (cases "left \<le> right")
    case False
    then show ?thesis using window_end[OF "1.prems"(2)] rec by simp
  next
    case True
    let ?mid = "left + (right - left) div 2"
    have mid: "left \<le> ?mid" "?mid \<le> right" using True by auto
    note rd = read_in[OF "1.prems"(2) mid]
    consider "a ! nat ?mid = key" | "a ! nat ?mid < key" | "key < a ! nat ?mid" by linarith
    then show ?thesis
    proof cases
      case 1
      then show ?thesis using True rd rec by (simp add: found_def)
    next
      case 2
      then show ?thesis
        using "1.IH"(1)[OF True refl, of "a ! nat ?mid"] "1.prems"(1) rd window_above[OF "1.prems" _ mid(2)] True rec by simp
    next
      case 3
      then show ?thesis
        using "1.IH"(2)[OF True refl, of "a ! nat ?mid"] "1.prems"(1) rd window_below[OF "1.prems" mid(1)] True rec by simp
    qed
  qed
qed

lemma movemask_lanes:
  "movemask [b0, b1, b2, b3] = 15 \<longleftrightarrow> b0 \<and> b1 \<and> b2 \<and> b3"
  "movemask [b0, b1, b2, b3] = 7 \<longleftrightarrow> b0 \<and> b1 \<and> b2 \<and> \<not> b3"
  "movemask [b0, b1, b2, b3] = 3 \<longleftrightarrow> b0 \<and> b1 \<and> \<not> b2 \<and> \<not> b3"
  "movemask [b0, b1, b2, b3] = 1 \<longleftrightarrow> b0 \<and> \<not> b1 \<and> \<not> b2 \<and> \<not> b3"
  "movemask [b0, b1, b2, b3] = 0 \<longleftrightarrow> \<not> b0 \<and> \<not> b1 \<and> \<not> b2 \<and> \<not> b3"
  by (cases b0; cases b1; cases b2; cases b3; simp add: movemask_def)+

lemma first_lane:
  "movemask [b0, b1, b2, b3] \<noteq> 0 \<Longrightarrow>
   find_index (\<lambda>i. odd (movemask [b0, b1, b2, b3] div 2 ^ i)) [0..<4] = (if b0 then 0 else if b1 then 1 else if b2 then 2 else 3)"
  by (cases b0; cases b1; cases b2; cases b3; simp add: movemask_def upt_conv_Cons)

lemma lane_positions_in:
  assumes "left < right"
  defines "q \<equiv> (right - left + 1) div 4"
  shows "lane_positions left right = [left + q, left + q * 2, left + q * 3, right]"
    and "0 \<le> q" "left + q \<le> left + q * 2" "left + q * 2 \<le> left + q * 3" "left + q * 3 \<le> right" "left \<le> left + q"
  using assms(1) by (simp_all add: lane_positions_def Let_def q_def)

lemma simd_loop_ok:
  assumes srt: "sorted a" and "window a key left right"
  shows "(\<exists>p. simd_loop t a key left right = Some (Inl p) \<and> found a key p)
    \<or> (\<exists>l r. simd_loop t a key left right = Some (Inr (l, r)) \<and> window a key l r)"
  using assms(2)
proof (induction "nat (right - left + 1)" arbitrary: left right rule: less_induct)
  case less
  let ?P = "\<lambda>l r. (\<exists>p. simd_loop t a key l r = Some (Inl p) \<and> found a key p)
    \<or> (\<exists>l' r'. simd_loop t a key l r = Some (Inr (l', r')) \<and> window a key l' r')"
  note w = less.prems
  show ?case
  proof (cases "int t < right - left")
    case False
    then show ?thesis using w by (simp add: simd_loop.simps[of t a key left right])
  next
    case wide: True
    then have lr: "left < right" by linarith
    define q where "q = (right - left + 1) div 4"
    note lp = lane_positions_in[OF lr, folded q_def]
    let ?p = "[left + q, left + q * 2, left + q * 3, right]" and ?v = "\<lambda>p. a ! nat p"
    have inside: "left \<le> p \<and> p \<le> right" if "p \<in> set ?p" for p using that lp lr by auto
    have rd: "read a p = Some (?v p)" "0 \<le> p" "p < int (length a)" if "p \<in> set ?p" for p
      using read_in[OF w] inside[OF that] by blast+
    have mono: "?v p \<le> ?v p'" if "p \<in> set ?p" "p' \<in> set ?p" "p \<le> p'" for p p'
    proof (rule sorted_nth_mono[OF srt])
      show "nat p \<le> nat p'" using that(3) by (rule nat_mono)
      show "nat p' < length a" using rd(2,3)[OF that(2)] by linarith
    qed
    have those: "those (map (read a) ?p) = Some (map ?v ?p)" using rd(1) by simp
    have nths: "?p ! 0 = left + q" "?p ! 1 = left + q * 2" "?p ! 2 = left + q * 3" "?p ! 3 = right" by simp_all
    have step: "simd_loop t a key left right =
        (let mask = movemask (map (\<lambda>v. v = key) (map ?v ?p))
         in if mask \<noteq> 0 then Some (Inl (?p ! find_index (\<lambda>i. odd (mask div 2 ^ i)) [0..<4]))
            else let less_bits = movemask (map (\<lambda>v. v < key) (map ?v ?p))
                 in if less_bits = 15 then simd_loop t a key (right + 1) right
                    else if less_bits = 7 then simd_loop t a key (left + q * 3 + 1) (right - 1)
                    else if less_bits = 3 then simd_loop t a key (left + q * 2 + 1) (left + q * 3 - 1)
                    else if less_bits = 1 then simd_loop t a key (left + q + 1) (left + q * 2 - 1)
                    else simd_loop t a key left (left + q - 1))"
      unfolding simd_loop.simps[of t a key left right] if_P[OF wide] lp(1) Let_def those option.case nths ..
    show ?thesis
    proof (cases "\<exists>p\<in>set ?p. ?v p = key")
      case True
      then have m: "movemask [?v (left + q) = key, ?v (left + q * 2) = key, ?v (left + q * 3) = key, ?v right = key] \<noteq> 0"
        by (auto simp: movemask_lanes)
      have "\<exists>p\<in>set ?p. simd_loop t a key left right = Some (Inl p) \<and> ?v p = key"
        using True m unfolding step Let_def list.map first_lane[OF m] by (auto simp: numeral_nat)
      then show ?thesis using rd(2,3) by (auto simp: found_def)
    next
      case False
      then have ne: "?v p \<noteq> key" if "p \<in> set ?p" for p using that by blast
      have m0: "movemask [?v (left + q) = key, ?v (left + q * 2) = key, ?v (left + q * 3) = key, ?v right = key] = 0"
        using ne by (simp add: movemask_lanes)
      have above: "window a key (p + 1) right" if "p \<in> set ?p" "?v p < key" for p
        using window_above[OF srt w rd(2)[OF that(1)]] inside[OF that(1)] that(2) by blast
      have below: "window a key l (p - 1)" if "p \<in> set ?p" "\<not> ?v p < key" "window a key l right" "l \<le> p" for p l
        using window_below[OF srt that(3) that(4) rd(3)[OF that(1)]] ne[OF that(1)] that(2) by simp
      have IH: "?P l r" if "window a key l r" "left \<le> l" "r \<le> right" "left < l \<or> r < right" for l r
        using less.hyps[of r l] that lr by auto
      have down: "?v p < key" if "p \<in> set ?p" "p' \<in> set ?p" "p \<le> p'" "?v p' < key" for p p'
        using mono[OF that(1-3)] that(4) by linarith
      have bits: "simd_loop t a key left right = simd_loop t a key l r"
        if "map (\<lambda>p. ?v p < key) ?p = bs"
          "(bs = [True, True, True, True] \<and> l = right + 1 \<and> r = right)
           \<or> (bs = [True, True, True, False] \<and> l = left + q * 3 + 1 \<and> r = right - 1)
           \<or> (bs = [True, True, False, False] \<and> l = left + q * 2 + 1 \<and> r = left + q * 3 - 1)
           \<or> (bs = [True, False, False, False] \<and> l = left + q + 1 \<and> r = left + q * 2 - 1)
           \<or> (bs = [False, False, False, False] \<and> l = left \<and> r = left + q - 1)" for bs l r
      proof -
        have "simd_loop t a key left right =
          (let less_bits = movemask bs
           in if less_bits = 15 then simd_loop t a key (right + 1) right
              else if less_bits = 7 then simd_loop t a key (left + q * 3 + 1) (right - 1)
              else if less_bits = 3 then simd_loop t a key (left + q * 2 + 1) (left + q * 3 - 1)
              else if less_bits = 1 then simd_loop t a key (left + q + 1) (left + q * 2 - 1)
              else simd_loop t a key left (left + q - 1))"
          using step m0 unfolding that(1)[symmetric] Let_def list.map by simp
        then show ?thesis using that(2) by (elim disjE) (simp_all add: movemask_def)
      qed
      consider "?v right < key" | "?v (left + q * 3) < key" "\<not> ?v right < key"
        | "?v (left + q * 2) < key" "\<not> ?v (left + q * 3) < key"
        | "?v (left + q) < key" "\<not> ?v (left + q * 2) < key" | "\<not> ?v (left + q) < key" by blast
      then show ?thesis
      proof cases
        case 1
        then have "map (\<lambda>p. ?v p < key) ?p = [True, True, True, True]" using down[of "left + q" right] down[of "left + q * 2" right] down[of "left + q * 3" right] lp(2-6) by simp
        then have "simd_loop t a key left right = simd_loop t a key (right + 1) right" by (rule bits) simp
        then show ?thesis using IH[OF above[OF _ 1]] lr by simp
      next
        case 2
        then have "map (\<lambda>p. ?v p < key) ?p = [True, True, True, False]" using down[of "left + q" "left + q * 3"] down[of "left + q * 2" "left + q * 3"] lp(2-6) by simp
        then have "simd_loop t a key left right = simd_loop t a key (left + q * 3 + 1) (right - 1)" by (rule bits) simp
        moreover have "window a key (left + q * 3 + 1) (right - 1)"
        proof (cases "left + q * 3 = right")
          case False
          then show ?thesis using below[OF _ 2(2) above[OF _ 2(1)]] lp by simp
        qed (use 2 in simp)
        ultimately show ?thesis using IH[of "left + q * 3 + 1" "right - 1"] lp lr by simp
      next
        case 3
        then have ne23: "left + q * 2 < left + q * 3" using down[of "left + q * 3" "left + q * 2"] lp(2-6) by (cases "left + q * 2 = left + q * 3") simp_all
        from 3 have "map (\<lambda>p. ?v p < key) ?p = [True, True, False, False]"
          using down[of "left + q" "left + q * 2"] down[of "left + q * 3" right] lp(2-6) by auto
        then have "simd_loop t a key left right = simd_loop t a key (left + q * 2 + 1) (left + q * 3 - 1)" by (rule bits) simp
        moreover have "window a key (left + q * 2 + 1) (left + q * 3 - 1)"
          using below[OF _ 3(2) above[OF _ 3(1)]] ne23 by simp
        ultimately show ?thesis using IH[of "left + q * 2 + 1" "left + q * 3 - 1"] lp lr by simp
      next
        case 4
        then have ne12: "left + q < left + q * 2" using down[of "left + q * 2" "left + q"] lp(2-6) by (cases "left + q = left + q * 2") simp_all
        from 4 have "map (\<lambda>p. ?v p < key) ?p = [True, False, False, False]"
          using down[of "left + q * 2" "left + q * 3"] down[of "left + q * 2" right] lp(2-6) by auto
        then have "simd_loop t a key left right = simd_loop t a key (left + q + 1) (left + q * 2 - 1)" by (rule bits) simp
        moreover have "window a key (left + q + 1) (left + q * 2 - 1)"
          using below[OF _ 4(2) above[OF _ 4(1)]] ne12 by simp
        ultimately show ?thesis using IH[of "left + q + 1" "left + q * 2 - 1"] lp lr by simp
      next
        case 5
        then have "map (\<lambda>p. ?v p < key) ?p = [False, False, False, False]"
          using down[of "left + q" "left + q * 2"] down[of "left + q" "left + q * 3"] down[of "left + q" right] lp(2-6) by auto
        then have "simd_loop t a key left right = simd_loop t a key left (left + q - 1)" by (rule bits) simp
        moreover have "window a key left (left + q - 1)" using below[OF _ 5 w] lp by simp
        moreover have "left + q - 1 < right" using lp by linarith
        ultimately show ?thesis using IH[of left "left + q - 1"] by simp
      qed
    qed
  qed
qed

lemma pipe_loop_ref:
  "left \<le> right \<Longrightarrow> read a (left + (right - left) div 2) = Some v \<Longrightarrow> pipe_loop a key left right v = ref_loop a key left right"
proof (induction a key left right v rule: pipe_loop.induct)
  case (1 a key left right v)
  let ?mid = "left + (right - left) div 2"
  let ?l = "if v < key then ?mid + 1 else left" and ?r = "if v < key then right else ?mid - 1"
  show ?case
  proof (cases "v = key")
    case True
    then show ?thesis using "1.prems" by (simp add: pipe_loop.simps[of a key left right] ref_loop.simps[of a key left right] Let_def)
  next
    case False
    have ref: "ref_loop a key left right = ref_loop a key ?l ?r"
      using False "1.prems" by (simp add: ref_loop.simps[of a key left right] Let_def)
    show ?thesis
    proof (cases "?r < ?l")
      case True
      then have "ref_loop a key ?l ?r = Some (-1)" by (simp add: ref_loop.simps[of a key ?l ?r])
      then show ?thesis using False True "1.prems"(1) ref by (simp add: pipe_loop.simps[of a key left right] Let_def)
    next
      case le: False
      show ?thesis
      proof (cases "read a (?l + (?r - ?l) div 2)")
        case None
        then have "ref_loop a key ?l ?r = None" using le by (simp add: ref_loop.simps[of a key ?l ?r] Let_def)
        then show ?thesis using False le None "1.prems"(1) ref
          by (simp add: pipe_loop.simps[of a key left right] Let_def)
      next
        case (Some v')
        then have "pipe_loop a key ?l ?r v' = ref_loop a key ?l ?r"
          using le by (intro "1.IH"[OF "1.prems"(1) refl False refl refl]) simp_all
        then show ?thesis using False le Some "1.prems"(1) ref
          by (simp add: pipe_loop.simps[of a key left right] Let_def)
      qed
    qed
  qed
qed

section \<open>The contract of a search routine\<close>

locale search_routine =
  fixes search :: "int list \<Rightarrow> int \<Rightarrow> int \<Rightarrow> int option"
  assumes search_law: "sorted a \<Longrightarrow> \<exists>r. search a key (int (length a)) = Some r \<and> found a key r"
begin

lemma search_present: "sorted a \<Longrightarrow> key \<in> set a \<Longrightarrow> \<exists>i<length a. search a key (int (length a)) = Some (int i) \<and> a ! i = key"
proof -
  assume "sorted a" and k: "key \<in> set a"
  from search_law[OF this(1), of key] obtain r where r: "search a key (int (length a)) = Some r" "found a key r" by blast
  then have "0 \<le> r" "r < int (length a)" "a ! nat r = key" using k by (auto simp: found_def)
  then show ?thesis using r(1) by (intro exI[of _ "nat r"]) auto
qed

lemma search_absent: "sorted a \<Longrightarrow> key \<notin> set a \<Longrightarrow> search a key (int (length a)) = Some (-1)"
proof -
  assume "sorted a" and k: "key \<notin> set a"
  from search_law[OF this(1), of key] obtain r where r: "search a key (int (length a)) = Some r" "found a key r" by blast
  have "a ! nat r \<noteq> key" if "0 \<le> r" "r < int (length a)"
    using k nth_mem[of "nat r" a] that by auto
  then show ?thesis using r by (auto simp: found_def)
qed

text \<open>With distinct elements the result is determined.\<close>

lemma search_unique:
  assumes "sorted a" and "distinct a"
  shows "search a key (int (length a)) = Some (if key \<in> set a then int (find_index (\<lambda>x. x = key) a) else -1)"
proof (cases "key \<in> set a")
  case True
  from search_present[OF assms(1) True] obtain i where i: "i < length a" "search a key (int (length a)) = Some (int i)" "a ! i = key"
    by blast
  have f: "find_index (\<lambda>x. x = key) a < length a" using True by (auto simp: find_index_less_iff)
  then have "a ! find_index (\<lambda>x. x = key) a = a ! i" using find_index_nth[OF f] i(3) by simp
  then have "find_index (\<lambda>x. x = key) a = i" using assms(2) f i(1) by (simp add: nth_eq_iff_index_eq)
  then show ?thesis using i(2) True by simp
qed (simp add: search_absent[OF assms(1)])

end

interpretation reference: search_routine binary_search_ref
  by unfold_locales (simp add: binary_search_ref_def ref_loop_ok[OF _ window_start])

interpretation simd: search_routine simd_binary_search
proof
  fix a :: "int list" and key assume srt: "sorted a"
  from simd_loop_ok[OF srt window_start, of 16 key]
  show "\<exists>r. simd_binary_search a key (int (length a)) = Some r \<and> found a key r"
    using reference.search_law[OF srt, of key] ref_loop_ok[OF srt] by (auto simp: simd_binary_search_def)
qed

interpretation simd_optimized: search_routine simd_optimized_binary_search
proof
  fix a :: "int list" and key assume srt: "sorted a"
  have piped: "\<exists>v r. read a (left + (right - left) div 2) = Some v \<and> pipe_loop a key left right v = Some r \<and> found a key r"
    if "window a key left right" "left \<le> right" for left right
  proof -
    have "left \<le> left + (right - left) div 2" "left + (right - left) div 2 \<le> right" using that(2) by auto
    from read_in[OF that(1) this] obtain v where v: "read a (left + (right - left) div 2) = Some v" by blast
    from pipe_loop_ref[OF that(2) this] ref_loop_ok[OF srt that(1)] v show ?thesis by auto
  qed
  from simd_loop_ok[OF srt window_start, of 32 key] show "\<exists>r. simd_optimized_binary_search a key (int (length a)) = Some r \<and> found a key r"
  proof
    assume "\<exists>p. simd_loop 32 a key 0 (int (length a) - 1) = Some (Inl p) \<and> found a key p"
    then show ?thesis using reference.search_law[OF srt, of key] by (auto simp: simd_optimized_binary_search_def)
  next
    assume "\<exists>l r. simd_loop 32 a key 0 (int (length a) - 1) = Some (Inr (l, r)) \<and> window a key l r"
    then obtain l r where lr: "simd_loop 32 a key 0 (int (length a) - 1) = Some (Inr (l, r))" "window a key l r" by blast
    show ?thesis
    proof (cases "r < l")
      case True
      then show ?thesis using lr window_end[OF lr(2) True] reference.search_law[OF srt, of key]
        by (auto simp: simd_optimized_binary_search_def)
    next
      case False
      then show ?thesis using lr(1) piped[OF lr(2)] reference.search_law[OF srt, of key]
        by (auto simp: simd_optimized_binary_search_def)
    qed
  qed
qed

lemma dispatch_placeholder: "binary_search_i64 placeholder_backends s = binary_search_ref"
  by (simp add: binary_search_i64_def placeholder_backends_def speedup_cuda_available_def
      speedup_opencl_available_def fun_eq_iff Let_def)

interpretation dispatched: search_routine "binary_search_i64 placeholder_backends s"
  unfolding dispatch_placeholder by (rule reference.search_routine_axioms)

lemma verify_accepts:
  assumes "search_routine search" and "sorted a" and "distinct a"
  shows "verify_function search a (int (length a)) keys = Some 1"
  by (induction keys)
    (simp_all add: search_routine.search_unique[OF assms] search_routine.search_unique[OF reference.search_routine_axioms assms(2,3)])

lemma bench_array_facts: "sorted (bench_array sz)" "distinct (bench_array sz)" "length (bench_array sz) = sz"
  by (auto simp: bench_array_def sorted_iff_nth_mono distinct_map inj_on_def)

lemma bench_array_index: "i < sz \<Longrightarrow> find_index (\<lambda>x. x = int i * 2) (bench_array sz) = i"
proof -
  assume i: "i < sz"
  let ?f = "find_index (\<lambda>x. x = int i * 2) (bench_array sz)"
  have "\<exists>x\<in>set (bench_array sz). x = int i * 2" using i by (simp add: bench_array_def)
  then have f: "?f < length (bench_array sz)" by (simp add: find_index_less_iff)
  then have "bench_array sz ! ?f = int i * 2" by (rule find_index_nth)
  then show ?thesis using f by (simp add: bench_array_def)
qed

section \<open>Properties\<close>

text \<open>
  C27: The public search \<open>speedup_binary_search_i64\<close> is correct for every setting of the
  backend preference: on a sorted array it terminates, never reads outside the array, returns
  -1 for a key that is absent and otherwise an index that holds the key.
\<close>

theorem dispatched_search_correct:
  assumes "sorted a"
  shows "\<exists>r. binary_search_i64 placeholder_backends (set_backend_preference pref s) a key (int (length a)) = Some r
    \<and> (if key \<in> set a then 0 \<le> r \<and> r < int (length a) \<and> a ! nat r = key else r = -1)"
proof (cases "key \<in> set a")
  case True
  from dispatched.search_present[OF assms True, of "set_backend_preference pref s"] show ?thesis using True by auto
next
  case False
  from dispatched.search_absent[OF assms False, of "set_backend_preference pref s"] show ?thesis using False by simp
qed

theorem dispatched_search_correct_witness:
  "\<exists>r. binary_search_i64 placeholder_backends (set_backend_preference Force_cuda initial_settings) [2, 4, 8] 8 3 = Some r \<and> r = 2"
proof -
  have "sorted [2, 4, 8 :: int]" by simp
  from dispatched_search_correct[OF this, of Force_cuda initial_settings 8] obtain r where
    r: "binary_search_i64 placeholder_backends (set_backend_preference Force_cuda initial_settings) [2, 4, 8] 8 3 = Some r"
      "0 \<le> r" "r < 3" "[2, 4, 8] ! nat r = (8 :: int)" by auto
  then have "r = 0 \<or> r = 1 \<or> r = 2" by linarith
  then show ?thesis using r by (auto simp: numeral_nat)
qed

text \<open>
  C28: Both AVX2 searches are correct although they probe four positions per step and, in the
  pipelined one, load the next value early: they terminate, stay inside the array, and find
  the key exactly if it is there.
\<close>

theorem simd_searches_correct:
  assumes "sorted a"
  shows "\<exists>r r'. simd_binary_search a key (int (length a)) = Some r \<and> simd_optimized_binary_search a key (int (length a)) = Some r'
    \<and> (if key \<in> set a then a ! nat r = key \<and> a ! nat r' = key \<and> 0 \<le> r \<and> 0 \<le> r' \<and> r < int (length a) \<and> r' < int (length a)
       else r = -1 \<and> r' = -1)"
proof (cases "key \<in> set a")
  case True
  from simd.search_present[OF assms True] simd_optimized.search_present[OF assms True] show ?thesis using True by auto
next
  case False
  from simd.search_absent[OF assms False] simd_optimized.search_absent[OF assms False] show ?thesis using False by auto
qed

theorem simd_searches_correct_witness:
  "simd_binary_search (map int [0..<100]) 200 100 = Some (-1)"
proof -
  have "sorted (map int [0..<100])" by (simp add: sorted_iff_nth_mono)
  moreover have "(200 :: int) \<notin> set (map int [0..<100])" by auto
  ultimately show ?thesis using simd_searches_correct[of "map int [0..<100]" 200] by auto
qed

text \<open>
  The benchmark's check accepts every correct routine on arrays of distinct elements, as
  its test data are: there the AVX2 searches return the very index of the reference, for any
  list of keys.
\<close>

theorem verification_accepts_simd:
  assumes "sorted a" and "distinct a"
  shows "verify_function simd_binary_search a (int (length a)) keys = Some 1
    \<and> verify_function simd_optimized_binary_search a (int (length a)) keys = Some 1
    \<and> simd_binary_search a key (int (length a)) = binary_search_ref a key (int (length a))"
  using verify_accepts[OF simd.search_routine_axioms assms] verify_accepts[OF simd_optimized.search_routine_axioms assms]
    simd.search_unique[OF assms] reference.search_unique[OF assms] by simp

theorem verification_accepts_simd_witness:
  "verify_function simd_binary_search (map (\<lambda>i. int i * 2) [0..<1000]) 1000 [4, 5] = Some 1"
proof -
  have "sorted (map (\<lambda>i. int i * 2) [0..<1000])" "distinct (map (\<lambda>i. int i * 2) [0..<1000])"
    by (simp_all add: sorted_iff_nth_mono distinct_map inj_on_def)
  from verification_accepts_simd[OF this, of "[4, 5]"] show ?thesis by simp
qed

text \<open>
  The benchmark exercises both outcomes of a search and its check passes. Whatever \<open>rand\<close>
  returns, a key meant to exist is found at the very index it was drawn from and a key meant
  to be absent gives -1, and both AVX2 searches agree with the reference on the keys checked.
\<close>

theorem benchmark_data:
  assumes "0 < sz" and "\<And>i. 0 \<le> rnd i"
  shows "binary_search_ref (bench_array sz) (bench_key sz rnd k) (int sz)
      = Some (if rnd (2 * k) mod 2 = 0 then rnd (2 * k + 1) mod int sz else -1)
    \<and> bench_correct simd_binary_search sz rnd = Some 1
    \<and> bench_correct simd_optimized_binary_search sz rnd = Some 1"
proof -
  note arr = bench_array_facts[of sz]
  let ?r = "rnd (2 * k + 1) mod int sz"
  have r: "0 \<le> ?r" "?r < int sz" using assms(1) by simp_all
  have "binary_search_ref (bench_array sz) (bench_key sz rnd k) (int sz)
      = Some (if rnd (2 * k) mod 2 = 0 then ?r else -1)"
  proof (cases "rnd (2 * k) mod 2 = 0")
    case True
    obtain j where j: "?r = int j" "j < sz" using r by (metis nonneg_int_cases of_nat_less_iff)
    then have "int j * 2 \<in> set (bench_array sz)" by (simp add: bench_array_def)
    then have "binary_search_ref (bench_array sz) (int j * 2) (int sz) = Some (int j)"
      using bench_array_index[OF j(2)] reference.search_unique[OF arr(1,2), of "int j * 2"] arr(3) by simp
    then show ?thesis using True j(1) by (simp add: bench_key_def)
  next
    case False
    have "m * 2 + 1 \<noteq> n * 2" for m n :: int by presburger
    then have "?r * 2 + 1 \<notin> set (bench_array sz)" by (auto simp: bench_array_def)
    then show ?thesis using False reference.search_absent[OF arr(1), of "?r * 2 + 1"] arr(3) by (simp add: bench_key_def)
  qed
  then show ?thesis
    using verify_accepts[OF simd.search_routine_axioms arr(1,2)] verify_accepts[OF simd_optimized.search_routine_axioms arr(1,2)]
    by (simp add: bench_correct_def arr(3))
qed

theorem benchmark_data_witness:
  "binary_search_ref (bench_array 10000) (bench_key 10000 int 6) 10000 = Some 13 \<and> bench_correct simd_binary_search 10000 int = Some 1"
  using benchmark_data[of 10000 int 6] by simp

text \<open>
  The dispatcher falls back to the reference whenever the preferred backend is missing or
  its stub fails, \<open>FORCE_CPU\<close> never consults a GPU backend, and the other settings do not
  influence the search. A backend that reported success would make every search answer -1:
  the success branch is a placeholder.
\<close>

theorem dispatch_fallback:
  shows "binary_search_i64 gpu (set_backend_preference Force_cpu s) a key sz = binary_search_ref a key sz
    \<and> binary_search_i64 placeholder_backends s a key sz = binary_search_ref a key sz
    \<and> binary_search_i64 gpu (set_threads_hint n (set_cache_hint h s)) a key sz = binary_search_i64 gpu s a key sz
    \<and> binary_search_i64 \<lparr>cuda_available = 1, cuda_stub = 0, opencl_available = 0, opencl_stub = -1\<rparr> initial_settings a key sz = Some (-1)"
  by (simp add: dispatch_placeholder)
    (simp add: binary_search_i64_def set_backend_preference_def set_threads_hint_def set_cache_hint_def initial_settings_def Let_def)

end
