(* ===== verification/Assembly_Searches.thy ===== *)
theory Assembly_Searches
  imports X86_Machine Binary_Searches
begin

text \<open>
  The assembly searches \<open>src/backends/cpu/x86_64/binary_search_win64.asm\<close> that the benchmark
  suite links: branching, branchless (\<open>cmov\<close>) and software pipelined. Each is the listing of
  its source, instruction by instruction. They are shown to return what the C reference
  returns on every array, sorted or not, to keep the registers the Windows calling convention
  protects, and to write to their stack frame only.
\<close>

section \<open>The listings\<close>

definition branching_code :: "instr list" where
  "branching_code =
       [Push RBX, Push RSI, Push RDI, Push R12, Push R13, Push R14, Push R15, Push RBP, Mov RBP RSP,
      Mov R12 RCX, Mov R13 RDX, Mov R14 R8, Xor RAX RAX, Mov RBX R14, Dec RBX,
      Label ''search_loop'', Cmp RAX RBX, Jg ''not_found'',
      Mov RCX RAX, Add_reg RCX RBX, Shr RCX 1, Load RDX R12 RCX, Cmp RDX R13, Je ''found'',
      Jl ''greater'',
      Label ''less'', Mov RBX RCX, Dec RBX, Jmp ''search_loop'',
      Label ''greater'', Mov RAX RCX, Inc RAX, Jmp ''search_loop'',
      Label ''found'', Mov RAX RCX, Jmp ''done'',
      Label ''not_found'', Mov_imm RAX (-1),
      Label ''done'', Mov RSP RBP, Pop RBP, Pop R15, Pop R14, Pop R13, Pop R12, Pop RDI, Pop RSI,
      Pop RBX, Ret]"

definition branchless_code :: "instr list" where
  "branchless_code =
       [Push RBX, Push RSI, Push RDI, Push R12, Push R13, Push R14, Push R15, Push RBP, Mov RBP RSP,
      Mov R12 RCX, Mov R13 RDX, Mov R14 R8, Xor RAX RAX, Mov RBX R14, Dec RBX, Mov_imm R15 (-1),
      Label ''search_loop_cmov'', Cmp RAX RBX, Jg ''done_cmov'',
      Mov RCX RAX, Add_reg RCX RBX, Shr RCX 1, Load RDX R12 RCX, Cmp RDX R13, Je ''found_cmov'',
      Lea RDI RCX 1, Lea RSI RCX (-1), Cmovl RAX RDI, Cmovg RBX RSI, Jmp ''search_loop_cmov'',
      Label ''found_cmov'', Mov RAX RCX, Mov RSP RBP, Pop RBP, Pop R15, Pop R14, Pop R13, Pop R12,
      Pop RDI, Pop RSI, Pop RBX, Ret,
      Label ''done_cmov'', Mov RAX R15, Mov RSP RBP, Pop RBP, Pop R15, Pop R14, Pop R13, Pop R12,
      Pop RDI, Pop RSI, Pop RBX, Ret]"

definition optimized_code :: "instr list" where
  "optimized_code =
       [Push RBX, Push RSI, Push RDI, Push R12, Push R13, Push R14, Push R15, Push RBP, Mov RBP RSP,
      Mov R12 RCX, Mov R13 RDX, Mov R14 R8, Xor RAX RAX, Mov RBX R14, Dec RBX, Cmp RAX RBX, Jg ''not_found_opt'',
      Mov RCX RAX, Add_reg RCX RBX, Shr RCX 1, Load RDX R12 RCX,
      Label ''search_loop_opt'', Cmp RDX R13, Je ''found_opt'',
      Jl ''greater_opt'',
      Label ''less_opt'', Mov RBX RCX, Dec RBX, Cmp RAX RBX, Jg ''not_found_opt'',
      Mov RCX RAX, Add_reg RCX RBX, Shr RCX 1, Load RDX R12 RCX, Jmp ''search_loop_opt'',
      Label ''greater_opt'', Mov RAX RCX, Inc RAX, Cmp RAX RBX, Jg ''not_found_opt'',
      Mov RCX RAX, Add_reg RCX RBX, Shr RCX 1, Load RDX R12 RCX, Jmp ''search_loop_opt'',
      Label ''found_opt'', Mov RAX RCX, Jmp ''done_opt'',
      Label ''not_found_opt'', Mov_imm RAX (-1),
      Label ''done_opt'', Mov RSP RBP, Pop RBP, Pop R15, Pop R14, Pop R13, Pop R12, Pop RDI,
      Pop RSI, Pop RBX, Ret]"

section \<open>Calling convention\<close>

text \<open>
  A call: the array, the key and the size in the first three argument registers, the return
  address on top of an aligned stack with 64 bytes of room below it, none of them in the array.
\<close>

definition aligned :: "u64 \<Rightarrow> bool" where
  "aligned a \<longleftrightarrow> unat a mod 8 = 0"

definition frame_cells :: "u64 \<Rightarrow> u64 list" where
  "frame_cells rsp = map (\<lambda>k. rsp - 8 * k) [1, 2, 3, 4, 5, 6, 7, 8]"

definition called :: "u64 list \<Rightarrow> u64 \<Rightarrow> machine \<Rightarrow> bool" where
  "called arr key s \<longleftrightarrow>
     returned s = None \<and> ip s = 0
     \<and> regs s RDX = key \<and> regs s R8 = word_of_nat (length arr) \<and> length arr < 2 ^ 60
     \<and> aligned (regs s RCX) \<and> aligned (regs s RSP) \<and> cells s (regs s RSP) \<noteq> None
     \<and> (\<forall>a\<in>set (frame_cells (regs s RSP)). cells s a \<noteq> None)
     \<and> (\<forall>i<length arr. cells s (regs s RCX + word_of_nat i * 8) = Some (arr ! i)
          \<and> regs s RCX + word_of_nat i * 8 \<notin> set (frame_cells (regs s RSP)))"

definition protected :: "reg list" where
  "protected = [RBX, RSI, RDI, R12, R13, R14, R15, RBP]"

definition returns :: "machine \<Rightarrow> int \<Rightarrow> machine \<Rightarrow> bool" where
  "returns s v s' \<longleftrightarrow>
     returned s' = cells s (regs s RSP) \<and> regs s' RAX = word_of_int v
     \<and> (\<forall>r\<in>set protected. regs s' r = regs s r) \<and> regs s' RSP = regs s RSP + 8
     \<and> (\<forall>a. a \<notin> set (frame_cells (regs s RSP)) \<longrightarrow> cells s' a = cells s a)"

section \<open>Prologue and epilogue\<close>

definition prologue :: "instr list" where
  "prologue =
     [Push RBX, Push RSI, Push RDI, Push R12, Push R13, Push R14, Push R15, Push RBP, Mov RBP RSP,
      Mov R12 RCX, Mov R13 RDX, Mov R14 R8, Xor RAX RAX, Mov RBX R14, Dec RBX]"

definition epilogue :: "instr list" where
  "epilogue = [Mov RSP RBP, Pop RBP, Pop R15, Pop R14, Pop R13, Pop R12, Pop RDI, Pop RSI, Pop RBX, Ret]"

definition saved_cells :: "machine \<Rightarrow> u64 \<Rightarrow> u64 option" where
  "saved_cells s =
     (let rsp = regs s RSP
      in (cells s)(rsp - 8 \<mapsto> regs s RBX, rsp - 16 \<mapsto> regs s RSI, rsp - 24 \<mapsto> regs s RDI,
                   rsp - 32 \<mapsto> regs s R12, rsp - 40 \<mapsto> regs s R13, rsp - 48 \<mapsto> regs s R14,
                   rsp - 56 \<mapsto> regs s R15, rsp - 64 \<mapsto> regs s RBP))"

text \<open>Inside a routine called in state \<open>s0\<close>, with the bounds \<open>l\<close> and \<open>r\<close>.\<close>

definition inside :: "machine \<Rightarrow> int \<Rightarrow> int \<Rightarrow> machine \<Rightarrow> bool" where
  "inside s0 l r s \<longleftrightarrow>
     returned s = None \<and> cells s = saved_cells s0
     \<and> regs s R12 = regs s0 RCX \<and> regs s R13 = regs s0 RDX \<and> regs s RBP = regs s0 RSP - 64
     \<and> regs s RAX = word_of_int l \<and> regs s RBX = word_of_int r"

lemma aligned_dvd: "aligned a \<longleftrightarrow> 8 dvd unat a"
  by (auto simp: aligned_def)

lemma dvd_size_t: "(8 :: nat) dvd n mod 2 ^ 64 \<longleftrightarrow> 8 dvd n"
  by (rule dvd_mod_iff) simp

lemma aligned_add: "aligned a \<Longrightarrow> aligned b \<Longrightarrow> aligned (a + b)"
  using dvd_size_t[of "unat a + unat b"] by (simp add: aligned_dvd unat_word_ariths)

lemma aligned_mult8: "aligned (a * 8)"
  using dvd_size_t[of "unat a * 8"] by (simp add: aligned_dvd unat_word_ariths)

lemma aligned_diff8: "aligned a \<Longrightarrow> aligned (a - b * 8)"
  using aligned_add[of a "(- b) * 8"] aligned_mult8[of "- b"] by simp

lemma frame_aligned:
  assumes "aligned rsp"
  shows "unat (rsp - 8) mod 8 = 0" "unat (rsp - 16) mod 8 = 0" "unat (rsp - 24) mod 8 = 0" "unat (rsp - 32) mod 8 = 0"
    "unat (rsp - 40) mod 8 = 0" "unat (rsp - 48) mod 8 = 0" "unat (rsp - 56) mod 8 = 0" "unat (rsp - 64) mod 8 = 0"
  using assms aligned_diff8[of rsp 1] aligned_diff8[of rsp 2] aligned_diff8[of rsp 3] aligned_diff8[of rsp 4]
    aligned_diff8[of rsp 5] aligned_diff8[of rsp 6] aligned_diff8[of rsp 7] aligned_diff8[of rsp 8]
  by (simp_all add: aligned_def)

lemmas machine_simps = step_def numeral_2_eq_2[symmetric] Let_def store_cell_def load_cell_def set_reg_def set_arith_def

lemma steps_prologue:
  assumes code: "take 15 code = prologue" and call: "called arr key s"
  shows "\<exists>s'. steps 15 code s = Some s' \<and> inside s 0 (int (length arr) - 1) s' \<and> ip s' = 15 \<and> flags s' = None"
proof -
  have "code ! i = prologue ! i" if "i < 15" for i
    using that code by (metis nth_take)
  from this[of 0] this[of 1] this[of 2] this[of 3] this[of 4] this[of 5] this[of 6] this[of 7] this[of 8] this[of 9]
    this[of 10] this[of 11] this[of 12] this[of 13] this[of 14]
  have fetch: "code ! 0 = Push RBX" "code ! Suc 0 = Push RSI" "code ! 2 = Push RDI" "code ! 3 = Push R12" "code ! 4 = Push R13"
    "code ! 5 = Push R14" "code ! 6 = Push R15" "code ! 7 = Push RBP" "code ! 8 = Mov RBP RSP" "code ! 9 = Mov R12 RCX"
    "code ! 10 = Mov R13 RDX" "code ! 11 = Mov R14 R8" "code ! 12 = Xor RAX RAX" "code ! 13 = Mov RBX R14" "code ! 14 = Dec RBX"
    by (simp_all add: prologue_def)
  have len: "15 \<le> length code" using arg_cong[OF code, of length] by (simp add: prologue_def)
  let ?rsp = "regs s RSP"
  have "\<forall>a\<in>set (frame_cells ?rsp). \<exists>v. cells s a = Some v" using call by (simp add: called_def)
  then have mapped: "\<exists>v. cells s (?rsp - 8) = Some v" "\<exists>v. cells s (?rsp - 16) = Some v" "\<exists>v. cells s (?rsp - 24) = Some v"
    "\<exists>v. cells s (?rsp - 32) = Some v" "\<exists>v. cells s (?rsp - 40) = Some v" "\<exists>v. cells s (?rsp - 48) = Some v"
    "\<exists>v. cells s (?rsp - 56) = Some v" "\<exists>v. cells s (?rsp - 64) = Some v"
    by (simp_all add: frame_cells_def)
  have size: "regs s R8 - 1 = word_of_int (int (length arr) - 1)" using call by (simp add: called_def)
  have "aligned ?rsp" "returned s = None" "ip s = 0" using call by (simp_all add: called_def)
  note al = frame_aligned[OF this(1)]
  show ?thesis
    using len mapped size \<open>returned s = None\<close> \<open>ip s = 0\<close>
    by (simp add: machine_simps fetch al) (auto simp: inside_def saved_cells_def Let_def)
qed

lemma steps_epilogue:
  assumes code: "take 10 (drop (ip s) code) = epilogue" and call: "called arr key s0"
    and ins: "returned s = None" "cells s = saved_cells s0" "regs s RBP = regs s0 RSP - 64" "regs s RAX = word_of_int v"
  shows "\<exists>s'. steps 10 code s = Some s' \<and> returns s0 v s'"
proof -
  have len: "ip s + 10 \<le> length code" using arg_cong[OF code, of length] by (simp add: epilogue_def)
  have "code ! (ip s + i) = epilogue ! i" if "i < 10" for i
    unfolding code[symmetric] using that len by simp
  from this[of 0] this[of 1] this[of 2] this[of 3] this[of 4] this[of 5] this[of 6] this[of 7] this[of 8] this[of 9]
  have fetch: "code ! ip s = Mov RSP RBP" "code ! Suc (ip s) = Pop RBP" "code ! Suc (Suc (ip s)) = Pop R15"
    "code ! (Suc (Suc (Suc (ip s)))) = Pop R14" "code ! (Suc (Suc (Suc (Suc (ip s))))) = Pop R13"
    "code ! (Suc (Suc (Suc (Suc (Suc (ip s)))))) = Pop R12" "code ! (Suc (Suc (Suc (Suc (Suc (Suc (ip s))))))) = Pop RDI"
    "code ! (Suc (Suc (Suc (Suc (Suc (Suc (Suc (ip s)))))))) = Pop RSI"
    "code ! (Suc (Suc (Suc (Suc (Suc (Suc (Suc (Suc (ip s))))))))) = Pop RBX"
    "code ! (Suc (Suc (Suc (Suc (Suc (Suc (Suc (Suc (Suc (ip s)))))))))) = Ret"
    by (simp_all add: epilogue_def eval_nat_numeral)
  let ?rsp = "regs s0 RSP"
  have rsp: "aligned ?rsp" "\<exists>v. cells s0 ?rsp = Some v" using call by (auto simp: called_def)
  note al = frame_aligned[OF rsp(1)] rsp(1)[unfolded aligned_def]
  have stack: "saved_cells s0 (?rsp - 8) = Some (regs s0 RBX)" "saved_cells s0 (?rsp - 16) = Some (regs s0 RSI)"
    "saved_cells s0 (?rsp - 24) = Some (regs s0 RDI)" "saved_cells s0 (?rsp - 32) = Some (regs s0 R12)"
    "saved_cells s0 (?rsp - 40) = Some (regs s0 R13)" "saved_cells s0 (?rsp - 48) = Some (regs s0 R14)"
    "saved_cells s0 (?rsp - 56) = Some (regs s0 R15)" "saved_cells s0 (?rsp - 64) = Some (regs s0 RBP)"
    "saved_cells s0 ?rsp = cells s0 ?rsp"
    by (simp_all add: saved_cells_def Let_def)
  have "\<exists>s'. steps 10 code s = Some s' \<and> returned s' = cells s0 ?rsp \<and> cells s' = saved_cells s0
    \<and> regs s' = (regs s)(RBP := regs s0 RBP, R15 := regs s0 R15, R14 := regs s0 R14, R13 := regs s0 R13,
        R12 := regs s0 R12, RDI := regs s0 RDI, RSI := regs s0 RSI, RBX := regs s0 RBX, RSP := ?rsp + 8)"
    using len rsp(2) ins(1-3) by (auto simp: machine_simps fetch al stack fun_eq_iff)
  moreover have "saved_cells s0 a = cells s0 a" if "a \<notin> set (frame_cells ?rsp)" for a
    using that by (simp add: saved_cells_def frame_cells_def Let_def)
  ultimately show ?thesis using ins(4) by (auto simp: returns_def protected_def)
qed

section \<open>One probe\<close>

lemma sint_word: "- (2 ^ 63) \<le> i \<Longrightarrow> i < 2 ^ 63 \<Longrightarrow> sint (word_of_int i :: u64) = i"
  by (simp add: sint_sbintrunc' signed_take_bit_int_eq_self)

lemma middle_word:
  assumes "0 \<le> l" and "l \<le> r" and "r < 2 ^ 60"
  shows "drop_bit 1 (word_of_int l + word_of_int r :: u64) = word_of_int (l + (r - l) div 2)"
proof -
  have "l + r = 2 * l + (r - l)" by simp
  then have m: "l + (r - l) div 2 = (l + r) div 2" by simp
  have "uint (word_of_int (l + r) :: u64) = l + r" using assms by (simp add: uint_word_of_int del: of_int_add)
  then have "uint (drop_bit 1 (word_of_int l + word_of_int r :: u64)) = (l + r) div 2"
    by (simp add: drop_bit_eq_div uint_div_distrib flip: of_int_add)
  then show ?thesis unfolding m by (metis word_of_int_uint)
qed

lemma called_array:
  assumes "called arr key s0" and "0 \<le> i" and "i < int (length arr)"
  shows "saved_cells s0 (regs s0 RCX + word_of_int i * 8) = Some (arr ! nat i)"
    and "unat (regs s0 RCX + word_of_int i * 8) mod 8 = 0"
proof -
  let ?a = "regs s0 RCX + word_of_nat (nat i) * 8"
  have "nat i < length arr" using assms(2,3) by linarith
  then have "cells s0 ?a = Some (arr ! nat i)" "?a \<notin> set (frame_cells (regs s0 RSP))"
    using assms(1) by (simp_all add: called_def)
  moreover have "word_of_nat (nat i) = (word_of_int i :: u64)" using assms(2) by simp
  ultimately show "saved_cells s0 (regs s0 RCX + word_of_int i * 8) = Some (arr ! nat i)"
    by (simp add: saved_cells_def frame_cells_def Let_def)
  show "unat (regs s0 RCX + word_of_int i * 8) mod 8 = 0"
    using aligned_add[OF _ aligned_mult8, of "regs s0 RCX"] assms(1) by (simp add: called_def aligned_def)
qed

text \<open>What the C reference does at a probe.\<close>

lemma probe_bounds:
  assumes "0 \<le> l" and "l \<le> r" and "r < int n"
  defines "m \<equiv> l + (r - l) div 2"
  shows "0 \<le> m" "l \<le> m" "m \<le> r" "m < int n"
  using assms by (auto simp: m_def)

lemma ref_loop_probe:
  fixes key :: u64
  assumes "0 \<le> l" and "l \<le> r" and "r < int (length arr)"
  defines "m \<equiv> l + (r - l) div 2"
  shows "ref_loop (map sint arr) (sint key) l r =
      (if arr ! nat m = key then Some m
       else if sint (arr ! nat m) < sint key then ref_loop (map sint arr) (sint key) (m + 1) r
       else ref_loop (map sint arr) (sint key) l (m - 1))"
proof -
  note m = probe_bounds[OF assms(1-3), folded m_def]
  have "read (map sint arr) m = Some (sint (arr ! nat m))" using m by (auto simp: read_def)
  moreover have "sint (arr ! nat m) = sint key \<longleftrightarrow> arr ! nat m = key" by (auto intro: signed_word_eqI)
  ultimately show ?thesis using assms(2) by (simp add: ref_loop.simps[of _ _ l r] m_def Let_def)
qed

text \<open>The facts a symbolic execution of a probe needs.\<close>

lemma probe_facts:
  assumes "called arr key s0" and "0 \<le> l" "l \<le> r" "r < int (length arr)"
  defines "m \<equiv> l + (r - l) div 2"
  shows "\<not> sint (word_of_int r :: u64) < sint (word_of_int l :: u64)"
    and "drop_bit (Suc 0) (word_of_int l + word_of_int r :: u64) = word_of_int m"
    and "saved_cells s0 (regs s0 RCX + word_of_int m * 8) = Some (arr ! nat m)"
    and "unat (regs s0 RCX + word_of_int m * 8) mod 8 = 0"
proof -
  have len: "length arr < 2 ^ 60" using assms(1) by (simp add: called_def)
  note m = probe_bounds[OF assms(2-4), folded m_def]
  show "\<not> sint (word_of_int r :: u64) < sint (word_of_int l :: u64)" using assms(2-4) len by (simp add: sint_word)
  have "drop_bit 1 (word_of_int l + word_of_int r :: u64) = word_of_int m"
    unfolding m_def using assms(2-4) len by (intro middle_word) simp_all
  then show "drop_bit (Suc 0) (word_of_int l + word_of_int r :: u64) = word_of_int m" by simp
qed (rule called_array[OF assms(1) probe_bounds(1,4)[OF assms(2-4), folded m_def]])+

lemma crossed_bounds:
  assumes "called arr key s0" and "0 \<le> l" "r < l" "l \<le> int (length arr)" "- 1 \<le> r"
  shows "sint (word_of_int r :: u64) < sint (word_of_int l :: u64)"
  using assms by (simp add: sint_word called_def)

section \<open>The contract of a routine\<close>

lemma steps_add: "steps k code s = Some t \<Longrightarrow> steps (k + j) code s = steps j code t"
  by (induction k arbitrary: s) (auto split: option.splits)

lemma then_returns:
  assumes "\<exists>s'. steps k code s = Some s' \<and> P s'" and "\<And>t. P t \<Longrightarrow> \<exists>s'. steps j code t = Some s' \<and> Q s'" and "k + j \<le> n"
  shows "\<exists>i s'. i \<le> n \<and> steps i code s = Some s' \<and> Q s'"
proof -
  from assms(1) obtain t where t: "steps k code s = Some t" "P t" by blast
  from assms(2)[OF t(2)] obtain s' where "steps j code t = Some s'" "Q s'" by blast
  then show ?thesis using steps_add[OF t(1), of j] assms(3) by (intro exI[of _ "k + j"] exI[of _ s']) simp
qed

text \<open>
  \<open>at_head\<close> describes the machine when the loop decides about the bounds \<open>l\<close> and \<open>r\<close>. The
  numbers of instructions are bounds that all three routines keep.
\<close>

locale search_code =
  fixes code :: "instr list" and at_head :: "u64 list \<Rightarrow> machine \<Rightarrow> int \<Rightarrow> int \<Rightarrow> machine \<Rightarrow> bool"
  assumes entry: "called arr key s0 \<Longrightarrow>
      \<exists>k s. k \<le> 21 \<and> steps k code s0 = Some s \<and> at_head arr s0 0 (int (length arr) - 1) s"
    and absent: "called arr key s0 \<Longrightarrow> at_head arr s0 l r s \<Longrightarrow> 0 \<le> l \<Longrightarrow> r < l \<Longrightarrow> l \<le> int (length arr) \<Longrightarrow> - 1 \<le> r \<Longrightarrow>
      \<exists>k s'. k \<le> 23 \<and> steps k code s = Some s' \<and> returns s0 (- 1) s'"
    and equal: "called arr key s0 \<Longrightarrow> at_head arr s0 l r s \<Longrightarrow> 0 \<le> l \<Longrightarrow> l \<le> r \<Longrightarrow> r < int (length arr) \<Longrightarrow>
      arr ! nat (l + (r - l) div 2) = key \<Longrightarrow>
      \<exists>k s'. k \<le> 23 \<and> steps k code s = Some s' \<and> returns s0 (l + (r - l) div 2) s'"
    and less: "called arr key s0 \<Longrightarrow> at_head arr s0 l r s \<Longrightarrow> 0 \<le> l \<Longrightarrow> l \<le> r \<Longrightarrow> r < int (length arr) \<Longrightarrow>
      sint (arr ! nat (l + (r - l) div 2)) < sint key \<Longrightarrow>
      \<exists>k s'. k \<le> 14 \<and> steps k code s = Some s' \<and> at_head arr s0 (l + (r - l) div 2 + 1) r s'"
    and greater: "called arr key s0 \<Longrightarrow> at_head arr s0 l r s \<Longrightarrow> 0 \<le> l \<Longrightarrow> l \<le> r \<Longrightarrow> r < int (length arr) \<Longrightarrow>
      sint key < sint (arr ! nat (l + (r - l) div 2)) \<Longrightarrow>
      \<exists>k s'. k \<le> 14 \<and> steps k code s = Some s' \<and> at_head arr s0 l (l + (r - l) div 2 - 1) s'"
begin

text \<open>Every probe halves the range.\<close>

lemma search_loop:
  assumes call: "called arr key s0"
  shows "at_head arr s0 l r s \<Longrightarrow> 0 \<le> l \<Longrightarrow> l \<le> r + 1 \<Longrightarrow> r < int (length arr) \<Longrightarrow> r - l + 1 < 2 ^ b \<Longrightarrow>
    \<exists>k s' v. k \<le> 14 * b + 23 \<and> steps k code s = Some s' \<and> ref_loop (map sint arr) (sint key) l r = Some v \<and> returns s0 v s'"
proof (induction b arbitrary: l r s)
  case 0
  then have "r < l" "l \<le> int (length arr)" "- 1 \<le> r" by auto
  from absent[OF call "0.prems"(1,2) this] show ?case using \<open>r < l\<close> by (force simp: ref_loop.simps[of _ _ l r])
next
  case (Suc b)
  show ?case
  proof (cases "l \<le> r")
    case False
    then have "r < l" "l \<le> int (length arr)" "- 1 \<le> r" using Suc.prems by auto
    from absent[OF call Suc.prems(1,2) this] obtain k s' where "k \<le> 23" "steps k code s = Some s'" "returns s0 (- 1) s'"
      by blast
    then show ?thesis using False
      by (intro exI[of _ k] exI[of _ s'] exI[of _ "- 1"]) (simp add: ref_loop.simps[of _ _ l r])
  next
    case True
    let ?m = "l + (r - l) div 2"
    note ref = ref_loop_probe[OF Suc.prems(2) True Suc.prems(4), of key]
    note m = probe_bounds[OF Suc.prems(2) True Suc.prems(4)]
    have halved: "r - (?m + 1) + 1 < 2 ^ b" "(?m - 1) - l + 1 < 2 ^ b" using Suc.prems(5) True by auto
    have follow: "\<exists>k s' v. k \<le> 14 * Suc b + 23 \<and> steps k code s = Some s' \<and> ref_loop (map sint arr) (sint key) l r = Some v \<and> returns s0 v s'"
      if "\<exists>k t. k \<le> 14 \<and> steps k code s = Some t \<and> at_head arr s0 l' r' t"
        "ref_loop (map sint arr) (sint key) l r = ref_loop (map sint arr) (sint key) l' r'"
        "0 \<le> l'" "l' \<le> r' + 1" "r' < int (length arr)" "r' - l' + 1 < 2 ^ b" for l' r'
    proof -
      note hyps = that
      obtain k t where t: "k \<le> 14" "steps k code s = Some t" "at_head arr s0 l' r' t" using hyps(1) by blast
      from Suc.IH[OF t(3) hyps(3-6)] obtain j s' v where
        "j \<le> 14 * b + 23" "steps j code t = Some s'" "ref_loop (map sint arr) (sint key) l' r' = Some v" "returns s0 v s'" by blast
      then show ?thesis using t(1) steps_add[OF t(2), of j] hyps(2)
        by (intro exI[of _ "k + j"] exI[of _ s'] exI[of _ v]) simp
    qed
    consider "arr ! nat ?m = key" | "sint (arr ! nat ?m) < sint key" | "sint key < sint (arr ! nat ?m)"
      by (metis linorder_less_linear signed_word_eqI)
    then show ?thesis
    proof cases
      case 1
      from equal[OF call Suc.prems(1,2) True Suc.prems(4) 1] obtain k s' where
        "k \<le> 23" "steps k code s = Some s'" "returns s0 ?m s'" by blast
      then show ?thesis using 1 ref by (intro exI[of _ k] exI[of _ s'] exI[of _ ?m]) simp
    next
      case 2
      then have "ref_loop (map sint arr) (sint key) l r = ref_loop (map sint arr) (sint key) (?m + 1) r" using ref by auto
      then show ?thesis
        using less[OF call Suc.prems(1,2) True Suc.prems(4) 2] m Suc.prems(2,4) halved(1) by (intro follow[of "?m + 1" r]) auto
    next
      case 3
      then have "ref_loop (map sint arr) (sint key) l r = ref_loop (map sint arr) (sint key) l (?m - 1)" using ref by auto
      then show ?thesis
        using greater[OF call Suc.prems(1,2) True Suc.prems(4) 3] m Suc.prems(2,4) halved(2) by (intro follow[of l "?m - 1"]) auto
    qed
  qed
qed

lemma search_runs:
  assumes call: "called arr key s0" and "length arr < 2 ^ b"
  shows "\<exists>s' v. run_code (14 * b + 44) code s0 = Some s' \<and> returns s0 v s'
    \<and> binary_search_ref (map sint arr) (sint key) (int (length arr)) = Some v"
proof -
  from entry[OF call] obtain k s where k: "k \<le> 21" "steps k code s0 = Some s" "at_head arr s0 0 (int (length arr) - 1) s"
    by blast
  have "int (length arr) < int (2 ^ b)" using assms(2) by (simp only: of_nat_less_iff)
  then have "int (length arr) - 1 - 0 + 1 < 2 ^ b" by simp
  from search_loop[OF call k(3) _ _ _ this] obtain j s' v where
    j: "j \<le> 14 * b + 23" "steps j code s = Some s'" "ref_loop (map sint arr) (sint key) 0 (int (length arr) - 1) = Some v"
      "returns s0 v s'" by auto
  have ret: "returned s' \<noteq> None" using j(4) call unfolding returns_def called_def by (elim conjE) simp
  have "steps (k + j) code s0 = Some s'" by (simp only: steps_add[OF k(2)] j(2))
  from run_code_steps[OF this, of 0] have "run_code (k + j) code s0 = Some s'" using ret by simp
  moreover have "k + j \<le> 14 * b + 44" using k(1) j(1) by simp
  ultimately have "run_code (14 * b + 44) code s0 = Some s'" by (rule run_code_more)
  then show ?thesis using j(3,4) by (auto simp: binary_search_ref_def)
qed

end

section \<open>The branching routine\<close>

lemma branching_fetch:
  "branching_code ! 15 = Label ''search_loop''" "branching_code ! 16 = Cmp RAX RBX"
    "branching_code ! 17 = Jg ''not_found''" "branching_code ! 18 = Mov RCX RAX"
    "branching_code ! 19 = Add_reg RCX RBX" "branching_code ! 20 = Shr RCX 1"
    "branching_code ! 21 = Load RDX R12 RCX" "branching_code ! 22 = Cmp RDX R13"
    "branching_code ! 23 = Je ''found''" "branching_code ! 24 = Jl ''greater''"
    "branching_code ! 25 = Label ''less''" "branching_code ! 26 = Mov RBX RCX" "branching_code ! 27 = Dec RBX"
    "branching_code ! 28 = Jmp ''search_loop''" "branching_code ! 29 = Label ''greater''"
    "branching_code ! 30 = Mov RAX RCX" "branching_code ! 31 = Inc RAX"
    "branching_code ! 32 = Jmp ''search_loop''" "branching_code ! 33 = Label ''found''"
    "branching_code ! 34 = Mov RAX RCX" "branching_code ! 35 = Jmp ''done''"
    "branching_code ! 36 = Label ''not_found''" "branching_code ! 37 = Mov_imm RAX (-1)"
    "branching_code ! 38 = Label ''done''"
  by (simp_all add: branching_code_def)

lemma branching_jump:
  "jump branching_code ''search_loop'' s = Some (s\<lparr>ip := 15\<rparr>)"
  "jump branching_code ''less'' s = Some (s\<lparr>ip := 25\<rparr>)"
  "jump branching_code ''greater'' s = Some (s\<lparr>ip := 29\<rparr>)"
  "jump branching_code ''found'' s = Some (s\<lparr>ip := 33\<rparr>)"
  "jump branching_code ''not_found'' s = Some (s\<lparr>ip := 36\<rparr>)"
  "jump branching_code ''done'' s = Some (s\<lparr>ip := 38\<rparr>)"
  by (simp_all add: branching_code_def jump_def)

lemma branching_length: "length branching_code = 49"
  by (simp add: branching_code_def)

definition branching_head :: "u64 list \<Rightarrow> machine \<Rightarrow> int \<Rightarrow> int \<Rightarrow> machine \<Rightarrow> bool" where
  "branching_head arr s0 l r s \<longleftrightarrow> inside s0 l r s \<and> ip s = 15"

lemma branching_return:
  assumes "called arr key s0" and "ip s = 39" and "inside s0 v r s"
  shows "\<exists>s'. steps 10 branching_code s = Some s' \<and> returns s0 v s'"
  using assms(2,3) by (intro steps_epilogue[OF _ assms(1)]) (simp_all add: inside_def branching_code_def epilogue_def)

lemmas branching_symbolic = machine_simps jump_if_def branching_fetch branching_jump branching_length

lemma branching_probe:
  assumes "called arr key s0" and "branching_head arr s0 l r s" and "0 \<le> l" "l \<le> r" "r < int (length arr)"
  defines "m \<equiv> l + (r - l) div 2"
  shows "arr ! nat m = key \<Longrightarrow> \<exists>s'. steps 13 branching_code s = Some s' \<and> inside s0 m r s' \<and> ip s' = 39"
    and "sint (arr ! nat m) < sint key \<Longrightarrow> \<exists>s'. steps 14 branching_code s = Some s' \<and> branching_head arr s0 (m + 1) r s'"
    and "sint key < sint (arr ! nat m) \<Longrightarrow> \<exists>s'. steps 14 branching_code s = Some s' \<and> branching_head arr s0 l (m - 1) s'"
proof -
  have key: "regs s0 RDX = key" using assms(1) by (simp add: called_def)
  note symbolic = branching_symbolic probe_facts[OF assms(1,3-5), folded m_def] key
  show "arr ! nat m = key \<Longrightarrow> \<exists>s'. steps 13 branching_code s = Some s' \<and> inside s0 m r s' \<and> ip s' = 39"
    using assms(2) by (simp add: inside_def branching_head_def symbolic)
  show "sint (arr ! nat m) < sint key \<Longrightarrow> \<exists>s'. steps 14 branching_code s = Some s' \<and> branching_head arr s0 (m + 1) r s'"
    using assms(2) by (auto simp: inside_def branching_head_def symbolic)
  show "sint key < sint (arr ! nat m) \<Longrightarrow> \<exists>s'. steps 14 branching_code s = Some s' \<and> branching_head arr s0 l (m - 1) s'"
    using assms(2) by (auto simp: inside_def branching_head_def symbolic)
qed

interpretation branching: search_code branching_code branching_head
proof
  fix arr key s0 assume call: "called arr key s0"
  have "take 15 branching_code = prologue" by (simp add: branching_code_def prologue_def)
  from steps_prologue[OF this call] obtain s where s: "steps 15 branching_code s0 = Some s" "inside s0 0 (int (length arr) - 1) s" "ip s = 15"
    by blast
  then show "\<exists>k s. k \<le> 21 \<and> steps k branching_code s0 = Some s \<and> branching_head arr s0 0 (int (length arr) - 1) s"
    by (intro exI[of _ 15] exI[of _ s]) (simp add: branching_head_def)
next
  fix arr key s0 l r s
  assume call: "called arr key s0" and head: "branching_head arr s0 l r s"
    and b: "0 \<le> l" "r < l" "l \<le> int (length arr)" "- 1 \<le> r"
  have "\<exists>t. steps 6 branching_code s = Some t \<and> inside s0 (- 1) r t \<and> ip t = 39"
    using head crossed_bounds[OF call b] by (simp add: inside_def branching_head_def branching_symbolic)
  then show "\<exists>k s'. k \<le> 23 \<and> steps k branching_code s = Some s' \<and> returns s0 (- 1) s'"
    by (rule then_returns[where j = 10]) (use branching_return[OF call] in auto)
next
  fix arr key s0 l r s
  assume call: "called arr key s0" and head: "branching_head arr s0 l r s" and b: "0 \<le> l" "l \<le> r" "r < int (length arr)"
  note probe = branching_probe[OF call head b]
  let ?m = "l + (r - l) div 2"
  show "\<exists>k s'. k \<le> 23 \<and> steps k branching_code s = Some s' \<and> returns s0 ?m s'" if "arr ! nat ?m = key"
    by (rule then_returns[where j = 10, OF probe(1)[OF that]]) (use branching_return[OF call] in auto)
  show "\<exists>k s'. k \<le> 14 \<and> steps k branching_code s = Some s' \<and> branching_head arr s0 (?m + 1) r s'"
    if "sint (arr ! nat ?m) < sint key" using probe(2)[OF that] by blast
  show "\<exists>k s'. k \<le> 14 \<and> steps k branching_code s = Some s' \<and> branching_head arr s0 l (?m - 1) s'"
    if "sint key < sint (arr ! nat ?m)" using probe(3)[OF that] by blast
qed

section \<open>The branchless routine\<close>

lemma branchless_fetch:
  "branchless_code ! 15 = Mov_imm R15 (-1)" "branchless_code ! 16 = Label ''search_loop_cmov''"
    "branchless_code ! 17 = Cmp RAX RBX" "branchless_code ! 18 = Jg ''done_cmov''"
    "branchless_code ! 19 = Mov RCX RAX" "branchless_code ! 20 = Add_reg RCX RBX"
    "branchless_code ! 21 = Shr RCX 1" "branchless_code ! 22 = Load RDX R12 RCX"
    "branchless_code ! 23 = Cmp RDX R13" "branchless_code ! 24 = Je ''found_cmov''"
    "branchless_code ! 25 = Lea RDI RCX 1" "branchless_code ! 26 = Lea RSI RCX (-1)"
    "branchless_code ! 27 = Cmovl RAX RDI" "branchless_code ! 28 = Cmovg RBX RSI"
    "branchless_code ! 29 = Jmp ''search_loop_cmov''" "branchless_code ! 30 = Label ''found_cmov''"
    "branchless_code ! 31 = Mov RAX RCX" "branchless_code ! 42 = Label ''done_cmov''"
    "branchless_code ! 43 = Mov RAX R15"
  by (simp_all add: branchless_code_def)

lemma branchless_jump:
  "jump branchless_code ''search_loop_cmov'' s = Some (s\<lparr>ip := 16\<rparr>)"
  "jump branchless_code ''found_cmov'' s = Some (s\<lparr>ip := 30\<rparr>)"
  "jump branchless_code ''done_cmov'' s = Some (s\<lparr>ip := 42\<rparr>)"
  by (simp_all add: branchless_code_def jump_def)

lemma branchless_length: "length branchless_code = 54"
  by (simp add: branchless_code_def)

definition branchless_head :: "u64 list \<Rightarrow> machine \<Rightarrow> int \<Rightarrow> int \<Rightarrow> machine \<Rightarrow> bool" where
  "branchless_head arr s0 l r s \<longleftrightarrow> inside s0 l r s \<and> ip s = 16 \<and> regs s R15 = - 1"

lemma branchless_return:
  assumes "called arr key s0" and "ip s = 32 \<or> ip s = 44" and "inside s0 v r s"
  shows "\<exists>s'. steps 10 branchless_code s = Some s' \<and> returns s0 v s'"
  using assms(2,3) by (intro steps_epilogue[OF _ assms(1)]) (auto simp: inside_def branchless_code_def epilogue_def)

lemmas branchless_symbolic = machine_simps jump_if_def move_if_def branchless_fetch branchless_jump branchless_length

lemma branchless_probe:
  assumes "called arr key s0" and "branchless_head arr s0 l r s" and "0 \<le> l" "l \<le> r" "r < int (length arr)"
  defines "m \<equiv> l + (r - l) div 2"
  shows "arr ! nat m = key \<Longrightarrow> \<exists>s'. steps 11 branchless_code s = Some s' \<and> inside s0 m r s' \<and> ip s' = 32"
    and "sint (arr ! nat m) < sint key \<Longrightarrow> \<exists>s'. steps 14 branchless_code s = Some s' \<and> branchless_head arr s0 (m + 1) r s'"
    and "sint key < sint (arr ! nat m) \<Longrightarrow> \<exists>s'. steps 14 branchless_code s = Some s' \<and> branchless_head arr s0 l (m - 1) s'"
proof -
  have key: "regs s0 RDX = key" using assms(1) by (simp add: called_def)
  note symbolic = branchless_symbolic probe_facts[OF assms(1,3-5), folded m_def] key
  show "arr ! nat m = key \<Longrightarrow> \<exists>s'. steps 11 branchless_code s = Some s' \<and> inside s0 m r s' \<and> ip s' = 32"
    using assms(2) by (simp add: inside_def branchless_head_def symbolic)
  show "sint (arr ! nat m) < sint key \<Longrightarrow> \<exists>s'. steps 14 branchless_code s = Some s' \<and> branchless_head arr s0 (m + 1) r s'"
    using assms(2) by (auto simp: inside_def branchless_head_def symbolic)
  show "sint key < sint (arr ! nat m) \<Longrightarrow> \<exists>s'. steps 14 branchless_code s = Some s' \<and> branchless_head arr s0 l (m - 1) s'"
    using assms(2) by (auto simp: inside_def branchless_head_def symbolic)
qed

interpretation branchless: search_code branchless_code branchless_head
proof
  fix arr key s0 assume call: "called arr key s0"
  have "take 15 branchless_code = prologue" by (simp add: branchless_code_def prologue_def)
  from steps_prologue[OF this call] obtain s where s: "steps 15 branchless_code s0 = Some s"
    "inside s0 0 (int (length arr) - 1) s" "ip s = 15" by blast
  have "\<exists>t. steps 1 branchless_code s = Some t \<and> branchless_head arr s0 0 (int (length arr) - 1) t"
    using s(2,3) by (simp add: inside_def branchless_head_def branchless_symbolic)
  then show "\<exists>k t. k \<le> 21 \<and> steps k branchless_code s0 = Some t \<and> branchless_head arr s0 0 (int (length arr) - 1) t"
    using steps_add[OF s(1), of 1] by (intro exI[of _ 16]) simp
next
  fix arr key s0 l r s
  assume call: "called arr key s0" and head: "branchless_head arr s0 l r s"
    and b: "0 \<le> l" "r < l" "l \<le> int (length arr)" "- 1 \<le> r"
  have "\<exists>t. steps 5 branchless_code s = Some t \<and> inside s0 (- 1) r t \<and> ip t = 44"
    using head crossed_bounds[OF call b] by (simp add: inside_def branchless_head_def branchless_symbolic)
  then show "\<exists>k s'. k \<le> 23 \<and> steps k branchless_code s = Some s' \<and> returns s0 (- 1) s'"
    by (rule then_returns[where j = 10]) (use branchless_return[OF call] in auto)
next
  fix arr key s0 l r s
  assume call: "called arr key s0" and head: "branchless_head arr s0 l r s" and b: "0 \<le> l" "l \<le> r" "r < int (length arr)"
  note probe = branchless_probe[OF call head b]
  let ?m = "l + (r - l) div 2"
  show "\<exists>k s'. k \<le> 23 \<and> steps k branchless_code s = Some s' \<and> returns s0 ?m s'" if "arr ! nat ?m = key"
    by (rule then_returns[where j = 10, OF probe(1)[OF that]]) (use branchless_return[OF call] in auto)
  show "\<exists>k s'. k \<le> 14 \<and> steps k branchless_code s = Some s' \<and> branchless_head arr s0 (?m + 1) r s'"
    if "sint (arr ! nat ?m) < sint key" using probe(2)[OF that] by blast
  show "\<exists>k s'. k \<le> 14 \<and> steps k branchless_code s = Some s' \<and> branchless_head arr s0 l (?m - 1) s'"
    if "sint key < sint (arr ! nat ?m)" using probe(3)[OF that] by blast
qed

section \<open>The pipelined routine\<close>

text \<open>The loop is entered only with bounds that have not crossed, the middle value already loaded.\<close>

lemma optimized_fetch:
  "optimized_code ! 15 = Cmp RAX RBX" "optimized_code ! 16 = Jg ''not_found_opt''"
    "optimized_code ! 17 = Mov RCX RAX" "optimized_code ! 18 = Add_reg RCX RBX"
    "optimized_code ! 19 = Shr RCX 1" "optimized_code ! 20 = Load RDX R12 RCX"
    "optimized_code ! 21 = Label ''search_loop_opt''" "optimized_code ! 22 = Cmp RDX R13"
    "optimized_code ! 23 = Je ''found_opt''" "optimized_code ! 24 = Jl ''greater_opt''"
    "optimized_code ! 25 = Label ''less_opt''" "optimized_code ! 26 = Mov RBX RCX"
    "optimized_code ! 27 = Dec RBX" "optimized_code ! 28 = Cmp RAX RBX"
    "optimized_code ! 29 = Jg ''not_found_opt''" "optimized_code ! 30 = Mov RCX RAX"
    "optimized_code ! 31 = Add_reg RCX RBX" "optimized_code ! 32 = Shr RCX 1"
    "optimized_code ! 33 = Load RDX R12 RCX" "optimized_code ! 34 = Jmp ''search_loop_opt''"
    "optimized_code ! 35 = Label ''greater_opt''" "optimized_code ! 36 = Mov RAX RCX"
    "optimized_code ! 37 = Inc RAX" "optimized_code ! 38 = Cmp RAX RBX"
    "optimized_code ! 39 = Jg ''not_found_opt''" "optimized_code ! 40 = Mov RCX RAX"
    "optimized_code ! 41 = Add_reg RCX RBX" "optimized_code ! 42 = Shr RCX 1"
    "optimized_code ! 43 = Load RDX R12 RCX" "optimized_code ! 44 = Jmp ''search_loop_opt''"
    "optimized_code ! 45 = Label ''found_opt''" "optimized_code ! 46 = Mov RAX RCX"
    "optimized_code ! 47 = Jmp ''done_opt''" "optimized_code ! 48 = Label ''not_found_opt''"
    "optimized_code ! 49 = Mov_imm RAX (-1)" "optimized_code ! 50 = Label ''done_opt''"
  by (simp_all add: optimized_code_def)

lemma optimized_jump:
  "jump optimized_code ''search_loop_opt'' s = Some (s\<lparr>ip := 21\<rparr>)"
  "jump optimized_code ''less_opt'' s = Some (s\<lparr>ip := 25\<rparr>)"
  "jump optimized_code ''greater_opt'' s = Some (s\<lparr>ip := 35\<rparr>)"
  "jump optimized_code ''found_opt'' s = Some (s\<lparr>ip := 45\<rparr>)"
  "jump optimized_code ''not_found_opt'' s = Some (s\<lparr>ip := 48\<rparr>)"
  "jump optimized_code ''done_opt'' s = Some (s\<lparr>ip := 50\<rparr>)"
  by (simp_all add: optimized_code_def jump_def)

lemma optimized_length: "length optimized_code = 61"
  by (simp add: optimized_code_def)

definition optimized_head :: "u64 list \<Rightarrow> machine \<Rightarrow> int \<Rightarrow> int \<Rightarrow> machine \<Rightarrow> bool" where
  "optimized_head arr s0 l r s \<longleftrightarrow>
     inside s0 l r s
     \<and> (if l \<le> r
        then ip s = 21 \<and> regs s RCX = word_of_int (l + (r - l) div 2) \<and> regs s RDX = arr ! nat (l + (r - l) div 2)
        else ip s = 48)"

lemma optimized_return:
  assumes "called arr key s0" and "ip s = 51" and "inside s0 v r s"
  shows "\<exists>s'. steps 10 optimized_code s = Some s' \<and> returns s0 v s'"
  using assms(2,3) by (intro steps_epilogue[OF _ assms(1)]) (simp_all add: inside_def optimized_code_def epilogue_def)

lemmas optimized_symbolic = machine_simps jump_if_def optimized_fetch optimized_jump optimized_length

text \<open>Comparing the bounds and loading the next value, which the code has in three places.\<close>

lemma optimized_load:
  assumes "called arr key s0" and "inside s0 l r s" and "0 \<le> l" "l \<le> r + 1" "r < int (length arr)"
  shows "ip s = 15 \<Longrightarrow> \<exists>k s'. k \<le> 6 \<and> steps k optimized_code s = Some s' \<and> optimized_head arr s0 l r s'"
    and "ip s = 28 \<or> ip s = 38 \<Longrightarrow> \<exists>k s'. k \<le> 7 \<and> steps k optimized_code s = Some s' \<and> optimized_head arr s0 l r s'"
proof -
  have crossed: "l \<le> int (length arr)" "- 1 \<le> r" using assms(3-5) by auto
  define m where "m = l + (r - l) div 2"
  note symbolic = optimized_symbolic inside_def optimized_head_def m_def[symmetric]
  show "\<exists>k s'. k \<le> 6 \<and> steps k optimized_code s = Some s' \<and> optimized_head arr s0 l r s'" if "ip s = 15"
  proof (cases "l \<le> r")
    case True
    then have "\<exists>s'. steps 6 optimized_code s = Some s' \<and> optimized_head arr s0 l r s'"
      using that assms(2) by (auto simp: symbolic probe_facts[OF assms(1,3) True assms(5), folded m_def])
    then show ?thesis by blast
  next
    case False
    then have "\<exists>s'. steps 2 optimized_code s = Some s' \<and> optimized_head arr s0 l r s'"
      using that assms(2) crossed_bounds[OF assms(1,3) _ crossed] by (auto simp: symbolic)
    then show ?thesis by (intro exI[of _ 2]) simp
  qed
  show "\<exists>k s'. k \<le> 7 \<and> steps k optimized_code s = Some s' \<and> optimized_head arr s0 l r s'" if "ip s = 28 \<or> ip s = 38"
  proof (cases "l \<le> r")
    case True
    then have "\<exists>s'. steps 7 optimized_code s = Some s' \<and> optimized_head arr s0 l r s'"
      using that assms(2) by (elim disjE; auto simp: symbolic probe_facts[OF assms(1,3) True assms(5), folded m_def])
    then show ?thesis by blast
  next
    case False
    then have "\<exists>s'. steps 2 optimized_code s = Some s' \<and> optimized_head arr s0 l r s'"
      using that assms(2) crossed_bounds[OF assms(1,3) _ crossed] by (elim disjE; auto simp: symbolic)
    then show ?thesis by (intro exI[of _ 2]) simp
  qed
qed

lemma optimized_probe:
  assumes "called arr key s0" and "optimized_head arr s0 l r s" and "l \<le> r"
  defines "m \<equiv> l + (r - l) div 2"
  shows "arr ! nat m = key \<Longrightarrow> \<exists>s'. steps 7 optimized_code s = Some s' \<and> inside s0 m r s' \<and> ip s' = 51"
    and "sint (arr ! nat m) < sint key \<Longrightarrow> \<exists>s'. steps 7 optimized_code s = Some s' \<and> inside s0 (m + 1) r s' \<and> ip s' = 38"
    and "sint key < sint (arr ! nat m) \<Longrightarrow> \<exists>s'. steps 7 optimized_code s = Some s' \<and> inside s0 l (m - 1) s' \<and> ip s' = 28"
proof -
  have key: "regs s0 RDX = key" using assms(1) by (simp add: called_def)
  note symbolic = optimized_symbolic key inside_def
  have head: "inside s0 l r s" "ip s = 21" "regs s RCX = word_of_int m" "regs s RDX = arr ! nat m"
    using assms(2,3) by (simp_all add: optimized_head_def m_def)
  show "arr ! nat m = key \<Longrightarrow> \<exists>s'. steps 7 optimized_code s = Some s' \<and> inside s0 m r s' \<and> ip s' = 51"
    using head by (simp add: symbolic)
  show "sint (arr ! nat m) < sint key \<Longrightarrow> \<exists>s'. steps 7 optimized_code s = Some s' \<and> inside s0 (m + 1) r s' \<and> ip s' = 38"
    using head by (auto simp: symbolic)
  show "sint key < sint (arr ! nat m) \<Longrightarrow> \<exists>s'. steps 7 optimized_code s = Some s' \<and> inside s0 l (m - 1) s' \<and> ip s' = 28"
    using head by (auto simp: symbolic)
qed

lemma then_runs:
  assumes "\<exists>s'. steps k code s = Some s' \<and> P s'" and "\<And>t. P t \<Longrightarrow> \<exists>j s'. j \<le> n \<and> steps j code t = Some s' \<and> Q s'" and "k + n \<le> m"
  shows "\<exists>i s'. i \<le> m \<and> steps i code s = Some s' \<and> Q s'"
proof -
  from assms(1) obtain t where t: "steps k code s = Some t" "P t" by blast
  from assms(2)[OF t(2)] obtain j s' where "j \<le> n" "steps j code t = Some s'" "Q s'" by blast
  then show ?thesis using steps_add[OF t(1), of j] assms(3) by (intro exI[of _ "k + j"] exI[of _ s']) simp
qed

interpretation optimized: search_code optimized_code optimized_head
proof
  fix arr key s0 assume call: "called arr key s0"
  have "take 15 optimized_code = prologue" by (simp add: optimized_code_def prologue_def)
  from steps_prologue[OF this call] have "\<exists>s. steps 15 optimized_code s0 = Some s
    \<and> (inside s0 0 (int (length arr) - 1) s \<and> ip s = 15)" by blast
  then show "\<exists>k t. k \<le> 21 \<and> steps k optimized_code s0 = Some t \<and> optimized_head arr s0 0 (int (length arr) - 1) t"
    by (rule then_runs[where n = 6]) (use optimized_load(1)[OF call] in auto)
next
  fix arr key s0 l r s
  assume call: "called arr key s0" and head: "optimized_head arr s0 l r s"
    and b: "0 \<le> l" "r < l" "l \<le> int (length arr)" "- 1 \<le> r"
  have "\<exists>t. steps 3 optimized_code s = Some t \<and> (inside s0 (- 1) r t \<and> ip t = 51)"
    using head b by (simp add: inside_def optimized_head_def optimized_symbolic)
  then show "\<exists>k s'. k \<le> 23 \<and> steps k optimized_code s = Some s' \<and> returns s0 (- 1) s'"
    by (rule then_returns[where j = 10]) (use optimized_return[OF call] in auto)
next
  fix arr key s0 l r s
  assume call: "called arr key s0" and head: "optimized_head arr s0 l r s" and b: "0 \<le> l" "l \<le> r" "r < int (length arr)"
  note probe = optimized_probe[OF call head b(2)]
  let ?m = "l + (r - l) div 2"
  note m = probe_bounds[OF b]
  show "\<exists>k s'. k \<le> 23 \<and> steps k optimized_code s = Some s' \<and> returns s0 ?m s'" if "arr ! nat ?m = key"
    by (rule then_returns[where j = 10, OF probe(1)[OF that]]) (use optimized_return[OF call] in auto)
  show "\<exists>k s'. k \<le> 14 \<and> steps k optimized_code s = Some s' \<and> optimized_head arr s0 (?m + 1) r s'"
    if "sint (arr ! nat ?m) < sint key"
    by (rule then_runs[where n = 7, OF probe(2)[OF that]]) (use optimized_load(2)[OF call] m b in auto)
  show "\<exists>k s'. k \<le> 14 \<and> steps k optimized_code s = Some s' \<and> optimized_head arr s0 l (?m - 1) s'"
    if "sint key < sint (arr ! nat ?m)"
    by (rule then_runs[where n = 7, OF probe(3)[OF that]]) (use optimized_load(2)[OF call] m b in auto)
qed

section \<open>Calling a routine\<close>

text \<open>
  A machine ready for a call: the array at address 2^32, the stack below it, the return
  address 0. Everything else is unmapped.
\<close>

definition call_machine :: "u64 list \<Rightarrow> u64 \<Rightarrow> int \<Rightarrow> machine" where
  "call_machine arr key sz =
     (let base = 2 ^ 32; rsp = base - 64
      in \<lparr>regs = (\<lambda>_. 0)(RCX := base, RDX := key, R8 := word_of_int sz, RSP := rsp), flags = None,
          cells = (\<lambda>a. if unat (a - base) div 8 < length arr then Some (arr ! (unat (a - base) div 8))
                     else if unat (rsp - a) \<le> 64 then Some 0 else None),
          ip = 0, returned = None\<rparr>)"

text \<open>Calling a routine from C with \<open>int64_t\<close> values; enough steps for every array that fits into memory.\<close>

definition asm_search :: "instr list \<Rightarrow> int list \<Rightarrow> int \<Rightarrow> int \<Rightarrow> int option" where
  "asm_search code a key sz =
     map_option (\<lambda>s. sint (regs s RAX))
       (run_code (14 * 60 + 44) code (call_machine (map word_of_int a) (word_of_int key) sz))"

lemma called_call_machine:
  assumes "length arr < 2 ^ 60"
  shows "called arr key (call_machine arr key (int (length arr)))"
proof -
  let ?rsp = "2 ^ 32 - 64 :: u64"
  have i8: "unat (word_of_nat i * 8 :: u64) = i * 8" if "i < length arr" for i
    using that assms by (simp add: unat_word_ariths unat_of_nat)
  have apart: "of_nat c + word_of_nat i * 8 \<noteq> (0 :: u64)" if "i < length arr" "0 < c" "c \<le> 128" for i c
  proof -
    have "unat (word_of_nat (c + i * 8) :: u64) = c + i * 8"
      using that assms by (simp add: unat_of_nat del: of_nat_add of_nat_mult)
    then have "word_of_nat (c + i * 8) \<noteq> (0 :: u64)" using that(2) by (metis add_is_0 less_irrefl unat_0)
    then show ?thesis by simp
  qed
  have "2 ^ 32 + word_of_nat i * 8 \<notin> set (frame_cells ?rsp)" if "i < length arr" for i
    using apart[OF that, of 72] apart[OF that, of 80] apart[OF that, of 88] apart[OF that, of 96] apart[OF that, of 104]
      apart[OF that, of 112] apart[OF that, of 120] apart[OF that, of 128]
    by (auto simp: frame_cells_def algebra_simps)
  then show ?thesis
    using assms i8 by (auto simp: called_def call_machine_def aligned_def Let_def frame_cells_def)
qed

lemma ref_loop_range:
  "0 \<le> left \<Longrightarrow> right < int (length a) \<Longrightarrow> ref_loop a key left right = Some v \<Longrightarrow> v = -1 \<or> 0 \<le> v \<and> v < int (length a)"
proof (induction a key left right rule: ref_loop.induct)
  case (1 a key left right)
  show ?case
  proof (cases "left \<le> right")
    case True
    let ?mid = "left + (right - left) div 2"
    have mid: "0 \<le> ?mid" "?mid < int (length a)" using True "1.prems"(1,2) by auto
    then have "read a ?mid = Some (a ! nat ?mid)" by (simp add: read_def)
    then show ?thesis
      using "1.prems" "1.IH"(1)[OF True refl, of "a ! nat ?mid"] "1.IH"(2)[OF True refl, of "a ! nat ?mid"] mid True
      by (auto simp: ref_loop.simps[of a key left right] Let_def split: if_splits)
  next
    case False
    then show ?thesis using "1.prems"(3) by (simp add: ref_loop.simps[of a key left right])
  qed
qed

lemma ref_range:
  "binary_search_ref a key (int (length a)) = Some v \<Longrightarrow> v = -1 \<or> 0 \<le> v \<and> v < int (length a)"
  using ref_loop_range[of 0 "int (length a) - 1" a key v] by (simp add: binary_search_ref_def)

lemma asm_search_reference:
  assumes runs: "\<And>s0 arr key. called arr key s0 \<Longrightarrow> length arr < 2 ^ 60 \<Longrightarrow> \<exists>s' v. run_code (14 * 60 + 44) code s0 = Some s' \<and> returns s0 v s'
      \<and> binary_search_ref (map sint arr) (sint key) (int (length arr)) = Some v"
    and a: "\<forall>x\<in>set a. - (2 ^ 63) \<le> x \<and> x < 2 ^ 63" and key: "- (2 ^ 63) \<le> key" "key < 2 ^ 63" and len: "length a < 2 ^ 60"
  shows "asm_search code a key (int (length a)) = binary_search_ref a key (int (length a))"
proof -
  let ?arr = "map word_of_int a :: u64 list"
  have arr: "map sint ?arr = a" using a by (simp add: sint_word map_idI)
  have "length ?arr < 2 ^ 60" using len by simp
  from runs[OF called_call_machine[OF this] this, of "word_of_int key"] obtain s' v where
    "run_code (14 * 60 + 44) code (call_machine ?arr (word_of_int key) (int (length a))) = Some s'"
    "regs s' RAX = word_of_int v" "binary_search_ref a key (int (length a)) = Some v"
    using arr key by (auto simp: returns_def sint_word)
  moreover have "sint (word_of_int v :: u64) = v" using ref_range[OF calculation(3)] len by (intro sint_word) auto
  ultimately show ?thesis by (simp add: asm_search_def)
qed

definition routines :: "instr list list" where
  "routines = [branching_code, branchless_code, optimized_code]"

lemma routine_runs:
  assumes "code \<in> set routines" and "called arr key s0" and "length arr < 2 ^ b"
  shows "\<exists>s' v. run_code (14 * b + 44) code s0 = Some s' \<and> returns s0 v s'
    \<and> binary_search_ref (map sint arr) (sint key) (int (length arr)) = Some v"
  using assms(1) branching.search_runs[OF assms(2,3)] branchless.search_runs[OF assms(2,3)] optimized.search_runs[OF assms(2,3)]
  by (auto simp: routines_def)

lemma routine_reference:
  assumes "code \<in> set routines" and "\<forall>x\<in>set a. - (2 ^ 63) \<le> x \<and> x < 2 ^ 63" and "- (2 ^ 63) \<le> key" "key < 2 ^ 63" and "length a < 2 ^ 60"
  shows "asm_search code a key (int (length a)) = binary_search_ref a key (int (length a))"
  using routine_runs[OF assms(1), of _ _ _ 60] assms(2-5) by (intro asm_search_reference) blast+

section \<open>Property\<close>

text \<open>
  C21: The three assembly routines are the C reference. Called by the Windows convention on any
  array that fits into memory, sorted or not, each returns after at most 14 instructions per
  halving of the array and 44 more, with the result of the reference in \<open>RAX\<close>. No
  instruction faults, the protected registers and the stack pointer are restored, and memory
  outside the 64 bytes of the frame is unchanged.
\<close>

theorem assembly_matches_reference:
  assumes "code \<in> set routines" and "called arr key s0" and "length arr < 2 ^ b"
  shows "\<exists>s' v. run_code (14 * b + 44) code s0 = Some s'
    \<and> binary_search_ref (map sint arr) (sint key) (int (length arr)) = Some v
    \<and> sint (regs s' RAX) = v \<and> returned s' = cells s0 (regs s0 RSP) \<and> regs s' RSP = regs s0 RSP + 8
    \<and> (\<forall>r\<in>{RBX, RBP, RDI, RSI, R12, R13, R14, R15}. regs s' r = regs s0 r)
    \<and> (\<forall>a. (\<forall>k\<in>{1, 2, 3, 4, 5, 6, 7, 8}. a \<noteq> regs s0 RSP - 8 * k) \<longrightarrow> cells s' a = cells s0 a)"
proof -
  from routine_runs[OF assms] obtain s' v where run: "run_code (14 * b + 44) code s0 = Some s'" and ret: "returns s0 v s'"
    and ref: "binary_search_ref (map sint arr) (sint key) (int (length arr)) = Some v" by blast
  have "length arr < 2 ^ 60" using assms(2) by (simp add: called_def)
  then have v: "sint (word_of_int v :: u64) = v"
    using ref_range[of "map sint arr" "sint key" v] ref by (intro sint_word) auto
  have "set (frame_cells (regs s0 RSP)) \<subseteq> (\<lambda>k. regs s0 RSP - 8 * k) ` {1, 2, 3, 4, 5, 6, 7, 8}"
    by (auto simp: frame_cells_def image_iff)
  then have "cells s' a = cells s0 a" if "\<forall>k\<in>{1, 2, 3, 4, 5, 6, 7, 8}. a \<noteq> regs s0 RSP - 8 * k" for a
    using ret that by (auto simp: returns_def)
  then show ?thesis using run ref ret v by (auto simp: returns_def protected_def)
qed

theorem assembly_matches_reference_witness:
  "\<exists>s'. run_code (14 * 2 + 44) branchless_code (call_machine [2, 4, 8] 8 3) = Some s' \<and> sint (regs s' RAX) = 2"
proof -
  have call: "called [2, 4, 8] 8 (call_machine [2, 4, 8] 8 3)" using called_call_machine[of "[2, 4, 8]" 8] by simp
  have "binary_search_ref (map sint [2, 4, 8 :: u64]) (sint (8 :: u64)) 3 = Some 2"
    by (simp add: binary_search_ref_def ref_loop.simps read_def)
  then show ?thesis using assembly_matches_reference[OF _ call, of branchless_code 2] by (auto simp: routines_def)
qed

end
