(* ===== verification/Benchmark_Timing.thy ===== *)
theory Benchmark_Timing
  imports Float64 Binary_Searches Decimal_Text
begin

text \<open>
  How the benchmark suite \<open>legacy/benchmark_win.c\<close> measures: \<open>get_time_ns\<close>, the warm-up and
  the timed rounds of \<open>benchmark_search\<close>, and the text of a time. The performance counter is
  an argument, its readings are numbered. Addition and subtraction of doubles complete
  \<open>Float64\<close>.
\<close>

section \<open>Sums of doubles\<close>

fun f64_neg :: "f64 \<Rightarrow> f64" where
  "f64_neg NaN = NaN"
| "f64_neg (Inf s) = Inf (\<not> s)"
| "f64_neg (Fin s m e) = Fin (\<not> s) m e"

text \<open>The exact sum, rounded; a sum that cancels is \<open>+0\<close> unless both summands are negative.\<close>

fun f64_add :: "f64 \<Rightarrow> f64 \<Rightarrow> f64" where
  "f64_add NaN y = NaN"
| "f64_add x NaN = NaN"
| "f64_add (Inf s) (Inf t) = (if s = t then Inf s else NaN)"
| "f64_add (Inf s) (Fin t n d) = Inf s"
| "f64_add (Fin s m e) (Inf t) = Inf t"
| "f64_add (Fin s m e) (Fin t n d) =
     (let k = min e d;
          v = signed_nat s (m * 2 ^ nat (e - k)) + signed_nat t (n * 2 ^ nat (d - k))
      in if v = 0 then Fin (s \<and> t) 0 k else f64_round (v < 0) (nat \<bar>v\<bar>) k)"

definition f64_sub :: "f64 \<Rightarrow> f64 \<Rightarrow> f64" where
  "f64_sub x y = f64_add x (f64_neg y)"

definition f64_of_int :: "int \<Rightarrow> f64" where
  "f64_of_int i = f64_round (i < 0) (nat \<bar>i\<bar>) 0"

section \<open>The clock\<close>

record clock =
  frequency :: int
  counter :: "nat \<Rightarrow> int"

definition get_time_ns :: "clock \<Rightarrow> nat \<Rightarrow> f64" where
  "get_time_ns c t = f64_div (f64_mul (f64_of_int (counter c t)) (Fin False 1000000000 0)) (f64_of_int (frequency c))"

section \<open>Running a search\<close>

text \<open>One pass over the keys; \<open>None\<close> when a search reads outside the array.\<close>

fun search_keys :: "(int list \<Rightarrow> int \<Rightarrow> int \<Rightarrow> int option) \<Rightarrow> int list \<Rightarrow> int \<Rightarrow> int list \<Rightarrow> unit option" where
  "search_keys search a sz [] = Some ()"
| "search_keys search a sz (k # keys) =
     (case search a k sz of None \<Rightarrow> None | Some _ \<Rightarrow> search_keys search a sz keys)"

fun warm_up :: "(int list \<Rightarrow> int \<Rightarrow> int \<Rightarrow> int option) \<Rightarrow> int list \<Rightarrow> int \<Rightarrow> int list \<Rightarrow> nat \<Rightarrow> unit option" where
  "warm_up search a sz keys 0 = Some ()"
| "warm_up search a sz keys (Suc n) =
     (case search_keys search a sz keys of None \<Rightarrow> None | Some _ \<Rightarrow> warm_up search a sz keys n)"

text \<open>The timed rounds, from the total and the number of clock readings so far.\<close>

fun timed_rounds :: "(int list \<Rightarrow> int \<Rightarrow> int \<Rightarrow> int option) \<Rightarrow> int list \<Rightarrow> int \<Rightarrow> int list \<Rightarrow> clock \<Rightarrow> nat \<Rightarrow>
    f64 \<times> nat \<Rightarrow> (f64 \<times> nat) option" where
  "timed_rounds search a sz keys c 0 (spent, t) = Some (spent, t)"
| "timed_rounds search a sz keys c (Suc n) (spent, t) =
     (let start = get_time_ns c t
      in case search_keys search a sz keys of
           None \<Rightarrow> None
         | Some _ \<Rightarrow>
             let finish = get_time_ns c (t + 1)
             in timed_rounds search a sz keys c n (f64_add spent (f64_sub finish start), t + 2))"

definition benchmark_search :: "(int list \<Rightarrow> int \<Rightarrow> int \<Rightarrow> int option) \<Rightarrow> int list \<Rightarrow> int \<Rightarrow> int list \<Rightarrow> nat \<Rightarrow> clock \<Rightarrow> nat \<Rightarrow>
    (f64 \<times> nat) option" where
  "benchmark_search search a sz keys iterations c t =
     (case warm_up search a sz keys (iterations div 10) of
        None \<Rightarrow> None
      | Some _ \<Rightarrow>
          map_option (\<lambda>(spent, t). (f64_div spent (f64_of_nat (iterations * length keys)), t))
            (timed_rounds search a sz keys c iterations (Fin False 0 0, t)))"

section \<open>Printing a time\<close>

text \<open>
  \<open>printf\<close> with \<open>%.2f\<close>: rounded to hundredths. The NaN of an invalid operation has its sign bit
  set on x86, and the Windows runtime writes it as indeterminate.
\<close>

definition hundredths :: "nat \<Rightarrow> int \<Rightarrow> nat" where
  "hundredths m e = (if 0 \<le> e then m * 100 * 2 ^ nat e else round_shift (m * 100) (nat (- e)))"

fun fixed2 :: "f64 \<Rightarrow> string" where
  "fixed2 NaN = ''-nan(ind)''"
| "fixed2 (Inf s) = (if s then ''-inf'' else ''inf'')"
| "fixed2 (Fin s m e) =
     (let q = hundredths m e
      in (if s then ''-'' else '''') @ decimal (q div 100) @ ''.'' @ [digit_char (q div 10 mod 10), digit_char (q mod 10)])"

lemma not_in_decimal: "\<not> is_digit_char c \<Longrightarrow> c \<notin> set (decimal n)"
  using digits_decimal[of n] by (auto simp: list_all_iff)

lemma not_in_fixed2:
  assumes "\<not> is_digit_char c" and "c \<notin> set ''naifd()-.''"
  shows "c \<notin> set (fixed2 x)"
proof (cases x)
  case (Fin s m e)
  have "digit_char (d mod 10) \<noteq> c" for d using is_digit_digit_char[of "d mod 10"] assms(1) by auto
  then show ?thesis using Fin assms not_in_decimal[OF assms(1)] by (auto simp: Let_def)
qed (use assms(2) in auto)

lemma comma_fixed2: "CHR '','' \<notin> set (fixed2 x)"
  by (rule not_in_fixed2) (simp_all add: is_digit_char_def)

lemma failed_fixed2: "fixed2 x \<noteq> ''FAILED''"
  using not_in_fixed2[of "CHR ''F''" x] by (auto simp: is_digit_char_def)

lemma failed_decimal: "decimal n \<noteq> ''FAILED''"
  using not_in_decimal[of "CHR ''F''" n] by (auto simp: is_digit_char_def)

section \<open>Measuring a search that stays inside the array\<close>

text \<open>The mean of \<open>n\<close> rounds over \<open>k\<close> keys each, when the clock has been read \<open>t\<close> times before.\<close>

definition total_time :: "clock \<Rightarrow> nat \<Rightarrow> nat \<Rightarrow> f64 \<Rightarrow> f64" where
  "total_time c n t spent =
     fold (\<lambda>i spent. f64_add spent (f64_sub (get_time_ns c (t + 2 * i + 1)) (get_time_ns c (t + 2 * i)))) [0..<n] spent"

definition mean_time :: "clock \<Rightarrow> nat \<Rightarrow> nat \<Rightarrow> nat \<Rightarrow> f64" where
  "mean_time c n k t = f64_div (total_time c n t (Fin False 0 0)) (f64_of_nat (n * k))"

lemma search_keys_ok: "(\<And>k. k \<in> set keys \<Longrightarrow> search a k sz \<noteq> None) \<Longrightarrow> search_keys search a sz keys = Some ()"
proof (induction keys)
  case (Cons k keys)
  obtain r where "search a k sz = Some r" using Cons.prems[of k] by auto
  then show ?case using Cons by simp
qed simp

lemma warm_up_ok: "search_keys search a sz keys = Some () \<Longrightarrow> warm_up search a sz keys n = Some ()"
  by (induction n) simp_all

lemma total_time_Suc:
  "total_time c (Suc n) t spent = total_time c n (t + 2) (f64_add spent (f64_sub (get_time_ns c (t + 1)) (get_time_ns c t)))"
proof -
  have "[0..<Suc n] = 0 # map Suc [0..<n]" by (simp add: map_Suc_upt upt_conv_Cons del: upt_Suc)
  then show ?thesis by (simp add: total_time_def fold_map comp_def del: upt_Suc)
qed

lemma timed_rounds_ok:
  "search_keys search a sz keys = Some () \<Longrightarrow>
   timed_rounds search a sz keys c n (spent, t) = Some (total_time c n t spent, t + 2 * n)"
proof (induction n arbitrary: spent t)
  case 0
  then show ?case by (simp add: total_time_def)
next
  case (Suc n)
  then show ?case by (simp add: Let_def total_time_Suc)
qed

lemma benchmark_search_ok:
  assumes "\<And>k. k \<in> set keys \<Longrightarrow> search a k sz \<noteq> None"
  shows "benchmark_search search a sz keys n c t = Some (mean_time c n (length keys) t, t + 2 * n)"
  using search_keys_ok[of keys search a sz, OF assms]
  by (simp add: benchmark_search_def warm_up_ok timed_rounds_ok mean_time_def)

end
