(* ===== verification/Benchmark_Suite.thy ===== *)
theory Benchmark_Suite
  imports Assembly_Searches Benchmark_Timing
begin

text \<open>
  \<open>main\<close> of the benchmark suite \<open>legacy/benchmark_win.c\<close>: the table of search functions, the
  array sizes, the check and the measurement of every function on every size and the CSV file
  it writes. The performance counter, the results of \<open>rand\<close>, and whether the file can be opened
  and memory be allocated are arguments; the console output is left out. The result is the exit
  code and the file. With memory and a file at hand every function passes its check, and the
  file is a table: every line has one field for each field of the header.
\<close>

section \<open>Text\<close>

text \<open>The loop that prints fields with a comma after each but the last.\<close>

fun comma_separated :: "string list \<Rightarrow> string" where
  "comma_separated [] = ''''"
| "comma_separated [f] = f"
| "comma_separated (f # fs) = f @ '','' @ comma_separated fs"

text \<open>Reading a line of a CSV file.\<close>

fun csv_fields :: "string \<Rightarrow> string list" where
  "csv_fields [] = [[]]"
| "csv_fields (c # cs) =
     (if c = CHR '','' then [] # csv_fields cs else (c # hd (csv_fields cs)) # tl (csv_fields cs))"

lemma fields_plain: "CHR '','' \<notin> set f \<Longrightarrow> csv_fields f = [f]"
  by (induction f) auto

lemma fields_append: "CHR '','' \<notin> set f \<Longrightarrow> csv_fields (f @ CHR '','' # cs) = f # csv_fields cs"
  by (induction f) auto

lemma fields_comma_separated:
  "fs \<noteq> [] \<Longrightarrow> \<forall>f\<in>set fs. CHR '','' \<notin> set f \<Longrightarrow> csv_fields (comma_separated fs) = fs"
  by (induction fs rule: comma_separated.induct) (simp_all add: fields_plain fields_append)

section \<open>The table of functions\<close>

definition search_table :: "(string \<times> (int list \<Rightarrow> int \<Rightarrow> int \<Rightarrow> int option)) list" where
  "search_table =
     [(''Reference C'', reference_binary_search),
      (''Branching ASM'', asm_search branching_code),
      (''Branchless ASM'', asm_search branchless_code),
      (''Optimized ASM'', asm_search optimized_code),
      (''SIMD AVX2'', simd_binary_search),
      (''SIMD + Optimized'', simd_optimized_binary_search)]"

definition test_sizes :: "nat list" where
  "test_sizes = [10000, 100000, 1000000, 10000000]"

section \<open>The file\<close>

definition csv_header :: string where
  "csv_header = ''Array Size,Elements,'' @ comma_separated (map (\<lambda>(name, f). name @ '' (ns)'') search_table)"

definition bench_iterations :: "nat \<Rightarrow> nat" where
  "bench_iterations sz = (if sz < 1000000 then 1000 else 500)"

text \<open>
  The entry of one function: its average time, or \<open>FAILED\<close> when the check fails, and the number
  of clock readings afterwards. \<open>None\<close> when a search reads outside the array.
\<close>

definition csv_cell :: "clock \<Rightarrow> (nat \<Rightarrow> int) \<Rightarrow> nat \<Rightarrow> string \<times> (int list \<Rightarrow> int \<Rightarrow> int \<Rightarrow> int option) \<Rightarrow> nat \<Rightarrow>
    (string \<times> nat) option" where
  "csv_cell c rnd sz = (\<lambda>(name, f) t.
     case bench_correct f sz rnd of
       None \<Rightarrow> None
     | Some correct \<Rightarrow>
         if correct = 0 then Some (''FAILED'', t)
         else map_option (\<lambda>(avg_time, t). (fixed2 avg_time, t))
                (benchmark_search f (bench_array sz) (int sz) (bench_keys sz rnd) (bench_iterations sz) c t))"

fun csv_cells :: "clock \<Rightarrow> (nat \<Rightarrow> int) \<Rightarrow> nat \<Rightarrow> (string \<times> (int list \<Rightarrow> int \<Rightarrow> int \<Rightarrow> int option)) list \<Rightarrow> nat \<Rightarrow>
    (string list \<times> nat) option" where
  "csv_cells c rnd sz [] t = Some ([], t)"
| "csv_cells c rnd sz (f # fs) t =
     (case csv_cell c rnd sz f t of
        None \<Rightarrow> None
      | Some (cell, t) \<Rightarrow> map_option (\<lambda>(cells, t). (cell # cells, t)) (csv_cells c rnd sz fs t))"

definition csv_row :: "clock \<Rightarrow> (nat \<Rightarrow> int) \<Rightarrow> nat \<Rightarrow> nat \<Rightarrow> (string \<times> nat) option" where
  "csv_row c rnd sz t =
     map_option (\<lambda>(cells, t). (decimal sz @ '','' @ decimal sz @ '','' @ comma_separated cells, t))
       (csv_cells c rnd sz search_table t)"

text \<open>The loop over the sizes: the exit code and the lines written; a failing allocation ends it.\<close>

fun bench_sizes :: "(nat \<Rightarrow> bool) \<Rightarrow> clock \<Rightarrow> (nat \<Rightarrow> int) \<Rightarrow> nat list \<Rightarrow> nat \<Rightarrow> (nat \<times> string list) option" where
  "bench_sizes allocates c rnd [] t = Some (0, [])"
| "bench_sizes allocates c rnd (sz # szs) t =
     (if \<not> allocates sz then Some (1, [])
      else case csv_row c rnd sz t of
        None \<Rightarrow> None
      | Some (row, t) \<Rightarrow> map_option (\<lambda>(code, rows). (code, row # rows)) (bench_sizes allocates c rnd szs t))"

definition benchmark_main :: "bool \<Rightarrow> (nat \<Rightarrow> bool) \<Rightarrow> clock \<Rightarrow> (nat \<Rightarrow> int) \<Rightarrow> (nat \<times> string list) option" where
  "benchmark_main opens allocates c rnd =
     (if \<not> opens then Some (1, [])
      else map_option (\<lambda>(code, rows). (code, csv_header # rows)) (bench_sizes allocates c rnd test_sizes 0))"

section \<open>Every function passes\<close>

lemma verify_matching:
  "(\<And>k. k \<in> set keys \<Longrightarrow> search a k sz = binary_search_ref a k sz \<and> (\<exists>r. binary_search_ref a k sz = Some r))
   \<Longrightarrow> verify_function search a sz keys = Some 1"
proof (induction keys)
  case (Cons k keys)
  then show ?case using Cons.prems[of k] by fastforce
qed simp

lemma bench_key_range:
  assumes "0 < sz" and "sz \<le> 10 ^ 7" and "\<And>i. 0 \<le> rnd i"
  shows "0 \<le> bench_key sz rnd i \<and> bench_key sz rnd i < 2 ^ 63"
proof -
  have "0 \<le> rnd (2 * i + 1) mod int sz" "rnd (2 * i + 1) mod int sz < int sz" using assms(1) by simp_all
  then show ?thesis using assms(2) by (simp add: bench_key_def)
qed

lemma bench_correct_routine:
  assumes "code \<in> set routines" and sz: "0 < sz" "sz \<le> 10 ^ 7" and "\<And>i. 0 \<le> rnd i"
  shows "bench_correct (asm_search code) sz rnd = Some 1"
proof -
  have "\<forall>x\<in>set (bench_array sz). - (2 ^ 63) \<le> x \<and> x < 2 ^ 63" using sz by (auto simp: bench_array_def)
  moreover have "sz < 2 ^ 60" using sz by simp
  ultimately have "asm_search code (bench_array sz) (bench_key sz rnd i) (int sz)
      = binary_search_ref (bench_array sz) (bench_key sz rnd i) (int sz)" for i
    using routine_reference[OF assms(1), of "bench_array sz" "bench_key sz rnd i"]
      bench_key_range[where rnd = rnd and i = i, OF sz assms(4)] bench_array_facts(3)[of sz] by simp
  moreover have "\<exists>r. binary_search_ref (bench_array sz) k (int sz) = Some r" for k
    using reference.search_law[OF bench_array_facts(1)[of sz], of k] bench_array_facts(3)[of sz] by auto
  ultimately show ?thesis
    unfolding bench_correct_def by (intro verify_matching) (auto simp: bench_keys_def dest!: in_set_takeD)
qed

lemma functions_correct:
  assumes "(name, f) \<in> set search_table" and "0 < sz" "sz \<le> 10 ^ 7" and "\<And>i. 0 \<le> rnd i"
  shows "bench_correct f sz rnd = Some 1"
proof -
  have accepts: "bench_correct f sz rnd = Some 1" if "search_routine f" for f
    unfolding bench_correct_def using verify_accepts[OF that bench_array_facts(1,2)] by (simp add: bench_array_facts(3))
  note accepts[OF reference.search_routine_axioms] accepts[OF simd.search_routine_axioms] accepts[OF simd_optimized.search_routine_axioms]
  moreover have "bench_correct (asm_search code) sz rnd = Some 1" if "code \<in> set routines" for code
    using bench_correct_routine[OF that assms(2-4)] by simp
  ultimately show ?thesis using assms(1) by (auto simp: search_table_def routines_def)
qed

lemma bench_keys_range:
  assumes "k \<in> set (bench_keys sz rnd)" and "0 < sz" and "sz \<le> 10 ^ 7" and "\<And>i. 0 \<le> rnd i"
  shows "0 \<le> k \<and> k < 2 ^ 63"
  using assms(1) bench_key_range[where rnd = rnd, OF assms(2-4)] by (auto simp: bench_keys_def)

lemma functions_return:
  assumes "(name, f) \<in> set search_table" and "k \<in> set (bench_keys sz rnd)" and sz: "0 < sz" "sz \<le> 10 ^ 7" and "\<And>i. 0 \<le> rnd i"
  shows "f (bench_array sz) k (int sz) \<noteq> None"
proof -
  have returns: "f (bench_array sz) k (int sz) \<noteq> None" if "search_routine f" for f
    using search_routine.search_law[OF that bench_array_facts(1)[of sz], of k] bench_array_facts(3)[of sz] by auto
  note returns[OF reference.search_routine_axioms] returns[OF simd.search_routine_axioms] returns[OF simd_optimized.search_routine_axioms]
  moreover have "asm_search code (bench_array sz) k (int sz) \<noteq> None" if "code \<in> set routines" for code
  proof -
    have "\<forall>x\<in>set (bench_array sz). - (2 ^ 63) \<le> x \<and> x < 2 ^ 63" using sz by (auto simp: bench_array_def)
    moreover have "sz < 2 ^ 60" using sz by simp
    ultimately show ?thesis
      using routine_reference[OF that, of "bench_array sz" k] bench_keys_range[OF assms(2) sz assms(5)]
        reference.search_law[OF bench_array_facts(1)[of sz], of k] bench_array_facts(3)[of sz] by auto
  qed
  ultimately show ?thesis using assms(1) by (auto simp: search_table_def routines_def)
qed

text \<open>The times of the functions, when each reads the clock twice for every iteration.\<close>

definition row_times :: "clock \<Rightarrow> nat \<Rightarrow> nat \<Rightarrow> nat \<Rightarrow> string list" where
  "row_times c sz n t =
     map (\<lambda>j. fixed2 (mean_time c (bench_iterations sz) (num_keys sz) (t + 2 * j * bench_iterations sz))) [0..<n]"

fun expected_rows :: "clock \<Rightarrow> nat list \<Rightarrow> nat \<Rightarrow> string list list" where
  "expected_rows c [] t = []"
| "expected_rows c (sz # szs) t =
     ([decimal sz, decimal sz] @ row_times c sz 6 t) # expected_rows c szs (t + 12 * bench_iterations sz)"

lemma row_times_Suc:
  "row_times c sz (Suc n) t = fixed2 (mean_time c (bench_iterations sz) (num_keys sz) t) # row_times c sz n (t + 2 * bench_iterations sz)"
proof -
  have "[0..<Suc n] = 0 # map Suc [0..<n]" by (simp add: map_Suc_upt upt_conv_Cons del: upt_Suc)
  then show ?thesis by (simp add: row_times_def comp_def algebra_simps del: upt_Suc)
qed

lemma csv_cells_complete:
  assumes "set fs \<subseteq> set search_table" and "0 < sz" "sz \<le> 10 ^ 7" and "\<And>i. 0 \<le> rnd i"
  shows "csv_cells c rnd sz fs t = Some (row_times c sz (length fs) t, t + 2 * length fs * bench_iterations sz)"
  using assms(1)
proof (induction fs arbitrary: t)
  case Nil
  then show ?case by (simp add: row_times_def)
next
  case (Cons f fs)
  obtain name g where f: "f = (name, g)" by (cases f)
  then have mem: "(name, g) \<in> set search_table" using Cons.prems by simp
  have "length (bench_keys sz rnd) = num_keys sz" by (simp add: bench_keys_def)
  then have "csv_cell c rnd sz f t
      = Some (fixed2 (mean_time c (bench_iterations sz) (num_keys sz) t), t + 2 * bench_iterations sz)"
    using functions_correct[OF mem assms(2-4)] benchmark_search_ok[of "bench_keys sz rnd" g "bench_array sz" "int sz"]
      functions_return[OF mem _ assms(2-4)] by (simp add: csv_cell_def f)
  then show ?case using Cons by (simp add: row_times_Suc algebra_simps)
qed

lemma csv_row_complete:
  assumes "0 < sz" "sz \<le> 10 ^ 7" and "\<And>i. 0 \<le> rnd i"
  shows "csv_row c rnd sz t =
    Some (decimal sz @ '','' @ decimal sz @ '','' @ comma_separated (row_times c sz 6 t), t + 12 * bench_iterations sz)"
proof -
  have "length search_table = 6" by (simp add: search_table_def)
  then show ?thesis using csv_cells_complete[where rnd = rnd and c = c and t = t, OF subset_refl assms] by (simp add: csv_row_def)
qed

lemma row_fields:
  "csv_fields (decimal sz @ '','' @ decimal sz @ '','' @ comma_separated (row_times c sz 6 t)) = [decimal sz, decimal sz] @ row_times c sz 6 t"
proof -
  have "row_times c sz 6 t \<noteq> []" "\<forall>f\<in>set (row_times c sz 6 t). CHR '','' \<notin> set f"
    by (auto simp: row_times_def comma_fixed2 simp del: fixed2.simps)
  then show ?thesis by (simp add: fields_append fields_comma_separated decimal_comma)
qed

lemma bench_sizes_complete:
  assumes "\<forall>sz\<in>set szs. 0 < sz \<and> sz \<le> 10 ^ 7 \<and> allocates sz" and "\<And>i. 0 \<le> rnd i"
  shows "\<exists>rows. bench_sizes allocates c rnd szs t = Some (0, rows) \<and> map csv_fields rows = expected_rows c szs t"
  using assms(1)
proof (induction szs arbitrary: t)
  case (Cons sz szs)
  then obtain rows where "bench_sizes allocates c rnd szs (t + 12 * bench_iterations sz) = Some (0, rows)"
    "map csv_fields rows = expected_rows c szs (t + 12 * bench_iterations sz)" by auto
  moreover have "0 < sz" "sz \<le> 10 ^ 7" "allocates sz" using Cons.prems by simp_all
  note csv_row_complete[where rnd = rnd and c = c and t = t, OF this(1,2) assms(2)] this(3)
  ultimately show ?case
    unfolding bench_sizes.simps expected_rows.simps row_fields[symmetric] by (intro exI[of _ "_ # rows"]) simp
qed simp

lemma header_fields: "length (csv_fields csv_header) = 8"
proof -
  let ?names = "map (\<lambda>(name, f). name @ '' (ns)'') search_table"
  have header: "csv_header = ''Array Size'' @ CHR '','' # ''Elements'' @ CHR '','' # comma_separated ?names"
    by (simp add: csv_header_def)
  have names: "csv_fields (comma_separated ?names) = ?names"
    by (rule fields_comma_separated) (simp_all add: search_table_def)
  have first: "csv_fields (''Array Size'' @ CHR '','' # rest) = ''Array Size'' # csv_fields rest"
    "csv_fields (''Elements'' @ CHR '','' # rest) = ''Elements'' # csv_fields rest" for rest
    by (rule fields_append, simp)+
  have "csv_fields csv_header = ''Array Size'' # ''Elements'' # ?names" unfolding header first names ..
  then have "length (csv_fields csv_header) = 2 + length search_table" by (simp only: list.size length_map)
  then show ?thesis by (simp add: search_table_def)
qed

text \<open>
  C24: The benchmark suite reports no failure and writes a table. If the file opens and memory
  is available, \<open>main\<close> exits with 0 and writes a header and one line per array size; read
  back, every line has one field per field of the header, namely the size twice and the mean
  time of each function, taken from the clock readings of its own rounds, so that no function,
  C, AVX2 or assembly, is marked \<open>FAILED\<close>.
\<close>

theorem benchmark_reports_no_failure:
  assumes "\<forall>sz\<in>set test_sizes. allocates sz" and "\<And>i. 0 \<le> rnd i"
  shows "\<exists>rows. benchmark_main True allocates c rnd = Some (0, csv_header # rows)
    \<and> map csv_fields rows = expected_rows c test_sizes 0
    \<and> (\<forall>row\<in>set rows. length (csv_fields row) = length (csv_fields csv_header) \<and> ''FAILED'' \<notin> set (csv_fields row))"
proof -
  have "\<forall>sz\<in>set test_sizes. 0 < sz \<and> sz \<le> 10 ^ 7 \<and> allocates sz" using assms(1) by (auto simp: test_sizes_def)
  from bench_sizes_complete[where rnd = rnd and c = c and t = 0, OF this assms(2)] obtain rows where
    rows: "bench_sizes allocates c rnd test_sizes 0 = Some (0, rows)" "map csv_fields rows = expected_rows c test_sizes 0" by blast
  have shape: "length fs = 8 \<and> ''FAILED'' \<notin> set fs" if "fs \<in> set (expected_rows c szs t)" for fs szs t
    using that by (induction szs arbitrary: t)
      (auto simp: row_times_def failed_decimal[symmetric] failed_fixed2[symmetric] simp del: fixed2.simps)
  have "length (csv_fields row) = 8 \<and> ''FAILED'' \<notin> set (csv_fields row)" if "row \<in> set rows" for row
    using that by (intro shape[of _ test_sizes 0]) (simp flip: rows(2))
  then show ?thesis using rows by (simp add: benchmark_main_def header_fields)
qed

theorem benchmark_reports_no_failure_witness:
  "\<exists>rows. benchmark_main True (\<lambda>_. True) \<lparr>frequency = 10000000, counter = int\<rparr> int = Some (0, csv_header # rows)
    \<and> map csv_fields rows = expected_rows \<lparr>frequency = 10000000, counter = int\<rparr> test_sizes 0"
  using benchmark_reports_no_failure[of "\<lambda>_. True" int "\<lparr>frequency = 10000000, counter = int\<rparr>"] by auto

end
