(* ===== verification/Cycle_Counters.thy ===== *)
theory Cycle_Counters
  imports Assembly_Searches
begin

text \<open>
  The two routines of \<open>src/backends/cpu/x86_64/binary_search_win64.asm\<close> that count the cycles of
  a search: \<open>measure_cycles_win64\<close> and \<open>measure_cycles_with_result_win64\<close>. They are listings
  without jumps; what \<open>cpuid\<close> answers, the readings of the time stamp counter and the function
  called are arguments. Around the assembly searches both return the difference of the two
  readings. A function that uses the home space of the Windows convention, as compiled C may,
  makes them return with a wrong \<open>RBP\<close>.
\<close>

section \<open>Instructions\<close>

datatype timed_instr = Plain instr | Cpuid | Rdtsc | Shl reg nat | Or reg reg | Sub reg reg | Call reg

record processor =
  cpuid_answer :: "u64 \<Rightarrow> u64 \<times> u64 \<times> u64 \<times> u64"
  code_at :: "u64 \<Rightarrow> machine \<Rightarrow> machine option"

text \<open>
  One instruction on a machine and the readings of the time stamp counter to come. A called
  function runs until it returns to the address that was pushed.
\<close>

fun exec_timed :: "processor \<Rightarrow> timed_instr \<Rightarrow> machine \<times> u64 list \<Rightarrow> (machine \<times> u64 list) option" where
  "exec_timed p (Plain i) (s, ts) = map_option (\<lambda>s. (s, ts)) (exec_instr [] i s)"
| "exec_timed p Cpuid (s, ts) =
     (case cpuid_answer p (regs s RAX) of (a, b, c, d) \<Rightarrow>
        Some (s\<lparr>regs := (regs s)(RAX := a, RBX := b, RCX := c, RDX := d), ip := ip s + 1\<rparr>, ts))"
| "exec_timed p Rdtsc (s, ts) =
     (case ts of [] \<Rightarrow> None
      | t # ts \<Rightarrow> Some (s\<lparr>regs := (regs s)(RAX := take_bit 32 t, RDX := drop_bit 32 t), ip := ip s + 1\<rparr>, ts))"
| "exec_timed p (Shl r n) (s, ts) = Some (set_arith r (push_bit n (regs s r)) s, ts)"
| "exec_timed p (Or d r) (s, ts) = Some (set_arith d (or (regs s d) (regs s r)) s, ts)"
| "exec_timed p (Sub d r) (s, ts) = Some (set_arith d (regs s d - regs s r) s, ts)"
| "exec_timed p (Call r) (s, ts) =
     (let a = regs s RSP - 8; resume = word_of_nat (ip s + 1)
      in case store_cell a resume (set_reg RSP a s) of None \<Rightarrow> None
         | Some s1 \<Rightarrow>
             (case code_at p (regs s r) (s1\<lparr>ip := 0\<rparr>) of None \<Rightarrow> None
              | Some s2 \<Rightarrow>
                  if returned s2 = Some resume then Some (s2\<lparr>ip := ip s + 1, flags := None, returned := None\<rparr>, ts) else None))"

fun run_listing :: "processor \<Rightarrow> timed_instr list \<Rightarrow> machine \<times> u64 list \<Rightarrow> (machine \<times> u64 list) option" where
  "run_listing p [] st = Some st"
| "run_listing p (i # is) st = (case exec_timed p i st of None \<Rightarrow> None | Some st \<Rightarrow> run_listing p is st)"

section \<open>The listings\<close>

definition save_arguments :: "timed_instr list" where
  "save_arguments =
     map Plain [Push RBX, Push RSI, Push RDI, Push R12, Push R13, Push R14, Push R15, Push RBP, Mov RBP RSP,
       Mov R12 RCX, Mov R13 RDX, Mov R14 R8, Mov R15 R9]"

definition start_clock :: "timed_instr list" where
  "start_clock = [Cpuid, Rdtsc, Shl RDX 32, Or RDX RAX, Plain (Mov RSI RDX)]"

definition call_search :: "timed_instr list" where
  "call_search = [Plain (Mov RCX R13), Plain (Mov RDX R14), Plain (Mov R8 R15), Call R12, Plain (Mov RDI RAX)]"

definition stop_clock :: "timed_instr list" where
  "stop_clock = [Rdtsc, Shl RDX 32, Or RDX RAX, Sub RDX RSI, Plain (Mov RAX RDX)]"

definition measure_cycles :: "timed_instr list" where
  "measure_cycles = save_arguments @ start_clock @ call_search @ stop_clock @ map Plain epilogue"

definition measure_cycles_with_result :: "timed_instr list" where
  "measure_cycles_with_result =
     save_arguments @ Plain (Xor RAX RAX) # start_clock @ call_search @ stop_clock @ Plain (Mov RDX RDI) # map Plain epilogue"

section \<open>Execution in parts\<close>

lemma run_listing_append:
  "run_listing p (xs @ ys) st = (case run_listing p xs st of None \<Rightarrow> None | Some st \<Rightarrow> run_listing p ys st)"
  by (induction xs arbitrary: st) (simp_all split: option.split)

lemma stamp_parts: "or (push_bit 32 (drop_bit 32 t)) (take_bit 32 t) = t" for t :: u64
  by (rule bit_eqI) (auto simp: bit_simps)

text \<open>The arguments: the function, the array, the key and the size; stack for the two frames.\<close>

definition measured :: "u64 list \<Rightarrow> u64 \<Rightarrow> machine \<Rightarrow> bool" where
  "measured arr key s \<longleftrightarrow>
     returned s = None \<and> ip s = 0
     \<and> regs s R8 = key \<and> regs s R9 = word_of_nat (length arr) \<and> length arr < 2 ^ 60
     \<and> aligned (regs s RDX) \<and> aligned (regs s RSP) \<and> cells s (regs s RSP) \<noteq> None
     \<and> (\<forall>k\<in>{1..17}. cells s (regs s RSP - 8 * word_of_nat k) \<noteq> None
          \<and> (\<forall>i<length arr. regs s RDX + word_of_nat i * 8 \<noteq> regs s RSP - 8 * word_of_nat k))
     \<and> (\<forall>i<length arr. cells s (regs s RDX + word_of_nat i * 8) = Some (arr ! i))"

lemma saved_arguments:
  assumes al: "aligned (regs s RSP)" and mapped: "\<forall>k\<in>{1..8}. cells s (regs s RSP - 8 * word_of_nat k) \<noteq> None"
    and ret: "returned s = None"
  shows "\<exists>s'. run_listing p save_arguments (s, ts) = Some (s', ts) \<and> cells s' = saved_cells s \<and> returned s' = None
    \<and> regs s' = (regs s)(RSP := regs s RSP - 64, RBP := regs s RSP - 64, R12 := regs s RCX, R13 := regs s RDX,
        R14 := regs s R8, R15 := regs s R9)"
proof -
  have "\<forall>k\<in>set [1..<9]. \<exists>v. cells s (regs s RSP - 8 * word_of_nat k) = Some v" using mapped by auto
  then have "\<exists>v. cells s (regs s RSP - 8) = Some v" "\<exists>v. cells s (regs s RSP - 16) = Some v" "\<exists>v. cells s (regs s RSP - 24) = Some v"
    "\<exists>v. cells s (regs s RSP - 32) = Some v" "\<exists>v. cells s (regs s RSP - 40) = Some v" "\<exists>v. cells s (regs s RSP - 48) = Some v"
    "\<exists>v. cells s (regs s RSP - 56) = Some v" "\<exists>v. cells s (regs s RSP - 64) = Some v"
    by (simp_all add: upt_rec)
  then show ?thesis
    using ret by (simp add: save_arguments_def machine_simps frame_aligned[OF al]) (auto simp: saved_cells_def Let_def fun_eq_iff)
qed

lemma clock_started:
  "\<exists>s'. run_listing p start_clock (s, t # ts) = Some (s', ts) \<and> cells s' = cells s \<and> returned s' = returned s
    \<and> regs s' RSI = t \<and> (\<forall>r. r \<notin> {RAX, RBX, RCX, RDX, RSI} \<longrightarrow> regs s' r = regs s r)"
  by (simp add: start_clock_def set_reg_def set_arith_def stamp_parts split: prod.split)

lemma clock_stopped:
  "\<exists>s'. run_listing p stop_clock (s, t # ts) = Some (s', ts) \<and> cells s' = cells s \<and> returned s' = returned s
    \<and> regs s' RAX = t - regs s RSI \<and> (\<forall>r. r \<notin> {RAX, RDX} \<longrightarrow> regs s' r = regs s r)"
  by (simp add: stop_clock_def set_reg_def set_arith_def stamp_parts)

lemma restored:
  assumes al: "aligned rsp" and rbp: "regs s RBP = rsp - 64" and ret: "returned s = None"
    and stack: "cells s (rsp - 8) = Some b" "cells s (rsp - 16) = Some si" "cells s (rsp - 24) = Some di" "cells s (rsp - 32) = Some c12"
      "cells s (rsp - 40) = Some c13" "cells s (rsp - 48) = Some c14" "cells s (rsp - 56) = Some c15" "cells s (rsp - 64) = Some bp"
      "cells s rsp = Some a"
  shows "\<exists>s'. run_listing p (map Plain epilogue) (s, ts) = Some (s', ts) \<and> returned s' = Some a \<and> cells s' = cells s
    \<and> regs s' = (regs s)(RBP := bp, R15 := c15, R14 := c14, R13 := c13, R12 := c12, RDI := di, RSI := si, RBX := b, RSP := rsp + 8)"
  using ret by (auto simp: epilogue_def machine_simps frame_aligned[OF al] al[unfolded aligned_def] stack rbp fun_eq_iff)

text \<open>The state of the caller while a routine runs: \<open>s0\<close> is the state it was called in.\<close>

definition measuring :: "machine \<Rightarrow> machine \<Rightarrow> bool" where
  "measuring s0 s \<longleftrightarrow>
     returned s = None \<and> cells s = saved_cells s0 \<and> regs s RSP = regs s0 RSP - 64 \<and> regs s RBP = regs s0 RSP - 64
     \<and> regs s R12 = regs s0 RCX \<and> regs s R13 = regs s0 RDX \<and> regs s R14 = regs s0 R8 \<and> regs s R15 = regs s0 R9"

lemma measured_stack:
  assumes "measured arr key s"
  shows "aligned (regs s RSP)" and "\<exists>v. cells s (regs s RSP) = Some v"
    and "k \<in> {1..17} \<Longrightarrow> \<exists>v. cells s (regs s RSP - 8 * word_of_nat k) = Some v"
    and "k \<in> {1..17} \<Longrightarrow> i < length arr \<Longrightarrow> regs s RDX + word_of_nat i * 8 \<noteq> regs s RSP - 8 * word_of_nat k"
  using assms by (auto simp: measured_def)

lemma saved_elsewhere:
  "a \<notin> set (frame_cells (regs s RSP)) \<Longrightarrow> saved_cells s a = cells s a"
  by (simp add: saved_cells_def frame_cells_def Let_def)

lemma callee_called:
  assumes m: "measured arr key s0" and s: "cells s2 = (saved_cells s0)(regs s0 RSP - 72 \<mapsto> resume)" "returned s2 = None" "ip s2 = 0"
    and r: "regs s2 RCX = regs s0 RDX" "regs s2 RDX = regs s0 R8" "regs s2 R8 = regs s0 R9" "regs s2 RSP = regs s0 RSP - 72"
  shows "called arr key s2"
proof -
  let ?rsp = "regs s0 RSP"
  note stack = measured_stack[OF m]
  have "{10..17 :: nat} = {10, 11, 12, 13, 14, 15, 16, 17}" "{1..8 :: nat} = {1, 2, 3, 4, 5, 6, 7, 8}" by auto
  then have low: "set (frame_cells (?rsp - 72)) = (\<lambda>k. ?rsp - 8 * word_of_nat k) ` {10..17}"
    "set (frame_cells ?rsp) = (\<lambda>k. ?rsp - 8 * word_of_nat k) ` {1..8}"
    by (simp_all only:) (simp_all add: frame_cells_def)
  have other: "cells s2 a = cells s0 a" if "a \<noteq> ?rsp - 72" "a \<notin> set (frame_cells ?rsp)" for a
    using that saved_elsewhere[of a s0] by (simp add: s(1))
  have mapped: "cells s2 a \<noteq> None" if "cells s0 a \<noteq> None" for a
    using that by (auto simp: s(1) saved_cells_def Let_def)
  have "cells s2 (regs s0 RDX + word_of_nat i * 8) = Some (arr ! i)
      \<and> regs s0 RDX + word_of_nat i * 8 \<notin> set (frame_cells (?rsp - 72))" if i: "i < length arr" for i
  proof -
    have apart: "regs s0 RDX + word_of_nat i * 8 \<notin> (\<lambda>k. ?rsp - 8 * word_of_nat k) ` K" if "K \<subseteq> {1..17}" for K
      using stack(4)[OF _ i] that by blast
    have "regs s0 RDX + word_of_nat i * 8 \<noteq> ?rsp - 72" using apart[of "{9}"] by simp
    moreover have "regs s0 RDX + word_of_nat i * 8 \<notin> set (frame_cells ?rsp)" unfolding low by (rule apart) auto
    ultimately have "cells s2 (regs s0 RDX + word_of_nat i * 8) = cells s0 (regs s0 RDX + word_of_nat i * 8)" by (rule other)
    moreover have "regs s0 RDX + word_of_nat i * 8 \<notin> set (frame_cells (?rsp - 72))" unfolding low by (rule apart) auto
    ultimately show ?thesis using m i by (simp add: measured_def)
  qed
  moreover have "cells s2 a \<noteq> None" if "a \<in> set (frame_cells (?rsp - 72))" for a
    using that stack(3) unfolding low by (intro mapped) auto
  moreover have "cells s2 (?rsp - 72) \<noteq> None" by (simp add: s(1))
  moreover have "aligned (?rsp - 72)" using aligned_diff8[OF stack(1), of 9] by simp
  ultimately show ?thesis using m s(2,3) r by (simp add: called_def measured_def)
qed

lemma search_called:
  assumes m: "measured arr key s0" and s: "measuring s0 s"
    and callee: "\<And>s2. called arr key s2 \<Longrightarrow> \<exists>s3. code_at p (regs s0 RCX) s2 = Some s3 \<and> returns s2 v s3"
  shows "\<exists>s'. run_listing p call_search (s, ts) = Some (s', ts) \<and> returned s' = None \<and> regs s' RDI = word_of_int v
    \<and> regs s' RSI = regs s RSI \<and> regs s' RBP = regs s0 RSP - 64
    \<and> (\<forall>a. a \<noteq> regs s0 RSP - 72 \<longrightarrow> a \<notin> set (frame_cells (regs s0 RSP - 72)) \<longrightarrow> cells s' a = saved_cells s0 a)"
proof -
  let ?rsp = "regs s0 RSP"
  define resume :: u64 where "resume = word_of_nat (ip s + 4)"
  define s2 where "s2 = s\<lparr>regs := (regs s)(RCX := regs s0 RDX, RDX := regs s0 R8, R8 := regs s0 R9, RSP := ?rsp - 72),
    cells := (saved_cells s0)(?rsp - 72 \<mapsto> resume), ip := 0\<rparr>"
  have "called arr key s2" by (rule callee_called[OF m]) (use s in \<open>simp_all add: s2_def measuring_def\<close>)
  from callee[OF this] obtain s3 where s3: "code_at p (regs s0 RCX) s2 = Some s3" "returns s2 v s3" by blast
  have room: "unat (?rsp - 72) mod 8 = 0" "\<exists>v. saved_cells s0 (?rsp - 72) = Some v"
    using aligned_diff8[OF measured_stack(1)[OF m], of 9] measured_stack(3)[OF m, of 9]
    by (auto simp: aligned_def saved_cells_def Let_def)
  have ret: "returned s3 = Some resume" using s3(2) by (simp add: returns_def s2_def)
  have "run_listing p call_search (s, ts)
      = Some (set_reg RDI (regs s3 RAX) (s3\<lparr>ip := ip s + 4, flags := None, returned := None\<rparr>), ts)"
    using s room s3(1) ret
    by (auto simp: call_search_def measuring_def machine_simps s2_def resume_def add.commute)
  moreover have "cells s3 a = saved_cells s0 a" if "a \<noteq> ?rsp - 72" "a \<notin> set (frame_cells (?rsp - 72))" for a
    using s3(2) that by (simp add: returns_def s2_def)
  ultimately show ?thesis
    using s3(2) s by (auto simp: returns_def s2_def protected_def measuring_def set_reg_def)
qed

lemma measure_head:
  assumes m: "measured arr key s0" and mid: "mid = [] \<or> mid = [Plain (Xor RAX RAX)]"
  shows "\<exists>s. run_listing p (save_arguments @ mid @ start_clock) (s0, t # ts) = Some (s, ts) \<and> measuring s0 s \<and> regs s RSI = t"
proof -
  have "\<forall>k\<in>{1..8}. cells s0 (regs s0 RSP - 8 * word_of_nat k) \<noteq> None" "returned s0 = None"
    using m by (auto simp: measured_def)
  from saved_arguments[OF measured_stack(1)[OF m] this, of p "t # ts"] obtain s1 where
    s1: "run_listing p save_arguments (s0, t # ts) = Some (s1, t # ts)" "measuring s0 s1"
    by (auto simp: measuring_def)
  obtain s2 where s2: "run_listing p mid (s1, t # ts) = Some (s2, t # ts)" "measuring s0 s2"
    using mid s1(2) by (auto simp: measuring_def set_arith_def set_reg_def)
  obtain s3 where "run_listing p start_clock (s2, t # ts) = Some (s3, ts)" "cells s3 = cells s2" "returned s3 = returned s2"
    "regs s3 RSI = t" "\<forall>r. r \<notin> {RAX, RBX, RCX, RDX, RSI} \<longrightarrow> regs s3 r = regs s2 r"
    using clock_started by blast
  then show ?thesis using s1(1) s2 by (simp add: run_listing_append measuring_def)
qed

text \<open>Everything the caller expects of its registers, but for \<open>RBP\<close>.\<close>

definition resumed :: "machine \<Rightarrow> u64 \<Rightarrow> machine \<Rightarrow> bool" where
  "resumed s0 bp s \<longleftrightarrow>
     returned s = cells s0 (regs s0 RSP) \<and> regs s RSP = regs s0 RSP + 8 \<and> regs s RBP = bp
     \<and> (\<forall>r\<in>{RBX, RSI, RDI, R12, R13, R14, R15}. regs s r = regs s0 r)"

lemma measure_tail:
  assumes m: "measured arr key s0" and s: "returned s = None" "regs s RSI = t1" "regs s RDI = w" "regs s RBP = regs s0 RSP - 64"
    and bp: "cells s (regs s0 RSP - 64) = Some bp"
    and stack: "\<And>a. a \<in> {regs s0 RSP, regs s0 RSP - 8, regs s0 RSP - 16, regs s0 RSP - 24, regs s0 RSP - 32, regs s0 RSP - 40,
      regs s0 RSP - 48, regs s0 RSP - 56} \<Longrightarrow> cells s a = saved_cells s0 a"
    and mid: "mid = [] \<or> mid = [Plain (Mov RDX RDI)]"
  shows "\<exists>s'. run_listing p (stop_clock @ mid @ map Plain epilogue) (s, [t2]) = Some (s', []) \<and> regs s' RAX = t2 - t1
    \<and> (mid \<noteq> [] \<longrightarrow> regs s' RDX = w) \<and> resumed s0 bp s' \<and> cells s' = cells s"
proof -
  let ?rsp = "regs s0 RSP"
  obtain s1 where s1: "run_listing p stop_clock (s, [t2]) = Some (s1, [])" "cells s1 = cells s" "returned s1 = returned s"
    "regs s1 RAX = t2 - regs s RSI" "\<forall>r. r \<notin> {RAX, RDX} \<longrightarrow> regs s1 r = regs s r"
    using clock_stopped by blast
  obtain s2 where s2: "run_listing p mid (s1, []) = Some (s2, [])" "cells s2 = cells s" "returned s2 = None" "regs s2 RAX = t2 - t1"
    "regs s2 RBP = ?rsp - 64" "mid \<noteq> [] \<Longrightarrow> regs s2 RDX = w"
    using mid s1 s by (auto simp: set_reg_def)
  obtain a where a: "cells s0 ?rsp = Some a" using measured_stack(2)[OF m] by blast
  have saved: "cells s2 (?rsp - 8) = Some (regs s0 RBX)" "cells s2 (?rsp - 16) = Some (regs s0 RSI)" "cells s2 (?rsp - 24) = Some (regs s0 RDI)"
    "cells s2 (?rsp - 32) = Some (regs s0 R12)" "cells s2 (?rsp - 40) = Some (regs s0 R13)" "cells s2 (?rsp - 48) = Some (regs s0 R14)"
    "cells s2 (?rsp - 56) = Some (regs s0 R15)" "cells s2 (?rsp - 64) = Some bp" "cells s2 ?rsp = Some a"
    using stack bp a by (simp_all add: s2(2)) (simp_all add: saved_cells_def Let_def)
  from restored[OF measured_stack(1)[OF m] s2(5,3) saved, of p "[]"] obtain s3 where
    "run_listing p (map Plain epilogue) (s2, []) = Some (s3, [])" "returned s3 = Some a" "cells s3 = cells s2"
    "regs s3 = (regs s2)(RBP := bp, R15 := regs s0 R15, R14 := regs s0 R14, R13 := regs s0 R13, R12 := regs s0 R12,
      RDI := regs s0 RDI, RSI := regs s0 RSI, RBX := regs s0 RBX, RSP := ?rsp + 8)" by blast
  then show ?thesis using s1(1) s2 a by (simp add: run_listing_append resumed_def)
qed

section \<open>Around a search\<close>

abbreviation measure :: "timed_instr list \<Rightarrow> timed_instr list \<Rightarrow> timed_instr list" where
  "measure before after \<equiv> (save_arguments @ before @ start_clock) @ call_search @ stop_clock @ after @ map Plain epilogue"

lemma measure_listings:
  "measure_cycles = measure [] []" "measure_cycles_with_result = measure [Plain (Xor RAX RAX)] [Plain (Mov RDX RDI)]"
  by (simp_all add: measure_cycles_def measure_cycles_with_result_def)

lemma measure_search:
  assumes m: "measured arr key s0" and before: "before = [] \<or> before = [Plain (Xor RAX RAX)]"
    and after: "after = [] \<or> after = [Plain (Mov RDX RDI)]"
    and callee: "\<And>s2. called arr key s2 \<Longrightarrow> \<exists>s3. code_at p (regs s0 RCX) s2 = Some s3 \<and> returns s2 v s3"
  shows "\<exists>s'. run_listing p (measure before after) (s0, [t1, t2]) = Some (s', []) \<and> regs s' RAX = t2 - t1
    \<and> (after \<noteq> [] \<longrightarrow> regs s' RDX = word_of_int v) \<and> resumed s0 (regs s0 RBP) s'
    \<and> (\<forall>a. (\<forall>k\<in>{1..17}. a \<noteq> regs s0 RSP - 8 * word_of_nat k) \<longrightarrow> cells s' a = cells s0 a)"
proof -
  let ?rsp = "regs s0 RSP"
  obtain s1 where s1: "run_listing p (save_arguments @ before @ start_clock) (s0, [t1, t2]) = Some (s1, [t2])" "measuring s0 s1"
    "regs s1 RSI = t1"
    using measure_head[OF m before] by blast
  obtain s2 where s2: "run_listing p call_search (s1, [t2]) = Some (s2, [t2])" "returned s2 = None" "regs s2 RDI = word_of_int v"
    "regs s2 RSI = t1" "regs s2 RBP = ?rsp - 64"
    and cells: "\<And>a. a \<noteq> ?rsp - 72 \<Longrightarrow> a \<notin> set (frame_cells (?rsp - 72)) \<Longrightarrow> cells s2 a = saved_cells s0 a"
    using search_called[OF m s1(2) callee, of "[t2]"] s1(3) by blast
  have bp: "cells s2 (?rsp - 64) = Some (regs s0 RBP)"
    using cells[of "?rsp - 64"] by (simp add: frame_cells_def saved_cells_def Let_def)
  have stack: "cells s2 a = saved_cells s0 a" if "a \<in> {?rsp, ?rsp - 8, ?rsp - 16, ?rsp - 24, ?rsp - 32, ?rsp - 40, ?rsp - 48, ?rsp - 56}" for a
    using that by (intro cells) (auto simp: frame_cells_def)
  obtain s3 where s3: "run_listing p (stop_clock @ after @ map Plain epilogue) (s2, [t2]) = Some (s3, [])" "regs s3 RAX = t2 - t1"
    "after \<noteq> [] \<longrightarrow> regs s3 RDX = word_of_int v" "resumed s0 (regs s0 RBP) s3" "cells s3 = cells s2"
    using measure_tail[OF m s2(2,4,3,5) bp stack after] by blast
  have run: "run_listing p (measure before after) (s0, [t1, t2]) = Some (s3, [])"
    unfolding run_listing_append[of p "save_arguments @ before @ start_clock"] s1(1) option.case
      run_listing_append[of p call_search] s2(1) by (rule s3(1))
  have "cells s2 a = cells s0 a" if "\<forall>k\<in>{1..17}. a \<noteq> ?rsp - 8 * word_of_nat k" for a
  proof -
    have "\<forall>k\<in>set [1..<18]. a \<noteq> ?rsp - 8 * word_of_nat k" using that by auto
    then have "a \<noteq> ?rsp - 72" "a \<notin> set (frame_cells (?rsp - 72))" "a \<notin> set (frame_cells ?rsp)"
      by (simp_all add: frame_cells_def upt_rec)
    then show ?thesis using cells[of a] saved_elsewhere[of a s0] by simp
  qed
  then show ?thesis using run s3(2-5) by (intro exI[of _ s3]) simp
qed

text \<open>
  C22: Around the assembly searches the cycle counters are right. Called with the address of a
  search, an array, a key and a size, and stack for both frames, each returns in \<open>RAX\<close> the
  difference of the two readings of the time stamp counter, the second one also in \<open>RDX\<close> what
  the C reference returns; every protected register and the stack pointer are restored, and
  memory outside the two frames is unchanged.
\<close>

theorem cycle_counters_transparent:
  assumes "code \<in> set routines" and "measured arr key s0" and "code_at p (regs s0 RCX) = run_code (14 * 60 + 44) code"
    and "listing \<in> {measure_cycles, measure_cycles_with_result}"
  shows "\<exists>s' v. run_listing p listing (s0, [t1, t2]) = Some (s', []) \<and> regs s' RAX = t2 - t1
    \<and> binary_search_ref (map sint arr) (sint key) (int (length arr)) = Some v
    \<and> (listing = measure_cycles_with_result \<longrightarrow> sint (regs s' RDX) = v)
    \<and> returned s' = cells s0 (regs s0 RSP) \<and> regs s' RSP = regs s0 RSP + 8
    \<and> (\<forall>r\<in>set protected. regs s' r = regs s0 r)
    \<and> (\<forall>a. (\<forall>k\<in>{1..17}. a \<noteq> regs s0 RSP - 8 * word_of_nat k) \<longrightarrow> cells s' a = cells s0 a)"
proof -
  have len: "length arr < 2 ^ 60" using assms(2) by (simp add: measured_def)
  obtain v where ref: "binary_search_ref (map sint arr) (sint key) (int (length arr)) = Some v"
    using routine_runs[OF assms(1) callee_called[OF assms(2)] len, of "\<lparr>regs = (regs s0)(RCX := regs s0 RDX, RDX := regs s0 R8,
        R8 := regs s0 R9, RSP := regs s0 RSP - 72), flags = None, cells = (saved_cells s0)(regs s0 RSP - 72 \<mapsto> 0), ip = 0, returned = None\<rparr>" 0]
    by auto
  have callee: "\<exists>s3. code_at p (regs s0 RCX) s2 = Some s3 \<and> returns s2 v s3" if "called arr key s2" for s2
    using routine_runs[OF assms(1) that len] ref by (auto simp: assms(3))
  have v: "sint (word_of_int v :: u64) = v"
    using ref_range[of "map sint arr" "sint key" v] ref len by (intro sint_word) auto
  consider "listing = measure [] []" "measure_cycles_with_result \<noteq> listing"
    | "listing = measure [Plain (Xor RAX RAX)] [Plain (Mov RDX RDI)]"
    using assms(4) by (auto simp: measure_listings)
  then show ?thesis
    using measure_search[OF assms(2) _ _ callee, of "[]" "[]" t1 t2]
      measure_search[OF assms(2) _ _ callee, of "[Plain (Xor RAX RAX)]" "[Plain (Mov RDX RDI)]" t1 t2] ref v
    by cases (auto simp: resumed_def protected_def)
qed

text \<open>A machine ready for a measurement: three elements at 2^32, the stack below them.\<close>

definition demo_machine :: machine where
  "demo_machine =
     \<lparr>regs = (\<lambda>_. 0)(RDX := 2 ^ 32, R8 := 8, R9 := 3, RSP := 2 ^ 32 - 64, RBP := 5), flags = None,
      cells = (\<lambda>a. if a = 2 ^ 32 then Some 2 else if a = 2 ^ 32 + 8 then Some 4 else if a = 2 ^ 32 + 16 then Some 8
                 else if unat (2 ^ 32 - 64 - a) \<le> 136 then Some 0 else None),
      ip = 0, returned = None\<rparr>"

lemma demo_measured: "measured [2, 4, 8] 8 demo_machine"
proof -
  have "\<forall>k\<in>set [1..<18]. cells demo_machine (regs demo_machine RSP - 8 * word_of_nat k) \<noteq> None
      \<and> (\<forall>i\<in>set [0..<3]. regs demo_machine RDX + word_of_nat i * 8 \<noteq> regs demo_machine RSP - 8 * word_of_nat k)"
    by (simp add: upt_rec demo_machine_def)
  moreover have "\<forall>i\<in>set [0..<3]. cells demo_machine (regs demo_machine RDX + word_of_nat i * 8) = Some ([2, 4, 8] ! i)"
    by (simp add: upt_rec demo_machine_def)
  moreover have "{1..17 :: nat} = set [1..<18]" by auto
  ultimately show ?thesis by (auto simp: measured_def) (simp_all add: demo_machine_def aligned_def)
qed

theorem cycle_counters_transparent_witness:
  "\<exists>s'. run_listing \<lparr>cpuid_answer = \<lambda>_. (0, 0, 0, 0), code_at = \<lambda>_. run_code (14 * 60 + 44) optimized_code\<rparr>
      measure_cycles_with_result (demo_machine, [100, 175]) = Some (s', []) \<and> regs s' RAX = 75 \<and> sint (regs s' RDX) = 2"
proof -
  have "binary_search_ref (map sint [2, 4, 8 :: u64]) (sint (8 :: u64)) 3 = Some 2"
    by (simp add: binary_search_ref_def ref_loop.simps read_def)
  then show ?thesis
    using cycle_counters_transparent[OF _ demo_measured, of optimized_code
        "\<lparr>cpuid_answer = \<lambda>_. (0, 0, 0, 0), code_at = \<lambda>_. run_code (14 * 60 + 44) optimized_code\<rparr>" measure_cycles_with_result 100 175]
    by (auto simp: routines_def)
qed

section \<open>Around a function that uses its home space\<close>

text \<open>
  The Windows convention gives a function 32 bytes above its return address; the caller has to
  leave them free. Compiled without optimisation, a C function stores its arguments there first.
\<close>

definition spill_argument :: "machine \<Rightarrow> machine option" where
  "spill_argument s =
     (case store_cell (regs s RSP + 8) (regs s RCX) s of None \<Rightarrow> None | Some s \<Rightarrow> exec_instr [] Ret s)"

lemma spill_called:
  assumes m: "measured arr key s0" and s: "measuring s0 s" and p: "code_at p (regs s0 RCX) = spill_argument"
  shows "\<exists>s'. run_listing p call_search (s, ts) = Some (s', ts) \<and> returned s' = None \<and> regs s' RSI = regs s RSI
    \<and> regs s' RBP = regs s0 RSP - 64 \<and> cells s' (regs s0 RSP - 64) = Some (regs s0 RDX)
    \<and> (\<forall>a. a \<notin> {regs s0 RSP - 72, regs s0 RSP - 64} \<longrightarrow> cells s' a = saved_cells s0 a)"
proof -
  let ?rsp = "regs s0 RSP"
  have room: "unat (?rsp - 72) mod 8 = 0" "unat (?rsp - 64) mod 8 = 0" "\<exists>v. saved_cells s0 (?rsp - 72) = Some v"
    using aligned_diff8[OF measured_stack(1)[OF m], of 9] aligned_diff8[OF measured_stack(1)[OF m], of 8] measured_stack(3)[OF m, of 9]
    by (auto simp: aligned_def saved_cells_def Let_def)
  have saved: "saved_cells s0 (?rsp - 64) = Some (regs s0 RBP)" by (simp add: saved_cells_def Let_def)
  show ?thesis
    using s room saved by (auto simp: call_search_def measuring_def machine_simps p spill_argument_def)
qed

text \<open>
  C23: The cycle counters are wrong for other functions of the convention. Around one that stores
  its first argument in its home space, \<open>measure_cycles_win64\<close> returns with the array pointer in
  \<open>RBP\<close>, whatever its caller kept there; the home space lies over the saved registers.
\<close>

theorem home_space_lost:
  assumes "measured arr key s0" and "code_at p (regs s0 RCX) = spill_argument"
  shows "\<exists>s'. run_listing p measure_cycles (s0, [t1, t2]) = Some (s', []) \<and> regs s' RAX = t2 - t1
    \<and> regs s' RBP = regs s0 RDX \<and> returned s' = cells s0 (regs s0 RSP)"
proof -
  let ?rsp = "regs s0 RSP"
  obtain s1 where s1: "run_listing p (save_arguments @ [] @ start_clock) (s0, [t1, t2]) = Some (s1, [t2])" "measuring s0 s1"
    "regs s1 RSI = t1"
    using measure_head[OF assms(1), of "[]"] by blast
  obtain s2 where s2: "run_listing p call_search (s1, [t2]) = Some (s2, [t2])" "returned s2 = None" "regs s2 RSI = t1"
    "regs s2 RBP = ?rsp - 64" "cells s2 (?rsp - 64) = Some (regs s0 RDX)"
    and cells: "\<And>a. a \<notin> {?rsp - 72, ?rsp - 64} \<Longrightarrow> cells s2 a = saved_cells s0 a"
    using spill_called[OF assms(1) s1(2) assms(2), of "[t2]"] s1(3) by blast
  have stack: "cells s2 a = saved_cells s0 a" if "a \<in> {?rsp, ?rsp - 8, ?rsp - 16, ?rsp - 24, ?rsp - 32, ?rsp - 40, ?rsp - 48, ?rsp - 56}" for a
    using that by (intro cells) auto
  obtain s3 where s3: "run_listing p (stop_clock @ [] @ map Plain epilogue) (s2, [t2]) = Some (s3, [])" "regs s3 RAX = t2 - t1"
    "resumed s0 (regs s0 RDX) s3"
    using measure_tail[OF assms(1) s2(2,3) refl s2(4,5) stack, of "[]"] by blast
  have "run_listing p measure_cycles (s0, [t1, t2]) = Some (s3, [])"
    unfolding measure_listings run_listing_append[of p "save_arguments @ [] @ start_clock"] s1(1) option.case
      run_listing_append[of p call_search] s2(1) by (rule s3(1))
  then show ?thesis using s3(2,3) by (simp add: resumed_def)
qed

theorem home_space_lost_witness:
  "\<exists>s'. run_listing \<lparr>cpuid_answer = \<lambda>_. (0, 0, 0, 0), code_at = \<lambda>_. spill_argument\<rparr> measure_cycles (demo_machine, [100, 175])
      = Some (s', []) \<and> regs demo_machine RBP = 5 \<and> regs s' RBP = 2 ^ 32"
  using home_space_lost[OF demo_measured, of "\<lparr>cpuid_answer = \<lambda>_. (0, 0, 0, 0), code_at = \<lambda>_. spill_argument\<rparr>" 100 175]
  by (auto simp: demo_machine_def)

end
