(* ===== verification/Spec2Isabelle.thy ===== *)
theory Spec2Isabelle
  imports Order_Switching Bucket_Queries Index_Failures File_Browser_Main Benchmark_Suite Cycle_Counters
begin

text \<open>
  A verification development for SpeedUp: the bucketization library
  (\<open>include/speedup/bucketization\<close>), its file browser example, the C core with its x86-64
  assembly searches, and the benchmark suite with its AVX2 searches. Paths are relative to the
  repository.

  THE PROGRAM. A \<open>BucketIndex\<close> keeps elements in insertion order and, for every sort key, a
  bucket id per element. The ids come from a layout: split points estimated from a sample of
  the elements so that the buckets have the sizes a plan asks for. Selecting an order groups
  the slots by bucket with a counting sort; a bucket is sorted only when a read reaches it.
  Additions and updates mark slots to be regrouped, removals renumber them, and a layout that
  has become stale is estimated anew. The client sees none of this: every read shows the
  elements as a stable sort would. That claim, for every sequence of operations, is the main
  theorem.

  THE PARTS, in the order in which they build on each other.

  Shared: \<open>SU_Prelude\<close> (words, exceptions as sum values, \<open>run\<close> = result and state left
  behind, the throwing loop \<open>for_do\<close>, bisection), \<open>Std_Algorithms\<close> (stable merge sort,
  bounds, the locale \<open>strict_weak_order\<close>), \<open>Throwing_Algorithms\<close> (the same with a comparison
  that may throw), \<open>Float64\<close> (binary64 as the plans use it).

  \<open>Norm_Keys\<close> models \<open>keys.hpp\<close>: the encodings of numbers and strings into unsigned 64-bit
  keys. Lemmas: the numeric order of the keys is the order of the values.

  \<open>Sort_Keys\<close> models \<open>sort_key.hpp\<close>: the record \<open>sort_key\<close> is the class, the factories return
  an exception or a key, \<open>compare_values\<close> is \<open>SortKey::compare\<close>, which throws for a group out
  of range, and so do the sorts and searches that call it through \<open>compare_less\<close>;
  \<open>order_cmp\<close> is its value on valid elements. \<open>lawful_key\<close> asks for a comparator
  that is a three-way comparison (locale \<open>three_way\<close>).

  \<open>Bucket_Plans\<close> models \<open>bucket_plan.hpp\<close>: factories, copies, \<open>target_sizes\<close>. Lemmas: plans
  are well formed (\<open>wf_plan\<close>), target sizes add up and respect the limit.

  \<open>Bucket_Layouts\<close> models \<open>bucket_layout.hpp\<close>: sampler, split positions, the searches for a
  bucket, \<open>estimate\<close>. Lemmas: the invariant \<open>layout_ok\<close>, on valid elements nothing throws and
  the search returns \<open>split_bucket\<close>, buckets follow the exact order.

  \<open>Key_States\<close> models \<open>struct KeyState\<close> and the private operations of \<open>bucket_index.hpp\<close>
  (\<open>relayout\<close>, \<open>append\<close>, \<open>rekey\<close>, \<open>build_order\<close>, \<open>regroup\<close>, \<open>compact\<close>, \<open>sort_bucket\<close>,
  \<open>prepare\<close>). \<open>Segments\<close>, \<open>Key_Invariants\<close>, \<open>Grouping_Invariants\<close> and \<open>Removal_Invariants\<close>
  prove that each preserves \<open>key_inv\<close>: keys up to date, every element counted in its bucket,
  and, unless it is stale, a cached grouping that is a permutation of the slots cut into
  buckets, each with a prefix that is sorted.

  \<open>Bucket_Index\<close> models \<open>class BucketIndex\<close>, one definition per public function: the record
  \<open>index\<close> is the object (plan, elements, key states, active state, direction). \<open>Views\<close> is the
  specification of the order shown. \<open>Index_Reads\<close>, \<open>Index_Visits\<close> and \<open>Index_Updates\<close> prove,
  for each operation, that \<open>index_inv\<close> is kept and what is returned.

  \<open>List_Interface\<close> models \<open>bucketed_list.hpp\<close>: its virtual functions, but for the
  questions about buckets, as a datatype \<open>request\<close>, answered by \<open>run_request\<close> on an index and by \<open>spec_request\<close> on a \<open>collection\<close>
  without buckets; \<open>contents\<close> is the abstraction function. \<open>Ordered_Lists\<close> states the same
  interface as locales, with \<open>BucketIndex\<close> as their interpretation and the non-virtual members
  as clients. \<open>List_Runs\<close> lifts the refinement to runs and defines \<open>reachable\<close>.

  \<open>Index_Properties\<close>, \<open>Index_Statistics\<close> and \<open>Index_Failures\<close> hold the properties of the
  whole: refinement, order, errors, invisibility of maintenance; bucket sizes, estimates and
  the cost of a first page; and two defects, an element left behind by a failed \<open>add\<close> and a
  read past the end of the sample with a comparator that has cycles. \<open>Bucket_Queries\<close> computes
  the answers about buckets from the layouts and shows that ids and slots are stored in the
  narrow integer types of \<open>KeyState\<close> without truncation. \<open>Order_Switching\<close> follows one key state through requests that only
  look (\<open>looking\<close>): a \<open>calm\<close> state is kept by each of them (\<open>kept\<close>), so switching back to a
  sort key reuses its cached grouping and its sorted buckets.

  \<open>Natural_Compare\<close>, \<open>File_Browser\<close> and \<open>File_Browser_Main\<close> model
  \<open>examples/bucketization/file_browser.cpp\<close>: its comparison is a total order, and every page
  it prints is described without buckets, from the program's arguments to its exit code.
  Clock ticks are 64-bit words; \<open>listed_entry\<close> is the exact entry, and \<open>clocks_in_range\<close> says
  that the arithmetic of \<open>make_entry\<close> does not overflow.
  \<open>Decimal_Text\<close> holds the numbers it reads and the benchmark prints.

  \<open>Binary_Searches\<close> models \<open>src/algorithms\<close>, \<open>src/core\<close>, the GPU placeholders and the
  searches, the check and the test data of \<open>legacy/benchmark_win.c\<close>. The locale
  \<open>search_routine\<close> is the contract of a search; the reference, both AVX2 searches and the
  dispatcher are instances.

  \<open>X86_Machine\<close> is the part of x86-64 that
  \<open>src/backends/cpu/x86_64/binary_search_win64.asm\<close> uses: registers, the flags of \<open>cmp\<close>, 64-bit
  cells of memory, one partial step per instruction. \<open>Assembly_Searches\<close> lists the three
  routines of the source and proves, through the locale \<open>search_code\<close> (a head of the loop, the
  steps from one probe to the next, the exits), that each returns what the C reference
  returns and obeys the calling convention. \<open>run_code n\<close> executes at most \<open>n\<close> instructions: an
  array of fewer than 2^b elements needs 14 for each of b halvings and 44 for prologue,
  epilogue and the last probe, and \<open>asm_search\<close> takes b = 60, more than memory can hold.
  \<open>Cycle_Counters\<close> lists the two routines that measure a search: they are right around the
  assembly searches and lose a register around functions that use their home space.

  \<open>Benchmark_Timing\<close> models \<open>get_time_ns\<close> and \<open>benchmark_search\<close> over numbered readings of the
  performance counter; \<open>Benchmark_Suite\<close> models \<open>main\<close> and the CSV file: every function, C,
  AVX2 or assembly, passes its check on every size.

  CONVENTIONS. \<open>size_t\<close> is \<open>nat\<close>, with \<open>size_t\<close> and \<open>size_t_diff\<close> where a result could wrap;
  keys are 64-bit words; slots and bucket ids go through truncating casts that the
  invariants show to be exact. A container access out of range is an unspecified list
  element, and the invariants bound every index that is used; in \<open>Binary_Searches\<close> it is
  \<open>None\<close>. Loops are recursion with a measure or folds, so nothing but the assembly needs fuel and
  all definitions are total. User callbacks are total functions without effects.

  EXCEPTIONS. Every \<open>throw\<close> of the library is a branch of the model, and an operation that is
  left by one returns it with the object it leaves behind. A key with one group is used
  without checking groups first, so a comparison inside an estimation, a search or a sort can
  be what throws (\<open>single_group_unchecked\<close>). The order an interrupted sort leaves its bucket in
  is unspecified in C++; the model keeps the one from before, with \<open>sorted_len\<close> unchanged.

  ASSUMPTIONS OF THE THEOREMS. Plans come from the factories with page sizes below 2^63 (a
  larger one makes the doubled page size of \<open>is_stale\<close> wrap); sort keys are lawful and their
  groups in range on the elements offered. Fewer than 2^32 elements is not assumed: \<open>add\<close> and
  \<open>add_all\<close> refuse more.

  NOT MODELLED. Copies, moves and allocation failure; callbacks that throw or look at the
  index; the pointer validity of \<open>active_sort_key\<close>; running time, except for the elements
  sorted by a first page and the instructions of the assembly searches. In both programs the
  text on the console; in the file browser an error while stepping to the next directory entry,
  which is an exception of the library. The benchmark reimplementations of other programs, the
  ports to other languages, the unit tests and the code generator are outside.
\<close>

end
